(* ===== verification/Prelude.thy ===== *)
theory Prelude
  imports Main "HOL-Library.Word" "HOL-Library.Multiset"
begin

text \<open>
  The shared layer of the development: names for Go's machine integers, the
  reading of Go maps (a partial function, iterated in an order the language
  leaves open), positional number representations, and the list lemmas that
  several components use.
\<close>

section \<open>Machine integers, maps and iteration order\<close>

type_synonym int64 = "64 word"
type_synonym uint64 = "64 word"
type_synonym byte = "8 word"

text \<open>
  Ranging over a Go map visits every key once, in an order that is not
  specified. An operation that ranges over a map takes the order of this visit
  as an argument; its theorems hold for every order of the map's keys.
\<close>

definition map_order :: "('k \<rightharpoonup> 'v) \<Rightarrow> 'k list \<Rightarrow> bool" where
  "map_order m ks \<longleftrightarrow> distinct ks \<and> set ks = dom m"

named_theorems go_simps "evaluation of the Go runtime's primitives"

lemma map_orderD [dest]:
  assumes "map_order m ks"
  shows "distinct ks" and "set ks = dom m"
  using assms by (simp_all add: map_order_def)

lemma map_order_finite: "map_order m ks \<Longrightarrow> finite (dom m)"
  unfolding map_order_def by (metis List.finite_set)

lemma sint_word_of_int64 [simp]:
  "- (2 ^ 63) \<le> k \<Longrightarrow> k < 2 ^ 63 \<Longrightarrow> sint (word_of_int k :: int64) = k"
  by (simp add: sint_sbintrunc' signed_take_bit_int_eq_self)

lemma sint_int64_bounds: "- (2 ^ 63) \<le> sint (w :: int64)" "sint w < 2 ^ 63"
  using sint_ge [of w] sint_lt [of w] by simp_all

lemma sint_of_nat_int64: "n < 2 ^ 63 \<Longrightarrow> sint (of_nat n :: int64) = int n"
  using sint_word_of_int64 [of "int n"] by simp

lemma unat_byte_less: "unat (x :: byte) < 256"
proof -
  have "unat x < 2 ^ LENGTH(8)" by (rule unsigned_less)
  then show ?thesis by simp
qed

section \<open>Positional numbers\<close>

text \<open>A digit list is read with the least significant digit first.\<close>

fun le_val :: "nat \<Rightarrow> nat list \<Rightarrow> nat" where
  "le_val b [] = 0"
| "le_val b (d # ds) = d + b * le_val b ds"

fun le_digits :: "nat \<Rightarrow> nat \<Rightarrow> nat list" where
  "le_digits b n = (if b \<le> 1 \<or> n = 0 then [] else n mod b # le_digits b (n div b))"

declare le_digits.simps [simp del]

lemma le_digits_0 [simp]: "le_digits b 0 = []"
  by (simp add: le_digits.simps)

lemma le_digits_step: "1 < b \<Longrightarrow> 0 < n \<Longrightarrow> le_digits b n = n mod b # le_digits b (n div b)"
  by (subst le_digits.simps) simp

lemma le_val_digits: "1 < b \<Longrightarrow> le_val b (le_digits b n) = n"
proof (induction b n rule: le_digits.induct)
  case (1 b n)
  then show ?case
    by (cases "n = 0") (simp_all add: le_digits_step mult.commute)
qed

lemma le_digits_bound: "1 < b \<Longrightarrow> d \<in> set (le_digits b n) \<Longrightarrow> d < b"
proof (induction b n rule: le_digits.induct)
  case (1 b n)
  then show ?case
    by (cases "n = 0") (auto simp: le_digits_step)
qed

lemma le_digits_eq_Nil: "1 < b \<Longrightarrow> le_digits b n = [] \<longleftrightarrow> n = 0"
  by (cases "n = 0") (simp_all add: le_digits_step)

lemma le_digits_last: "1 < b \<Longrightarrow> 0 < n \<Longrightarrow> last (le_digits b n) \<noteq> 0"
proof (induction b n rule: le_digits.induct)
  case (1 b n)
  show ?case
  proof (cases "n div b = 0")
    case True
    with 1 have "n < b" by (simp add: div_eq_0_iff)
    with 1 True show ?thesis by (simp add: le_digits_step)
  next
    case False
    with 1 show ?thesis
      by (simp add: le_digits_step le_digits_eq_Nil)
  qed
qed

text \<open>A digit list with no zero at its significant end is the one of its value.\<close>

lemma le_digits_val:
  "1 < b \<Longrightarrow> \<forall>d\<in>set ds. d < b \<Longrightarrow> ds = [] \<or> last ds \<noteq> 0 \<Longrightarrow> le_digits b (le_val b ds) = ds"
proof (induction ds)
  case Nil
  then show ?case by simp
next
  case (Cons d ds)
  then have IH: "le_digits b (le_val b ds) = ds"
    by (auto split: if_splits)
  have pos: "0 < d + b * le_val b ds"
  proof (cases ds)
    case Nil
    with Cons.prems show ?thesis by simp
  next
    case (Cons e es)
    with IH have "le_val b ds \<noteq> 0" by (metis le_digits_0 list.distinct(1))
    with \<open>1 < b\<close> show ?thesis by simp
  qed
  with Cons.prems IH show ?case
    by (simp add: le_digits_step)
qed

lemma le_val_less: "\<forall>d\<in>set ds. d < b \<Longrightarrow> le_val b ds < b ^ length ds"
proof (induction ds)
  case Nil
  then show ?case by simp
next
  case (Cons d ds)
  then have "d < b" and "le_val b ds + 1 \<le> b ^ length ds" by auto
  then have "d + b * le_val b ds < b * (le_val b ds + 1)" by simp
  also have "\<dots> \<le> b * b ^ length ds"
    using \<open>le_val b ds + 1 \<le> _\<close> by (rule mult_le_mono2)
  finally show ?case by simp
qed

lemma le_digits_length: "1 < b \<Longrightarrow> n < b ^ k \<Longrightarrow> length (le_digits b n) \<le> k"
proof (induction k arbitrary: n)
  case 0
  then show ?case by simp
next
  case (Suc k)
  show ?case
  proof (cases "n = 0")
    case False
    from Suc.prems have "n div b < b ^ k"
      by (metis less_mult_imp_div_less mult.commute power_Suc)
    with Suc.IH [OF Suc.prems(1)] False Suc.prems(1) show ?thesis
      by (simp add: le_digits_step)
  qed simp
qed

lemma le_val_append: "le_val b (xs @ ys) = le_val b xs + b ^ length xs * le_val b ys"
  by (induction xs) (simp_all add: algebra_simps)

lemma le_val_foldl: "foldl (\<lambda>a d. b * a + d) 0 ds = le_val b (rev ds)"
  by (induction ds rule: rev_induct) simp_all

text \<open>Fixed-width digit lists, as in a little-endian machine word.\<close>

fun le_fixed :: "nat \<Rightarrow> nat \<Rightarrow> nat \<Rightarrow> nat list" where
  "le_fixed b 0 n = []"
| "le_fixed b (Suc k) n = n mod b # le_fixed b k (n div b)"

lemma length_le_fixed [simp]: "length (le_fixed b k n) = k"
  by (induction k arbitrary: n) simp_all

lemma le_fixed_bound: "0 < b \<Longrightarrow> d \<in> set (le_fixed b k n) \<Longrightarrow> d < b"
  by (induction k arbitrary: n) auto

lemma le_val_fixed: "n < b ^ k \<Longrightarrow> le_val b (le_fixed b k n) = n"
proof (induction k arbitrary: n)
  case (Suc k)
  then have "n div b < b ^ k"
    by (metis less_mult_imp_div_less mult.commute power_Suc)
  with Suc.IH show ?case by (simp add: mult.commute)
qed simp

section \<open>Arrays of chunks\<close>

text \<open>A flat array that holds chunks of the same size one after the other.\<close>

lemma length_chunks: "\<forall>x\<in>set xs. length x = d \<Longrightarrow> length (concat xs) = length xs * d"
  by (induction xs) simp_all

lemma take_chunks: "\<forall>x\<in>set xs. length x = d \<Longrightarrow> take (i * d) (concat xs) = concat (take i xs)"
proof (induction xs arbitrary: i)
  case (Cons x xs)
  then show ?case by (cases i) simp_all
qed simp

lemma drop_chunks: "\<forall>x\<in>set xs. length x = d \<Longrightarrow> drop (i * d) (concat xs) = concat (drop i xs)"
proof (induction xs arbitrary: i)
  case (Cons x xs)
  then show ?case by (cases i) simp_all
qed simp

lemma nth_chunk:
  assumes "\<forall>x\<in>set xs. length x = d" and "i < length xs"
  shows "take d (drop (i * d) (concat xs)) = xs ! i"
proof -
  have "drop (i * d) (concat xs) = xs ! i @ concat (drop (Suc i) xs)"
    using assms by (simp add: drop_chunks Cons_nth_drop_Suc [symmetric])
  with assms show ?thesis by simp
qed

lemma update_chunk:
  assumes "\<forall>x\<in>set xs. length x = d" and "i < length xs" and "length v = d"
  shows "take (i * d) (concat xs) @ v @ drop (i * d + d) (concat xs) = concat (xs[i := v])"
proof -
  have "drop (i * d + d) (concat xs) = concat (drop (Suc i) xs)"
    using assms(1) drop_chunks [of xs d "Suc i"] by (simp add: add.commute)
  then show ?thesis using assms by (simp add: take_chunks upd_conv_take_nth_drop)
qed

end
