(* ===== verification/Go_Runtime.thy ===== *)
theory Go_Runtime
  imports Prelude "HOL-Library.Monad_Syntax"
begin

text \<open>
  The part of Go's standard library that the components share: strings as byte
  sequences, slice accesses with their bounds checks, hexadecimal printing and
  \<^verbatim>\<open>crypto/md5\<close>, which names storage directories and places indexes on nodes.
\<close>

section \<open>Bytes and slices\<close>

definition bytes_of :: "string \<Rightarrow> byte list" where
  "bytes_of s = map of_char s"

definition string_of :: "byte list \<Rightarrow> string" where
  "string_of bs = map (\<lambda>b. char_of (unat b)) bs"

lemma string_of_bytes_of [simp]: "string_of (bytes_of s) = s"
proof -
  have "unat (of_char c :: byte) = of_char c" for c
  proof -
    have "(of_char c :: nat) = of_char c mod 256" by (metis char_of_char of_char_of)
    then have "(of_char c :: nat) < 256" by (metis mod_less_divisor zero_less_numeral)
    moreover have "(of_char c :: byte) = of_nat (of_char c)" by (simp add: of_nat_of_char)
    ultimately show ?thesis by (simp add: unat_of_nat)
  qed
  then show ?thesis by (simp add: string_of_def bytes_of_def map_idI)
qed

text \<open>An error value, by its message, and the error that wraps another one (\<^verbatim>\<open>%w\<close>).\<close>

type_synonym error = string

definition wrap :: "string \<Rightarrow> error \<Rightarrow> error" where
  "wrap msg e = msg @ '': '' @ e"

text \<open>An access out of range panics: \<open>None\<close>.\<close>

definition slice_get :: "'a list \<Rightarrow> nat \<Rightarrow> 'a option" where
  "slice_get xs i = (if i < length xs then Some (xs ! i) else None)"

definition slice_set :: "'a list \<Rightarrow> nat \<Rightarrow> 'a \<Rightarrow> 'a list option" where
  "slice_set xs i v = (if i < length xs then Some (xs[i := v]) else None)"

text \<open>The two lower-case hexadecimal digits of a byte, as \<^verbatim>\<open>%02x\<close> prints them.\<close>

definition hex_digit :: "nat \<Rightarrow> char" where
  "hex_digit n = ''0123456789abcdef'' ! n"

definition hex2 :: "nat \<Rightarrow> string" where
  "hex2 n = [hex_digit (n div 16), hex_digit (n mod 16)]"

definition hex_encode :: "byte list \<Rightarrow> string" where
  "hex_encode bs = concat (map (\<lambda>b. hex2 (unat b)) bs)"

section \<open>MD5\<close>

text \<open>The message is padded to whole blocks of 64 bytes; every block updates four 32-bit
  registers in 64 rounds; the digest is the registers in little-endian order.\<close>

type_synonym registers = "32 word \<times> 32 word \<times> 32 word \<times> 32 word"

unbundle bit_operations_syntax

definition md5_table :: "nat list" where
  "md5_table = [
     3614090360, 3905402710, 606105819, 3250441966, 4118548399, 1200080426,
     2821735955, 4249261313, 1770035416, 2336552879, 4294925233, 2304563134,
     1804603682, 4254626195, 2792965006, 1236535329, 4129170786, 3225465664,
     643717713, 3921069994, 3593408605, 38016083, 3634488961, 3889429448,
     568446438, 3275163606, 4107603335, 1163531501, 2850285829, 4243563512,
     1735328473, 2368359562, 4294588738, 2272392833, 1839030562, 4259657740,
     2763975236, 1272893353, 4139469664, 3200236656, 681279174, 3936430074,
     3572445317, 76029189, 3654602809, 3873151461, 530742520, 3299628645,
     4096336452, 1126891415, 2878612391, 4237533241, 1700485571, 2399980690,
     4293915773, 2240044497, 1873313359, 4264355552, 2734768916, 1309151649,
     4149444226, 3174756917, 718787259, 3951481745]"

definition md5_shift :: "nat \<Rightarrow> nat" where
  "md5_shift i = ([[7, 12, 17, 22], [5, 9, 14, 20], [4, 11, 16, 23], [6, 10, 15, 21]] ! (i div 16)) ! (i mod 4)"

definition rotl32 :: "32 word \<Rightarrow> nat \<Rightarrow> 32 word" where
  "rotl32 x n = push_bit n x OR drop_bit (32 - n) x"

definition md5_round :: "32 word list \<Rightarrow> registers \<Rightarrow> nat \<Rightarrow> registers" where
  "md5_round m r i = (case r of (a, b, c, d) \<Rightarrow>
     let (f, g) =
       (if i < 16 then ((b AND c) OR (NOT b AND d), i)
        else if i < 32 then ((d AND b) OR (NOT d AND c), (5 * i + 1) mod 16)
        else if i < 48 then (b XOR c XOR d, (3 * i + 5) mod 16)
        else (c XOR (b OR NOT d), 7 * i mod 16))
     in (d, b + rotl32 (f + a + of_nat (md5_table ! i) + m ! g) (md5_shift i), b, c))"

definition le_word32 :: "byte list \<Rightarrow> 32 word" where
  "le_word32 bs = of_nat (le_val 256 (map unat bs))"

definition md5_block :: "registers \<Rightarrow> byte list \<Rightarrow> registers" where
  "md5_block r block =
     (let m = map (\<lambda>i. le_word32 (take 4 (drop (4 * i) block))) [0..<16] in
      case (r, foldl (md5_round m) r [0..<64]) of
        ((a, b, c, d), (a', b', c', d')) \<Rightarrow> (a + a', b + b', c + c', d + d'))"

definition md5_pad :: "byte list \<Rightarrow> byte list" where
  "md5_pad msg = msg @ [128] @ replicate ((119 - length msg mod 64) mod 64) 0
     @ map of_nat (le_fixed 256 8 (8 * length msg mod 2 ^ 64))"

definition md5_sum :: "byte list \<Rightarrow> byte list" where
  "md5_sum msg =
     (let p = md5_pad msg;
          blocks = map (\<lambda>i. take 64 (drop (64 * i) p)) [0..<length p div 64]
      in case foldl md5_block (0x67452301, 0xefcdab89, 0x98badcfe, 0x10325476) blocks of
        (a, b, c, d) \<Rightarrow> concat (map (\<lambda>w. map of_nat (le_fixed 256 4 (unat w))) [a, b, c, d]))"

lemma length_md5_sum [simp]: "length (md5_sum msg) = 16"
  by (simp add: md5_sum_def Let_def split: prod.split)

lemma length_md5_pad: "length (md5_pad msg) mod 64 = 0"
proof -
  let ?r = "length msg mod 64"
  let ?z = "(119 - ?r) mod 64"
  have r: "?r < 64" by simp
  have z: "?z = (if ?r \<le> 55 then 55 - ?r else 119 - ?r)"
  proof (cases "?r \<le> 55")
    case True
    then have "119 - ?r = 55 - ?r + 64" by linarith
    then have "?z = (55 - ?r + 64) mod 64" by (rule arg_cong)
    also have "\<dots> = 55 - ?r" by simp
    finally show ?thesis using True by simp
  next
    case False
    with r have "119 - ?r < 64" by linarith
    with False show ?thesis by simp
  qed
  have "?r + (9 + ?z) = (if ?r \<le> 55 then 64 else 128)"
    unfolding z using r by (cases "?r \<le> 55") simp_all
  then have "(?r + (9 + ?z)) mod 64 = 0" by (simp split: if_splits)
  then have "(length msg + (9 + ?z)) mod 64 = 0" by (simp only: mod_add_left_eq)
  then show ?thesis by (simp add: md5_pad_def add.commute add.left_commute)
qed

lemma length_hex_encode [simp]: "length (hex_encode bs) = 2 * length bs"
  by (induction bs) (simp_all add: hex_encode_def hex2_def)

lemma slice_get_eq_Some [simp]: "slice_get xs i = Some v \<longleftrightarrow> i < length xs \<and> xs ! i = v"
  by (auto simp: slice_get_def)

lemma slice_set_eq_Some [simp]: "slice_set xs i v = Some ys \<longleftrightarrow> i < length xs \<and> ys = xs[i := v]"
  by (auto simp: slice_set_def)

lemma hex_digit_inj: "a < 16 \<Longrightarrow> b < 16 \<Longrightarrow> hex_digit a = hex_digit b \<longleftrightarrow> a = b"
proof -
  have "distinct ''0123456789abcdef''" by simp
  then show "a < 16 \<Longrightarrow> b < 16 \<Longrightarrow> hex_digit a = hex_digit b \<longleftrightarrow> a = b"
    unfolding hex_digit_def by (subst nth_eq_iff_index_eq) simp_all
qed

lemma hex2_inj: "a < 256 \<Longrightarrow> b < 256 \<Longrightarrow> hex2 a = hex2 b \<longleftrightarrow> a = b"
proof -
  assume "a < 256" "b < 256"
  then have "a div 16 < 16" "b div 16 < 16" "a mod 16 < 16" "b mod 16 < 16" by simp_all
  moreover have "a = b \<longleftrightarrow> a div 16 = b div 16 \<and> a mod 16 = b mod 16"
    by (metis div_mult_mod_eq)
  ultimately show ?thesis by (simp add: hex2_def hex_digit_inj)
qed

section \<open>Decimal numbers\<close>

text \<open>\<^verbatim>\<open>strconv.FormatInt(i, 10)\<close> (also \<^verbatim>\<open>%d\<close> and \<^verbatim>\<open>%v\<close>) and \<^verbatim>\<open>strconv.ParseInt(s, 10, 64)\<close>, which
  refuses an empty number, other characters and values that do not fit; \<open>None\<close> is its
  error.\<close>

definition dec_digit :: "nat \<Rightarrow> char" where
  "dec_digit d = ''0123456789'' ! d"

definition dec_val :: "char \<Rightarrow> nat" where
  "dec_val c = of_char c - 48"

definition is_dec :: "char \<Rightarrow> bool" where
  "is_dec c \<longleftrightarrow> 48 \<le> (of_char c :: nat) \<and> (of_char c :: nat) \<le> 57"

definition format_nat :: "nat \<Rightarrow> string" where
  "format_nat n = (if n = 0 then ''0'' else map dec_digit (rev (le_digits 10 n)))"

definition format_int :: "int \<Rightarrow> string" where
  "format_int i = (if i < 0 then CHR ''-'' # format_nat (nat (- i)) else format_nat (nat i))"

definition parse_nat :: "string \<Rightarrow> nat option" where
  "parse_nat s = (if s \<noteq> [] \<and> list_all is_dec s then Some (foldl (\<lambda>a c. 10 * a + dec_val c) 0 s) else None)"

definition parse_int64 :: "string \<Rightarrow> int option" where
  "parse_int64 s =
     (let neg = (s \<noteq> [] \<and> hd s = CHR ''-''); digits = (if s \<noteq> [] \<and> hd s \<in> {CHR ''-'', CHR ''+''} then tl s else s)
      in case parse_nat digits of
           None \<Rightarrow> None
         | Some n \<Rightarrow> (if neg then (if n \<le> 2 ^ 63 then Some (- int n) else None)
                     else if n < 2 ^ 63 then Some (int n) else None))"

lemma dec_digit_simps:
  assumes "d < 10"
  shows "is_dec (dec_digit d)" and "dec_val (dec_digit d) = d" and "dec_digit d \<notin> {CHR ''-'', CHR ''+''}"
proof -
  have "d \<in> set [0..<10]" using assms by simp
  moreover have "\<forall>d\<in>set [0..<10]. is_dec (dec_digit d) \<and> dec_val (dec_digit d) = d \<and> dec_digit d \<notin> {CHR ''-'', CHR ''+''}"
    by (simp add: upt_rec is_dec_def dec_val_def dec_digit_def)
  ultimately show "is_dec (dec_digit d)" "dec_val (dec_digit d) = d" "dec_digit d \<notin> {CHR ''-'', CHR ''+''}"
    by blast+
qed

lemma format_nat_digits:
  obtains ds where "format_nat n = map dec_digit ds" "ds \<noteq> []" "\<forall>d\<in>set ds. d < 10" "le_val 10 (rev ds) = n"
proof (cases "n = 0")
  case True
  then have "format_nat n = map dec_digit [0]" by (simp add: format_nat_def dec_digit_def)
  with True that [of "[0]"] show ?thesis by simp
next
  case False
  then show ?thesis
    using that [of "rev (le_digits 10 n)"] le_digits_bound [of 10 _ n]
    by (simp add: format_nat_def le_digits_eq_Nil le_val_digits)
qed

lemma parse_format_nat: "parse_nat (format_nat n) = Some n"
proof -
  obtain ds where ds: "format_nat n = map dec_digit ds" "ds \<noteq> []" "\<forall>d\<in>set ds. d < 10" "le_val 10 (rev ds) = n"
    by (rule format_nat_digits)
  have "foldl (\<lambda>a c. 10 * a + dec_val c) a (map dec_digit ds) = foldl (\<lambda>a d. 10 * a + d) a ds" for a
    using ds(3) by (induction ds arbitrary: a) (simp_all add: dec_digit_simps)
  with ds show ?thesis by (simp add: parse_nat_def list_all_iff dec_digit_simps le_val_foldl)
qed

lemma format_nat_hd: "format_nat n \<noteq> [] \<and> hd (format_nat n) \<notin> {CHR ''-'', CHR ''+''}"
proof -
  obtain ds where "format_nat n = map dec_digit ds" "ds \<noteq> []" "\<forall>d\<in>set ds. d < 10"
    by (rule format_nat_digits)
  then show ?thesis using dec_digit_simps(3) [of "hd ds"] by (simp add: hd_map)
qed

lemma parse_format_int:
  assumes "- (2 ^ 63) \<le> i" and "i < 2 ^ 63"
  shows "parse_int64 (format_int i) = Some i"
proof (cases "i < 0")
  case True
  with assms show ?thesis
    by (simp add: parse_int64_def format_int_def parse_format_nat nat_le_iff)
next
  case False
  with assms format_nat_hd [of "nat i"] show ?thesis
    by (simp add: parse_int64_def format_int_def parse_format_nat Let_def)
qed

lemma format_int_inj:
  assumes "- (2 ^ 63) \<le> i" "i < 2 ^ 63" "- (2 ^ 63) \<le> j" "j < 2 ^ 63"
  shows "format_int i = format_int j \<longleftrightarrow> i = j"
proof
  assume "format_int i = format_int j"
  then have "Some i = Some j"
    unfolding parse_format_int [OF assms(1,2), symmetric] parse_format_int [OF assms(3,4), symmetric] by simp
  then show "i = j" by simp
qed simp

section \<open>Little-endian words\<close>

definition put_uint32 :: "32 word \<Rightarrow> byte list" where
  "put_uint32 w = map of_nat (le_fixed 256 4 (unat w))"

definition get_uint32 :: "byte list \<Rightarrow> 32 word" where
  "get_uint32 bs = of_nat (le_val 256 (map unat bs))"

lemma unat_of_le_fixed: "map unat (map of_nat (le_fixed 256 k n) :: byte list) = le_fixed 256 k n"
proof -
  have "unat (of_nat d :: byte) = d" if "d \<in> set (le_fixed 256 k n)" for d
    using le_fixed_bound [of 256 d k n] that by (simp add: unat_of_nat)
  then show ?thesis by (simp add: map_idI)
qed

lemma length_put_uint32 [simp]: "length (put_uint32 w) = 4"
  by (simp add: put_uint32_def)

lemma get_put_uint32 [simp]: "get_uint32 (put_uint32 w) = w"
proof -
  have "unat w < 2 ^ LENGTH(32)" by (rule unsigned_less)
  then have "unat w < 256 ^ 4" by simp
  then show ?thesis by (simp add: get_uint32_def put_uint32_def unat_of_le_fixed le_val_fixed del: map_map)
qed

section \<open>Splitting strings\<close>

text \<open>\<^verbatim>\<open>strings.Split\<close> at a single character.\<close>

fun split_at :: "char \<Rightarrow> string \<Rightarrow> string list" where
  "split_at c [] = [[]]"
| "split_at c (x # xs) =
     (if x = c then [] # split_at c xs
      else case split_at c xs of [] \<Rightarrow> [[x]] | w # ws \<Rightarrow> (x # w) # ws)"

lemma split_at_none: "c \<notin> set a \<Longrightarrow> split_at c a = [a]"
  by (induction a) auto

lemma split_at_once: "c \<notin> set a \<Longrightarrow> c \<notin> set b \<Longrightarrow> split_at c (a @ c # b) = [a, b]"
  by (induction a) (auto simp: split_at_none)

lemma split_at_append: "c \<notin> set a \<Longrightarrow> split_at c (a @ c # b) = a # split_at c b"
  by (induction a) auto

end
