(* ===== verification/Base62.thy ===== *)
theory Base62
  imports Go_Runtime
begin

text \<open>
  \<^verbatim>\<open>pkg/zutils/base62/base62.go\<close>, \<^verbatim>\<open>GetHashEncode\<close> of \<^verbatim>\<open>pkg/zutils/strings.go\<close>
  and the document-id check of \<^verbatim>\<open>Index.CreateDocument\<close>.
\<close>

section \<open>Model\<close>

text \<open>The digit alphabet; \<^verbatim>\<open>strings.IndexByte\<close> returns -1 for a byte that is not in it.\<close>

definition chars :: string where
  "chars = ''0123456789abcdefghijklmnopqrstuvwxyzABCDEFGHIJKLMNOPQRSTUVWXYZ''"

fun index_byte :: "string \<Rightarrow> char \<Rightarrow> int" where
  "index_byte [] c = - 1"
| "index_byte (x # xs) c = (if x = c then 0 else (let i = index_byte xs c in if i < 0 then - 1 else i + 1))"

text \<open>The in-place reversal: two cursors that move towards each other.\<close>

function reverse_loop :: "nat \<Rightarrow> int \<Rightarrow> 'a list \<Rightarrow> 'a list" where
  "reverse_loop left right a =
     (if int left < right
      then reverse_loop (left + 1) (right - 1) (a[left := a ! nat right, nat right := a ! left])
      else a)"
  by pat_completeness auto
termination
  by (relation "measure (\<lambda>(l, r, a). nat (r - int l))") auto

definition reverse :: "'a list \<Rightarrow> 'a list" where
  "reverse a = reverse_loop 0 (int (length a) - 1) a"

function encode_loop :: "int64 \<Rightarrow> string \<Rightarrow> string" where
  "encode_loop num bytes =
     (if 0 < sint num
      then encode_loop (word_of_int (sint num div 62)) (bytes @ [chars ! nat (sint num mod 62)])
      else bytes)"
  by pat_completeness auto
termination
proof (relation "measure (\<lambda>(n, _). nat (sint n))", goal_cases)
  case 1
  then show ?case by simp
next
  case (2 num bytes)
  from 2 have "sint (word_of_int (sint num div 62) :: int64) = sint num div 62"
    using sint_int64_bounds(2) [of num] by simp
  with 2 show ?case by simp
qed

declare reverse_loop.simps [simp del] encode_loop.simps [simp del]

definition Encode :: "int64 \<Rightarrow> string" where
  "Encode num = reverse (encode_loop num [])"

text \<open>
  \<^verbatim>\<open>EncodeToString\<close> divides a \<^verbatim>\<open>big.Int\<close>; \<^verbatim>\<open>SetBytes\<close> reads the bytes as a
  big-endian number. (\<^verbatim>\<open>grow\<close> is only the buffer's initial capacity.)
\<close>

definition set_bytes :: "byte list \<Rightarrow> nat" where
  "set_bytes data = foldl (\<lambda>acc x. 256 * acc + unat x) 0 data"

fun encode_big_loop :: "nat \<Rightarrow> string \<Rightarrow> string" where
  "encode_big_loop num buf =
     (if 0 < num then encode_big_loop (num div 62) (buf @ [chars ! (num mod 62)]) else buf)"

declare encode_big_loop.simps [simp del]

definition EncodeToString :: "byte list \<Rightarrow> string" where
  "EncodeToString data =
     (if length data = 0 then ''''
      else let num = set_bytes data in
        if num = 0 then [chars ! 0] else reverse (encode_big_loop num []))"

definition GetHashEncode :: "string \<Rightarrow> string" where
  "GetHashEncode str = EncodeToString (md5_sum (bytes_of str))"

text \<open>
  \<^verbatim>\<open>math.Pow(62, k)\<close> squares repeatedly and rounds every product to the 53 bits
  of a float64, ties to even. The scaling by powers of two that \<^verbatim>\<open>Frexp\<close> does is
  exact, so the products are natural numbers. Converting a float64 that does not
  fit to int64 is implementation-defined: that value is the parameter \<open>ovf\<close>.
\<close>

fun nbits :: "nat \<Rightarrow> nat" where
  "nbits n = (if n = 0 then 0 else Suc (nbits (n div 2)))"

declare nbits.simps [simp del]

definition float_round :: "nat \<Rightarrow> nat" where
  "float_round n =
     (if n < 2 ^ 53 then n
      else let s = nbits n - 53; q = n div 2 ^ s; r = n mod 2 ^ s; h = 2 ^ (s - 1)
           in (if h < r \<or> r = h \<and> odd q then q + 1 else q) * 2 ^ s)"

fun pow_loop :: "nat \<Rightarrow> nat \<Rightarrow> nat \<Rightarrow> nat" where
  "pow_loop i a1 x1 =
     (if i = 0 then a1
      else pow_loop (i div 2) (if odd i then float_round (a1 * x1) else a1) (float_round (x1 * x1)))"

declare pow_loop.simps [simp del]

definition float_to_int64 :: "(nat \<Rightarrow> int64) \<Rightarrow> nat \<Rightarrow> int64" where
  "float_to_int64 ovf v = (if v < 2 ^ 63 then of_nat v else ovf v)"

fun decode_loop :: "(nat \<Rightarrow> int64) \<Rightarrow> string \<Rightarrow> int64 \<Rightarrow> int64" where
  "decode_loop ovf [] num = num"
| "decode_loop ovf (c # cs) num =
     decode_loop ovf cs
       (num + float_to_int64 ovf (pow_loop (length cs) 1 62) * word_of_int (index_byte chars c))"

definition Decode :: "(nat \<Rightarrow> int64) \<Rightarrow> string \<Rightarrow> int64" where
  "Decode ovf str = decode_loop ovf str 0"

text \<open>The test that \<^verbatim>\<open>CreateDocument\<close> makes before it accepts a document id.\<close>

definition valid_doc_id :: "(nat \<Rightarrow> int64) \<Rightarrow> string \<Rightarrow> bool" where
  "valid_doc_id ovf docID \<longleftrightarrow> Encode (Decode ovf docID) = docID"

section \<open>The loops in closed form\<close>

lemma reverse_loop_middle:
  "reverse_loop (length xs) (int (length (xs @ mid)) - 1) (xs @ mid @ ys) = xs @ rev mid @ ys"
proof (induction "length mid" arbitrary: xs mid ys rule: less_induct)
  case less
  consider "length mid < 2" | x m y where "mid = x # m @ [y]"
  proof (cases mid)
    case (Cons x m)
    with that show ?thesis by (cases m rule: rev_cases) auto
  qed (use that in simp)
  then show ?case
  proof cases
    case 1
    then have "rev mid = mid" by (cases mid rule: list.exhaust; cases "tl mid") auto
    with 1 show ?thesis by (subst reverse_loop.simps) auto
  next
    case 2
    have "(xs @ mid @ ys)[length xs := (xs @ mid @ ys) ! (length (xs @ mid) - 1),
        length (xs @ mid) - 1 := (xs @ mid @ ys) ! length xs] = (xs @ [y]) @ m @ (x # ys)"
      using 2 by (simp add: list_update_append nth_append)
    moreover have "reverse_loop (length (xs @ [y])) (int (length ((xs @ [y]) @ m)) - 1)
        ((xs @ [y]) @ m @ (x # ys)) = (xs @ [y]) @ rev m @ (x # ys)"
      by (rule less) (simp add: 2)
    ultimately show ?thesis
      using 2 by (subst reverse_loop.simps) (simp add: nat_add_distrib)
  qed
qed

lemma reverse_rev: "reverse a = rev a"
  using reverse_loop_middle [of "[]" a "[]"] by (simp add: reverse_def)

lemma encode_loop_digits:
  "encode_loop num bytes = bytes @ map (nth chars) (le_digits 62 (nat (sint num)))"
proof (induction num bytes rule: encode_loop.induct)
  case (1 num bytes)
  show ?case
  proof (cases "0 < sint num")
    case True
    then have "sint (word_of_int (sint num div 62) :: int64) = sint num div 62"
      using sint_int64_bounds(2) [of num] by simp
    with 1 True show ?thesis
      by (subst encode_loop.simps) (simp add: le_digits_step nat_div_distrib nat_mod_distrib)
  qed (simp add: encode_loop.simps)
qed

lemma Encode_digits: "Encode num = map (nth chars) (rev (le_digits 62 (nat (sint num))))"
  by (simp add: Encode_def reverse_rev encode_loop_digits rev_map)

lemma encode_big_loop_digits:
  "encode_big_loop num buf = buf @ map (nth chars) (le_digits 62 num)"
proof (induction num buf rule: encode_big_loop.induct)
  case (1 num buf)
  then show ?case
    by (cases "num = 0") (simp_all add: encode_big_loop.simps [of num buf] encode_big_loop.simps [of 0 buf] le_digits_step)
qed

lemma EncodeToString_digits:
  "data \<noteq> [] \<Longrightarrow> EncodeToString data =
     (if set_bytes data = 0 then [chars ! 0] else map (nth chars) (rev (le_digits 62 (set_bytes data))))"
  by (simp add: EncodeToString_def Let_def reverse_rev encode_big_loop_digits rev_map)

text \<open>The alphabet has 62 different characters, and the products of \<^verbatim>\<open>Pow\<close> are exact
  up to the tenth power, which 53 bits still hold.\<close>

lemma length_chars [simp]: "length chars = 62"
  by (simp add: chars_def)

lemma distinct_chars: "distinct chars"
  by (simp add: chars_def)

lemma index_byte_nth: "distinct xs \<Longrightarrow> i < length xs \<Longrightarrow> index_byte xs (xs ! i) = int i"
proof (induction xs arbitrary: i)
  case (Cons x xs)
  then show ?case by (cases i) (auto simp: Let_def)
qed simp

lemma index_byte_chars [simp]: "d < 62 \<Longrightarrow> index_byte chars (chars ! d) = int d"
  by (simp add: index_byte_nth distinct_chars)

lemma pow_loop_step:
  "pow_loop 0 a1 x1 = a1"
  "0 < i \<Longrightarrow> pow_loop i a1 x1 =
     pow_loop (i div 2) (if odd i then float_round (a1 * x1) else a1) (float_round (x1 * x1))"
  by (simp_all add: pow_loop.simps [of i] pow_loop.simps [of 0])

lemma pow_loop_exact: "k \<le> 10 \<Longrightarrow> pow_loop k 1 62 = 62 ^ k"
proof -
  assume "k \<le> 10"
  then have "k \<in> set [0..<11]" by simp
  moreover have "\<forall>k\<in>set [0..<11]. pow_loop k 1 62 = 62 ^ k"
    by (simp add: upt_rec pow_loop_step float_round_def nbits.simps)
  ultimately show ?thesis by blast
qed

lemma pow62_int64: "k \<le> 10 \<Longrightarrow> float_to_int64 ovf (pow_loop k 1 62) = of_nat (62 ^ k)"
proof -
  assume k: "k \<le> 10"
  have "(62::nat) ^ k \<le> 62 ^ 10" using k by (rule power_increasing) simp
  then have "(62::nat) ^ k < 2 ^ 63" by simp
  then show ?thesis unfolding float_to_int64_def pow_loop_exact [OF k] by simp
qed

section \<open>Canonical strings\<close>

text \<open>The specification: the strings over the alphabet with no leading zero, and the
  number each one denotes.\<close>

definition canonical :: "string \<Rightarrow> bool" where
  "canonical s \<longleftrightarrow> set s \<subseteq> set chars \<and> (s = [] \<or> hd s \<noteq> CHR ''0'')"

definition digit :: "char \<Rightarrow> nat" where
  "digit c = nat (index_byte chars c)"

definition base62_val :: "string \<Rightarrow> nat" where
  "base62_val s = le_val 62 (rev (map digit s))"

lemma digit_nth [simp]: "d < 62 \<Longrightarrow> digit (chars ! d) = d"
  by (simp add: digit_def)

lemma nth_digit: "c \<in> set chars \<Longrightarrow> digit c < 62 \<and> chars ! digit c = c"
  by (metis in_set_conv_nth length_chars digit_nth)

lemma index_byte_digit: "c \<in> set chars \<Longrightarrow> index_byte chars c = int (digit c)"
  by (metis in_set_conv_nth length_chars digit_nth index_byte_chars)

lemma digit_0_iff: "c \<in> set chars \<Longrightarrow> digit c = 0 \<longleftrightarrow> c = CHR ''0''"
proof -
  assume c: "c \<in> set chars"
  have z: "chars ! 0 = CHR ''0''" by (simp add: chars_def)
  from c nth_digit show ?thesis by (metis z digit_nth zero_less_numeral)
qed

text \<open>The strings of digit lists are the canonical ones.\<close>

lemma map_digit_nth: "\<forall>d\<in>set ds. d < 62 \<Longrightarrow> map digit (map (nth chars) ds) = ds"
  by (induction ds) auto

lemma canonical_of_digits: "canonical (map (nth chars) (rev (le_digits 62 n)))"
proof (cases "n = 0")
  case False
  have bound: "d < 62" if "d \<in> set (le_digits 62 n)" for d
    using le_digits_bound [of 62 d n] that by simp
  have ne: "le_digits 62 n \<noteq> []" using False by (simp add: le_digits_eq_Nil)
  let ?l = "last (le_digits 62 n)"
  have l: "?l < 62" "?l \<noteq> 0"
    using bound ne False le_digits_last [of 62 n] by auto
  then have "chars ! ?l \<noteq> CHR ''0''"
    using digit_0_iff [of "chars ! ?l"] by simp
  with bound ne show ?thesis
    by (auto simp: canonical_def hd_map hd_rev)
qed (simp add: canonical_def)

lemma val_of_digits: "base62_val (map (nth chars) (rev (le_digits 62 n))) = n"
proof -
  have "map digit (map (nth chars) (le_digits 62 n)) = le_digits 62 n"
    by (rule map_digit_nth) (use le_digits_bound [of 62 _ n] in auto)
  then show ?thesis
    by (simp add: base62_val_def le_val_digits rev_map del: map_map)
qed

lemma digits_of_canonical:
  assumes "canonical s"
  shows "map (nth chars) (rev (le_digits 62 (base62_val s))) = s"
proof -
  have sub: "set s \<subseteq> set chars" using assms by (simp add: canonical_def)
  have "rev (map digit s) = [] \<or> last (rev (map digit s)) \<noteq> 0"
  proof (cases "s = []")
    case False
    then have "hd s \<in> set chars" using sub hd_in_set [of s] by blast
    with assms False digit_0_iff [of "hd s"] show ?thesis
      by (simp add: canonical_def last_rev hd_map)
  qed simp
  then have "le_digits 62 (base62_val s) = rev (map digit s)"
    unfolding base62_val_def using sub nth_digit by (intro le_digits_val) auto
  moreover have "map (nth chars) (map digit s) = s"
    using sub nth_digit by (induction s) auto
  ultimately show ?thesis by simp
qed

lemma canonical_short: "canonical s \<Longrightarrow> base62_val s < 2 ^ 63 \<Longrightarrow> length s \<le> 11"
proof -
  assume s: "canonical s" "base62_val s < 2 ^ 63"
  have "length s = length (le_digits 62 (base62_val s))"
    using digits_of_canonical [OF s(1)] by (metis length_map length_rev)
  moreover have "base62_val s < 62 ^ 11" using s(2) by simp
  ultimately show ?thesis using le_digits_length [of 62 "base62_val s" 11] by simp
qed

section \<open>Correctness of the codec\<close>

lemma decode_loop_val:
  "length s \<le> 11 \<Longrightarrow> set s \<subseteq> set chars \<Longrightarrow> decode_loop ovf s num = num + of_nat (base62_val s)"
proof (induction s arbitrary: num)
  case (Cons c cs)
  have "base62_val (c # cs) = base62_val cs + 62 ^ length cs * digit c"
    by (simp add: base62_val_def le_val_append)
  moreover have "float_to_int64 ovf (pow_loop (length cs) 1 62) = of_nat (62 ^ length cs)"
    using Cons.prems by (intro pow62_int64) simp
  ultimately show ?case
    using Cons by (simp add: index_byte_digit)
qed (simp add: base62_val_def)

lemma Decode_val: "canonical s \<Longrightarrow> base62_val s < 2 ^ 63 \<Longrightarrow> Decode ovf s = of_nat (base62_val s)"
  using canonical_short [of s] by (simp add: Decode_def decode_loop_val canonical_def)

lemma Encode_val: "n < 2 ^ 63 \<Longrightarrow> Encode (of_nat n) = map (nth chars) (rev (le_digits 62 n))"
  by (simp add: Encode_digits sint_of_nat_int64)

lemma base62_val_Encode:
  "canonical (Encode w)" "base62_val (Encode w) = nat (sint w)" "base62_val (Encode w) < 2 ^ 63"
  using sint_int64_bounds(2) [of w]
  by (simp_all add: Encode_digits canonical_of_digits val_of_digits)

text \<open>C31: decoding an encoded positive id gives the id back, whatever the machine does
  with a float64 that overflows.\<close>

theorem Decode_Encode: "0 < sint n \<Longrightarrow> Decode ovf (Encode n) = n"
proof -
  assume "0 < sint n"
  then have "of_nat (nat (sint n)) = n"
    by (simp add: of_nat_nat)
  with base62_val_Encode [of n] Decode_val [of "Encode n" ovf] show ?thesis
    by simp
qed

theorem Decode_Encode_witness:
  "0 < sint (9223372036854775807 :: int64) \<and>
   Decode (\<lambda>_. 0) (Encode 9223372036854775807) = 9223372036854775807"
  using Decode_Encode [of 9223372036854775807 "\<lambda>_. 0"] by simp

text \<open>C13: the check of \<^verbatim>\<open>CreateDocument\<close> accepts exactly the canonical base62 numerals of
  the numbers below \<open>2 ^ 63\<close>: strings over the alphabet with no leading zero whose
  value fits an int64. The empty string is one of them, and \<open>''0''\<close> is not.\<close>

theorem valid_doc_id_iff:
  "valid_doc_id ovf s = (canonical s \<and> base62_val s < 2 ^ 63)"
proof
  assume "valid_doc_id ovf s"
  then have "Encode (Decode ovf s) = s" by (simp add: valid_doc_id_def)
  with base62_val_Encode [of "Decode ovf s"] show "canonical s \<and> base62_val s < 2 ^ 63"
    by simp
next
  assume "canonical s \<and> base62_val s < 2 ^ 63"
  then show "valid_doc_id ovf s"
    by (simp add: valid_doc_id_def Decode_val Encode_val digits_of_canonical)
qed

section \<open>Hashed index names\<close>

lemma set_bytes_snoc: "set_bytes (xs @ [x]) = 256 * set_bytes xs + unat x"
  by (simp add: set_bytes_def)

lemma set_bytes_less: "set_bytes xs < 256 ^ length xs"
proof (induction xs rule: rev_induct)
  case (snoc x xs)
  with unat_byte_less [of x] have "set_bytes (xs @ [x]) < 256 * (set_bytes xs + 1)" and "set_bytes xs + 1 \<le> 256 ^ length xs"
    by (simp_all add: set_bytes_snoc)
  then show ?case by simp
qed (simp add: set_bytes_def)

lemma set_bytes_inj: "length xs = length ys \<Longrightarrow> set_bytes xs = set_bytes ys \<Longrightarrow> xs = ys"
proof (induction xs arbitrary: ys rule: rev_induct)
  case (snoc x xs)
  then obtain zs y where ys: "ys = zs @ [y]"
    by (metis length_0_conv length_append_singleton nat.distinct(1) rev_exhaust)
  have eq: "256 * set_bytes xs + unat x = 256 * set_bytes zs + unat y"
    using snoc.prems ys by (simp add: set_bytes_snoc)
  then have "set_bytes xs = set_bytes zs"
    using unat_byte_less [of x] unat_byte_less [of y] by linarith
  moreover from this eq have "unat x = unat y" by simp
  ultimately show ?case using snoc ys by (simp add: word_unat_eq_iff)
qed simp

lemma base62_val_EncodeToString: "base62_val (EncodeToString data) = set_bytes data"
proof (cases "data = [] \<or> set_bytes data = 0")
  case True
  moreover have "base62_val [chars ! 0] = 0" by (simp add: base62_val_def)
  moreover have "base62_val [] = 0" "set_bytes [] = 0" by (simp_all add: base62_val_def set_bytes_def)
  moreover have "EncodeToString [] = []" by (simp add: EncodeToString_def)
  ultimately show ?thesis using EncodeToString_digits [of data] by (cases "data = []") simp_all
qed (simp add: EncodeToString_digits val_of_digits)

lemma length_EncodeToString:
  assumes "data \<noteq> []" and "256 ^ length data \<le> (62 :: nat) ^ k" and "0 < k"
  shows "1 \<le> length (EncodeToString data) \<and> length (EncodeToString data) \<le> k"
proof -
  have "set_bytes data < 62 ^ k" using set_bytes_less [of data] assms(2) by linarith
  then have "length (le_digits 62 (set_bytes data)) \<le> k" by (simp add: le_digits_length)
  moreover have "1 \<le> length (le_digits 62 (set_bytes data))" if "set_bytes data \<noteq> 0"
    using that by (simp add: Suc_le_eq le_digits_eq_Nil)
  ultimately show ?thesis using assms(1,3) by (simp add: EncodeToString_digits)
qed

text \<open>C32: the storage name of an index, the base62 form of the md5 sum of its name, is a
  string of 1 to 22 characters of the alphabet, and two indexes share a storage name
  exactly when their md5 sums are equal.\<close>

theorem GetHashEncode_names:
  "set (GetHashEncode s) \<subseteq> set chars
     \<and> 1 \<le> length (GetHashEncode s) \<and> length (GetHashEncode s) \<le> 22
     \<and> (GetHashEncode s = GetHashEncode t \<longleftrightarrow> md5_sum (bytes_of s) = md5_sum (bytes_of t))"
proof (intro conjI)
  let ?s = "md5_sum (bytes_of s)" and ?t = "md5_sum (bytes_of t)"
  have len: "length ?s = 16" "length ?t = 16" by simp_all
  then have ne: "?s \<noteq> []" by (metis list.size(3) zero_neq_numeral)
  have "chars ! d \<in> set chars" if "d \<in> set (le_digits 62 n)" for d n
    using le_digits_bound [of 62 d n] that by simp
  then show "set (GetHashEncode s) \<subseteq> set chars"
    by (auto simp: GetHashEncode_def EncodeToString_digits [OF ne])
  show "1 \<le> length (GetHashEncode s)" "length (GetHashEncode s) \<le> 22"
    using length_EncodeToString [OF ne, of 22] len by (simp_all add: GetHashEncode_def)
  have "?s = ?t" if "EncodeToString ?s = EncodeToString ?t"
    using that base62_val_EncodeToString [of ?s] base62_val_EncodeToString [of ?t]
    by (intro set_bytes_inj) simp_all
  then show "GetHashEncode s = GetHashEncode t \<longleftrightarrow> ?s = ?t"
    by (auto simp: GetHashEncode_def)
qed

end
