(* ===== verification/Rendezvous.thy ===== *)
theory Rendezvous
  imports Go_Runtime
begin

text \<open>
  \<^verbatim>\<open>pkg/zutils/hash/rendezvous/rendezvous.go\<close> and \<^verbatim>\<open>pkg/zutils/hash/fnv64/fnv64.go\<close>:
  rendezvous hashing. A key goes to the node with the highest score, the mix of the
  key's hash and the node's hash.
\<close>

section \<open>Model\<close>

unbundle bit_operations_syntax

text \<open>FNV-1a.\<close>

definition offset64 :: uint64 where
  "offset64 = 14695981039346656037"

definition prime64 :: uint64 where
  "prime64 = 1099511628211"

definition Sum64 :: "string \<Rightarrow> uint64" where
  "Sum64 key = foldl (\<lambda>hash c. (hash XOR of_char c) * prime64) offset64 key"

definition xorshiftMult64 :: "uint64 \<Rightarrow> uint64" where
  "xorshiftMult64 x0 =
     (let x1 = x0 XOR drop_bit 12 x0;
          x2 = x1 XOR push_bit 25 x1;
          x3 = x2 XOR drop_bit 27 x2
      in x3 * 0x2545F4914F6CDD1D)"

record rendezvous =
  nodes :: "string \<rightharpoonup> nat"
  nstr :: "string list"
  nhash :: "uint64 list"
  hasher :: "string \<Rightarrow> uint64"

record scoreNode =
  name :: string
  score :: uint64

definition NewWithHash :: "(string \<Rightarrow> uint64) \<Rightarrow> rendezvous" where
  "NewWithHash h = \<lparr>nodes = Map.empty, nstr = [], nhash = [], hasher = h\<rparr>"

definition New :: rendezvous where
  "New = NewWithHash Sum64"

definition Hash :: "rendezvous \<Rightarrow> string \<Rightarrow> uint64" where
  "Hash r k = hasher r k"

text \<open>The scan for the highest score: \<open>i\<close> is the index of the next hash.\<close>

fun lookup_loop :: "uint64 \<Rightarrow> nat \<Rightarrow> uint64 list \<Rightarrow> nat \<Rightarrow> uint64 \<Rightarrow> nat" where
  "lookup_loop khash i [] midx mhash = midx"
| "lookup_loop khash i (nh # rest) midx mhash =
     (let h = xorshiftMult64 (khash XOR nh) in
      if mhash < h then lookup_loop khash (i + 1) rest i h
      else lookup_loop khash (i + 1) rest midx mhash)"

text \<open>Without nodes the final access is out of range and panics.\<close>

definition Lookup :: "rendezvous \<Rightarrow> string \<Rightarrow> string option" where
  "Lookup r k = slice_get (nstr r) (lookup_loop (Hash r k) 0 (nhash r) 0 0)"

text \<open>
  \<^verbatim>\<open>sort.Slice\<close> is not stable: the argument \<open>srt\<close> stands for the order it leaves
  equal scores in, and sorts by descending score. A negative \<open>n\<close> panics in
  \<^verbatim>\<open>make\<close>.
\<close>

definition scored :: "rendezvous \<Rightarrow> string \<Rightarrow> scoreNode list" where
  "scored r k = map (\<lambda>(s, nh). \<lparr>name = s, score = xorshiftMult64 (Hash r k XOR nh)\<rparr>) (zip (nstr r) (nhash r))"

definition sorts_by_score :: "(scoreNode list \<Rightarrow> scoreNode list) \<Rightarrow> bool" where
  "sorts_by_score srt \<longleftrightarrow> (\<forall>xs. mset (srt xs) = mset xs \<and> sorted_wrt (\<lambda>a b. score b \<le> score a) (srt xs))"

definition LookupTopN :: "(scoreNode list \<Rightarrow> scoreNode list) \<Rightarrow> rendezvous \<Rightarrow> string \<Rightarrow> int \<Rightarrow> string list option" where
  "LookupTopN srt r k n =
     (if n < 0 then None
      else Some (map name (take (min (nat n) (length (nstr r))) (srt (scored r k)))))"

definition Contains :: "rendezvous \<Rightarrow> string \<Rightarrow> bool" where
  "Contains r node \<longleftrightarrow> nodes r node \<noteq> None"

definition Add :: "rendezvous \<Rightarrow> string \<Rightarrow> rendezvous" where
  "Add r node =
     (if Contains r node then r
      else r\<lparr>nodes := (nodes r)(node \<mapsto> length (nstr r)),
             nstr := nstr r @ [node],
             nhash := nhash r @ [Hash r node]\<rparr>)"

text \<open>The index of a missing node reads as the zero value; every access is checked.\<close>

definition Remove :: "rendezvous \<Rightarrow> string \<Rightarrow> rendezvous option" where
  "Remove r node = do {
     let nidx = (case nodes r node of None \<Rightarrow> 0 | Some i \<Rightarrow> i);
     let l = length (nstr r);
     s \<leftarrow> slice_get (nstr r) l;
     ns \<leftarrow> slice_set (nstr r) nidx s;
     let ns = take l ns;
     h \<leftarrow> slice_get (nhash r) l;
     hs \<leftarrow> slice_set (nhash r) nidx h;
     let hs = take l hs;
     let m = (nodes r)(node := None);
     moved \<leftarrow> slice_get ns nidx;
     Some (r\<lparr>nodes := m(moved \<mapsto> nidx), nstr := ns, nhash := hs\<rparr>)
   }"

definition List :: "rendezvous \<Rightarrow> string list" where
  "List r = nstr r"

definition Len :: "rendezvous \<Rightarrow> nat" where
  "Len r = length (nstr r)"

section \<open>The mix function is a bijection\<close>

lemma xor_drop_inj:
  fixes x y :: "'a::len word"
  assumes "0 < n" and eq: "x XOR drop_bit n x = y XOR drop_bit n y"
  shows "x = y"
proof (rule bit_word_eqI)
  fix i assume "i < LENGTH('a)"
  have "bit x j = bit y j" for j
  proof (induction "LENGTH('a) - j" arbitrary: j rule: less_induct)
    case less
    show ?case
    proof (cases "j < LENGTH('a)")
      case True
      with assms(1) less have "bit x (n + j) = bit y (n + j)" by simp
      moreover have "bit (x XOR drop_bit n x) j = bit (y XOR drop_bit n y) j" by (simp add: eq)
      ultimately show ?thesis by (auto simp: bit_xor_iff bit_drop_bit_eq)
    qed (auto dest: bit_imp_le_length)
  qed
  then show "bit x i = bit y i" .
qed

lemma xor_push_inj:
  fixes x y :: "'a::len word"
  assumes "0 < n" and eq: "x XOR push_bit n x = y XOR push_bit n y"
  shows "x = y"
proof (rule bit_word_eqI)
  fix i assume "i < LENGTH('a)"
  then show "bit x i = bit y i"
  proof (induction i rule: less_induct)
    case (less j)
    have "bit (x XOR push_bit n x) j = bit (y XOR push_bit n y) j" by (simp add: eq)
    moreover have "n \<le> j \<Longrightarrow> bit x (j - n) = bit y (j - n)"
      using less assms(1) by simp
    ultimately show ?case using less.prems by (auto simp: bit_xor_iff bit_push_bit_iff)
  qed
qed

lemma mult_xorshift_inj: "x * 0x2545F4914F6CDD1D = y * 0x2545F4914F6CDD1D \<Longrightarrow> x = (y :: uint64)"
proof -
  assume eq: "x * 0x2545F4914F6CDD1D = y * 0x2545F4914F6CDD1D"
  have "0x2545F4914F6CDD1D * 6415128727920758069 = (1 :: uint64)" by simp
  then have inv: "z * 0x2545F4914F6CDD1D * 6415128727920758069 = z" for z :: uint64
    by (simp only: mult.assoc mult_1_right)
  from inv [of x] inv [of y] eq show ?thesis by metis
qed

lemma inj_xorshiftMult64: "xorshiftMult64 x = xorshiftMult64 y \<longleftrightarrow> x = y"
proof
  let ?f = "\<lambda>x :: uint64. x XOR drop_bit 12 x"
  let ?g = "\<lambda>x :: uint64. x XOR push_bit 25 x"
  let ?h = "\<lambda>x :: uint64. x XOR drop_bit 27 x"
  assume "xorshiftMult64 x = xorshiftMult64 y"
  then have "?h (?g (?f x)) = ?h (?g (?f y))"
    unfolding xorshiftMult64_def Let_def by (rule mult_xorshift_inj)
  then have "?g (?f x) = ?g (?f y)" by (rule xor_drop_inj [rotated]) simp
  then have "?f x = ?f y" by (rule xor_push_inj [rotated]) simp
  then show "x = y" by (rule xor_drop_inj [rotated]) simp
qed simp

section \<open>The scan finds the first highest score\<close>

definition scores :: "rendezvous \<Rightarrow> string \<Rightarrow> uint64 list" where
  "scores r k = map (\<lambda>nh. xorshiftMult64 (Hash r k XOR nh)) (nhash r)"

definition first_max :: "'a::linorder list \<Rightarrow> nat \<Rightarrow> bool" where
  "first_max xs m \<longleftrightarrow> m < length xs \<and> (\<forall>j<length xs. xs ! j \<le> xs ! m) \<and> (\<forall>j<m. xs ! j < xs ! m)"

lemma first_max_unique: "first_max xs m \<Longrightarrow> first_max xs m' \<Longrightarrow> m = m'"
  unfolding first_max_def by (meson leD linorder_neqE_nat)

text \<open>The state of the scan after a prefix \<open>ys\<close>: its first maximum, or index 0 and
  score 0 while every score seen is zero.\<close>

definition scan_state :: "uint64 list \<Rightarrow> nat \<Rightarrow> uint64 \<Rightarrow> bool" where
  "scan_state ys midx mhash \<longleftrightarrow>
     (if \<forall>y\<in>set ys. y = 0 then midx = 0 \<and> mhash = 0 else first_max ys midx \<and> ys ! midx = mhash)"

lemma scan_stateI:
  "first_max ys m \<Longrightarrow> ys ! m = h \<Longrightarrow> \<not> (\<forall>y\<in>set ys. y = 0) \<Longrightarrow> scan_state ys m h"
  by (simp only: scan_state_def if_False simp_thms)

lemma scan_state_snoc:
  assumes "scan_state ys midx mhash"
  shows "if mhash < y then scan_state (ys @ [y]) (length ys) y else scan_state (ys @ [y]) midx mhash"
proof (cases "\<forall>y\<in>set ys. y = 0")
  case True
  then have z: "j < length ys \<Longrightarrow> ys ! j = 0" for j by simp
  with True assms show ?thesis
    by (auto simp: scan_state_def first_max_def nth_append less_Suc_eq word_gt_0 z)
next
  case False
  with assms have fm: "first_max ys midx" "ys ! midx = mhash" by (simp_all add: scan_state_def)
  then have le: "j < length ys \<Longrightarrow> ys ! j \<le> mhash" for j by (simp add: first_max_def)
  have nz: "\<not> (\<forall>z\<in>set (ys @ [y]). z = 0)" using False by auto
  show ?thesis
  proof (cases "mhash < y")
    case True
    then have "ys ! j < y" if "j < length ys" for j using le [OF that] by simp
    then have "first_max (ys @ [y]) (length ys)"
      by (auto simp: first_max_def nth_append less_Suc_eq intro: less_imp_le)
    then have "scan_state (ys @ [y]) (length ys) y" by (rule scan_stateI [OF _ _ nz]) simp
    with True show ?thesis by simp
  next
    case mhash: False
    with fm have "first_max (ys @ [y]) midx"
      by (auto simp: first_max_def nth_append less_Suc_eq)
    moreover have "(ys @ [y]) ! midx = mhash" using fm by (auto simp: first_max_def nth_append)
    ultimately have "scan_state (ys @ [y]) midx mhash" by (rule scan_stateI [OF _ _ nz])
    with mhash show ?thesis by simp
  qed
qed

lemma lookup_loop_state:
  assumes "scan_state (map (\<lambda>nh. xorshiftMult64 (khash XOR nh)) ys) midx mhash"
  shows "\<exists>mh. scan_state (map (\<lambda>nh. xorshiftMult64 (khash XOR nh)) (ys @ hs))
                (lookup_loop khash (length ys) hs midx mhash) mh"
  using assms
proof (induction hs arbitrary: ys midx mhash)
  case (Cons nh rest)
  from scan_state_snoc [OF Cons.prems, of "xorshiftMult64 (khash XOR nh)"]
  show ?case
    using Cons.IH [of "ys @ [nh]"] by (auto simp: Let_def split: if_splits)
qed auto

lemma lookup_loop_first_max:
  assumes "hs \<noteq> []"
  shows "first_max (map (\<lambda>nh. xorshiftMult64 (khash XOR nh)) hs) (lookup_loop khash 0 hs 0 0)"
proof -
  obtain mh where "scan_state (map (\<lambda>nh. xorshiftMult64 (khash XOR nh)) hs) (lookup_loop khash 0 hs 0 0) mh"
    using lookup_loop_state [of khash "[]" 0 0 hs] by (auto simp: scan_state_def)
  with assms show ?thesis
    by (auto simp: scan_state_def first_max_def split: if_splits)
qed

section \<open>The invariant of the node table\<close>

definition rv_ok :: "rendezvous \<Rightarrow> bool" where
  "rv_ok r \<longleftrightarrow> distinct (nstr r) \<and> nhash r = map (hasher r) (nstr r)
     \<and> (\<forall>n i. nodes r n = Some i \<longleftrightarrow> i < length (nstr r) \<and> nstr r ! i = n)"

lemma Contains_iff: "rv_ok r \<Longrightarrow> Contains r n \<longleftrightarrow> n \<in> set (nstr r)"
  by (auto simp: rv_ok_def Contains_def in_set_conv_nth)

lemma rv_ok_New: "rv_ok (NewWithHash h)"
  by (simp add: rv_ok_def NewWithHash_def)

lemma rv_ok_Add: "rv_ok r \<Longrightarrow> rv_ok (Add r n)"
proof (cases "Contains r n")
  case False
  assume r: "rv_ok r"
  with False have "n \<notin> set (nstr r)" by (simp add: Contains_iff)
  with r False show ?thesis
    by (auto simp: rv_ok_def Add_def Hash_def nth_append less_Suc_eq)
qed (simp add: Add_def)

lemma set_nstr_Add: "rv_ok r \<Longrightarrow> set (nstr (Add r n)) = insert n (set (nstr r))"
  by (auto simp: Add_def Contains_iff)

lemma hasher_Add [simp]: "hasher (Add r n) = hasher r"
  by (simp add: Add_def)

lemma length_scores [simp]: "rv_ok r \<Longrightarrow> length (scores r k) = length (nstr r)"
  by (simp add: rv_ok_def scores_def)

lemma scores_nth: "rv_ok r \<Longrightarrow> i < length (nstr r) \<Longrightarrow>
    scores r k ! i = xorshiftMult64 (hasher r k XOR hasher r (nstr r ! i))"
  by (simp add: rv_ok_def scores_def Hash_def)

lemma Lookup_first_max:
  assumes "rv_ok r" and "nstr r \<noteq> []"
  obtains m where "first_max (scores r k) m" and "m < length (nstr r)" and "Lookup r k = Some (nstr r ! m)"
proof -
  have "nhash r \<noteq> []" using assms by (auto simp: rv_ok_def)
  from lookup_loop_first_max [OF this] have "first_max (scores r k) (lookup_loop (Hash r k) 0 (nhash r) 0 0)"
    by (simp add: scores_def)
  moreover from this have "lookup_loop (Hash r k) 0 (nhash r) 0 0 < length (nstr r)"
    using assms(1) by (simp add: first_max_def)
  ultimately show ?thesis using that by (simp add: Lookup_def)
qed

text \<open>The score of a node, and how the winner is characterised by scores alone when the
  node hashes differ.\<close>

definition node_score :: "(string \<Rightarrow> uint64) \<Rightarrow> string \<Rightarrow> string \<Rightarrow> uint64" where
  "node_score h k n = xorshiftMult64 (h k XOR h n)"

lemma xor_cancel: "a XOR b = a XOR c \<longleftrightarrow> b = (c :: 'a::len word)"
proof
  assume eq: "a XOR b = a XOR c"
  have inv: "a XOR (a XOR d) = d" for d
    by (simp only: xor.assoc [symmetric] xor_self_eq xor.left_neutral)
  have "b = a XOR (a XOR b)" by (rule inv [symmetric])
  also have "\<dots> = c" unfolding eq by (rule inv)
  finally show "b = c" .
qed simp

lemma node_score_inj: "node_score h k n = node_score h k n' \<longleftrightarrow> h n = h n'"
  by (simp add: node_score_def inj_xorshiftMult64 xor_cancel)

lemma Lookup_max:
  assumes "rv_ok r" and "nstr r \<noteq> []"
  obtains n where "Lookup r k = Some n" and "n \<in> set (nstr r)"
    and "\<And>n'. n' \<in> set (nstr r) \<Longrightarrow> node_score (hasher r) k n' \<le> node_score (hasher r) k n"
proof -
  obtain m where m: "first_max (scores r k) m" "m < length (nstr r)" "Lookup r k = Some (nstr r ! m)"
    using Lookup_first_max [OF assms] .
  have "node_score (hasher r) k n' \<le> node_score (hasher r) k (nstr r ! m)" if "n' \<in> set (nstr r)" for n'
    using that m assms(1) by (auto simp: first_max_def in_set_conv_nth scores_nth node_score_def)
  with m that show ?thesis by simp
qed

lemma Lookup_unique_max:
  assumes ok: "rv_ok r" and inj: "inj_on (hasher r) (set (nstr r))" and n: "n \<in> set (nstr r)"
    and max: "\<And>n'. n' \<in> set (nstr r) \<Longrightarrow> node_score (hasher r) k n' \<le> node_score (hasher r) k n"
  shows "Lookup r k = Some n"
proof -
  from n have "nstr r \<noteq> []" by auto
  from Lookup_max [OF ok this, of k] obtain w where w: "Lookup r k = Some w" "w \<in> set (nstr r)"
    "node_score (hasher r) k n \<le> node_score (hasher r) k w" using n by metis
  with max [of w] have "hasher r w = hasher r n"
    using node_score_inj by fastforce
  with inj w n have "w = n" by (auto dest: inj_onD)
  with w show ?thesis by simp
qed

section \<open>The contract of a node picker\<close>

text \<open>
  What the clients rely on: the choice depends on the set of members only, is a member,
  and adding a member moves keys to the new member only. \<open>compat\<close> are the member sets
  without hash collisions.
\<close>

locale node_picker =
  fixes ok :: "'r \<Rightarrow> bool"
    and members :: "'r \<Rightarrow> 'n set"
    and add :: "'r \<Rightarrow> 'n \<Rightarrow> 'r"
    and pick :: "'r \<Rightarrow> 'k \<Rightarrow> 'n option"
    and compat :: "'n set \<Rightarrow> bool"
  assumes compat_mono: "compat A \<Longrightarrow> B \<subseteq> A \<Longrightarrow> compat B"
    and ok_add: "ok r \<Longrightarrow> compat (insert n (members r)) \<Longrightarrow> ok (add r n)"
    and members_add: "ok r \<Longrightarrow> members (add r n) = insert n (members r)"
    and pick_member: "ok r \<Longrightarrow> members r \<noteq> {} \<Longrightarrow> \<exists>n\<in>members r. pick r k = Some n"
    and pick_cong: "ok r \<Longrightarrow> ok r' \<Longrightarrow> members r = members r' \<Longrightarrow> pick r k = pick r' k"
    and pick_add: "ok r \<Longrightarrow> compat (insert n (members r)) \<Longrightarrow>
      pick (add r n) k = pick r k \<or> pick (add r n) k = Some n"
begin

lemma ok_adds:
  "ok r \<Longrightarrow> compat (members r \<union> set ns) \<Longrightarrow> ok (foldl add r ns) \<and> members (foldl add r ns) = members r \<union> set ns"
proof (induction ns arbitrary: r)
  case (Cons n ns)
  have "compat (insert n (members r))" using Cons.prems(2) by (rule compat_mono) auto
  with Cons.prems(1) have "ok (add r n)" "members (add r n) = insert n (members r)"
    by (simp_all add: ok_add members_add)
  with Cons.prems Cons.IH [of "add r n"] show ?case by simp
qed simp

text \<open>The order in which the members were added does not matter.\<close>

lemma pick_order:
  assumes "ok r" and "compat (members r \<union> set ns)" and "set ns = set ms"
  shows "pick (foldl add r ns) k = pick (foldl add r ms) k"
  using ok_adds [OF assms(1), of ns] ok_adds [OF assms(1), of ms] assms(2,3)
  by (intro pick_cong) simp_all

text \<open>When members join, a key stays where it is or goes to one of those that joined.\<close>

lemma pick_adds:
  "ok r \<Longrightarrow> compat (members r \<union> set ns) \<Longrightarrow>
   pick (foldl add r ns) k = pick r k \<or> (\<exists>n\<in>set ns. pick (foldl add r ns) k = Some n)"
proof (induction ns arbitrary: r)
  case (Cons n ns)
  have c: "compat (insert n (members r))" using Cons.prems(2) by (rule compat_mono) auto
  with Cons.prems(1) have "ok (add r n)" "members (add r n) = insert n (members r)"
    by (simp_all add: ok_add members_add)
  with Cons.prems Cons.IH [of "add r n"] pick_add [OF Cons.prems(1) c, of k] show ?case by auto
qed simp

end

definition rv_safe :: "rendezvous \<Rightarrow> bool" where
  "rv_safe r \<longleftrightarrow> rv_ok r \<and> hasher r = Sum64 \<and> inj_on Sum64 (set (nstr r))"

lemma Lookup_Add_max:
  assumes "rv_ok r"
  obtains w where "Lookup (Add r n) k = Some w" and "w \<in> insert n (set (nstr r))"
    and "\<And>n'. n' \<in> insert n (set (nstr r)) \<Longrightarrow> node_score (hasher r) k n' \<le> node_score (hasher r) k w"
proof -
  have s: "set (nstr (Add r n)) = insert n (set (nstr r))" using assms by (rule set_nstr_Add)
  then have ne: "nstr (Add r n) \<noteq> []" by (metis empty_set insert_not_empty)
  obtain w where "Lookup (Add r n) k = Some w" "w \<in> set (nstr (Add r n))"
    "\<And>n'. n' \<in> set (nstr (Add r n)) \<Longrightarrow>
       node_score (hasher (Add r n)) k n' \<le> node_score (hasher (Add r n)) k w"
    using Lookup_max [OF rv_ok_Add [OF assms] ne] by blast
  then show ?thesis unfolding s hasher_Add by (rule that)
qed

lemma Lookup_Add:
  assumes "rv_ok r" and "inj_on (hasher r) (insert n (set (nstr r)))"
  shows "Lookup (Add r n) k = Lookup r k \<or> Lookup (Add r n) k = Some n"
proof -
  obtain w where w: "Lookup (Add r n) k = Some w" "w \<in> insert n (set (nstr r))"
    "\<And>n'. n' \<in> insert n (set (nstr r)) \<Longrightarrow> node_score (hasher r) k n' \<le> node_score (hasher r) k w"
    using Lookup_Add_max [OF assms(1)] by blast
  show ?thesis
  proof (cases "w = n")
    case False
    with w(2) have "w \<in> set (nstr r)" by simp
    moreover have "inj_on (hasher r) (set (nstr r))" using assms(2) by (rule inj_on_subset) auto
    ultimately have "Lookup r k = Some w" using assms(1) w(3) by (intro Lookup_unique_max) simp_all
    with w show ?thesis by simp
  qed (use w in simp)
qed

interpretation rv: node_picker rv_safe "\<lambda>r. set (nstr r)" Add Lookup "inj_on Sum64"
proof unfold_locales
  fix r r' n and k :: string
  show "rv_safe r \<Longrightarrow> inj_on Sum64 (insert n (set (nstr r))) \<Longrightarrow> rv_safe (Add r n)"
    by (simp add: rv_safe_def rv_ok_Add set_nstr_Add)
  show "rv_safe r \<Longrightarrow> set (nstr (Add r n)) = insert n (set (nstr r))"
    by (simp add: rv_safe_def set_nstr_Add)
  show "rv_safe r \<Longrightarrow> set (nstr r) \<noteq> {} \<Longrightarrow> \<exists>n\<in>set (nstr r). Lookup r k = Some n"
    using Lookup_max [of r k] by (auto simp: rv_safe_def)
  show "rv_safe r \<Longrightarrow> inj_on Sum64 (insert n (set (nstr r))) \<Longrightarrow>
      Lookup (Add r n) k = Lookup r k \<or> Lookup (Add r n) k = Some n"
    by (rule Lookup_Add) (simp_all add: rv_safe_def)
  show "Lookup r k = Lookup r' k" if "rv_safe r" "rv_safe r'" "set (nstr r) = set (nstr r')"
  proof (cases "nstr r = []")
    case True
    with that show ?thesis by (simp add: Lookup_def slice_get_def)
  next
    case False
    with that(1) obtain w where "Lookup r k = Some w" "w \<in> set (nstr r)"
      "\<And>n'. n' \<in> set (nstr r) \<Longrightarrow> node_score (hasher r) k n' \<le> node_score (hasher r) k w"
      using Lookup_max [of r k] by (auto simp: rv_safe_def)
    with that Lookup_unique_max [of r' w k] show ?thesis by (simp add: rv_safe_def)
  qed
qed (auto intro: inj_on_subset)

section \<open>Properties\<close>

lemma rv_safe_New: "rv_safe New"
  by (simp add: rv_safe_def New_def rv_ok_New) (simp add: NewWithHash_def)

lemma nstr_New [simp]: "nstr New = []"
  by (simp add: New_def NewWithHash_def)

text \<open>C12: the choice does not depend on the order in which the nodes were added. An index
  adds its shards in the order of a Go map, which differs from one load to the next;
  every load nevertheless sends a document to the same shard.\<close>

theorem Lookup_order_independent:
  assumes "set ns = set ms" and "inj_on Sum64 (set ns)"
  shows "Lookup (foldl Add New ns) k = Lookup (foldl Add New ms) k"
  using rv.pick_order [OF rv_safe_New, of ns ms k] assms by simp

theorem Lookup_order_independent_witness:
  "set [''a'', ''b'', ''c''] = set [''c'', ''a'', ''b''] \<and> inj_on Sum64 (set [''a'', ''b'', ''c''])
   \<and> Lookup (foldl Add New [''a'', ''b'', ''c'']) ''doc'' = Lookup (foldl Add New [''c'', ''a'', ''b'']) ''doc''"
proof -
  have s: "set [''a'', ''b'', ''c''] = set [''c'', ''a'', ''b'']" by auto
  have i: "inj_on Sum64 (set [''a'', ''b'', ''c''])"
    by (simp add: Sum64_def offset64_def prime64_def)
  from s i Lookup_order_independent [OF s i] show ?thesis by blast
qed

text \<open>C16: adding nodes moves as few keys as possible. A key stays on its node or moves to one
  of the nodes that were added, never between two old nodes; and the node chosen is one with
  the highest score for the key.\<close>

theorem Lookup_minimal_disruption:
  assumes "ns \<noteq> []" and "inj_on Sum64 (set ns \<union> set ms)"
  shows "(Lookup (foldl Add New (ns @ ms)) k = Lookup (foldl Add New ns) k
          \<or> (\<exists>n\<in>set ms. Lookup (foldl Add New (ns @ ms)) k = Some n))
     \<and> (\<exists>w\<in>set ns. Lookup (foldl Add New ns) k = Some w
          \<and> (\<forall>n\<in>set ns. node_score Sum64 k n \<le> node_score Sum64 k w))"
proof (intro conjI)
  have inj: "inj_on Sum64 (set ns)" using assms(2) by (rule inj_on_subset) auto
  with rv.ok_adds [OF rv_safe_New, of ns]
  have r: "rv_safe (foldl Add New ns)" and m: "set (nstr (foldl Add New ns)) = set ns" by simp_all
  show "Lookup (foldl Add New (ns @ ms)) k = Lookup (foldl Add New ns) k
          \<or> (\<exists>n\<in>set ms. Lookup (foldl Add New (ns @ ms)) k = Some n)"
    using rv.pick_adds [OF r, of ms k] assms(2) by (simp add: m)
  have ne: "nstr (foldl Add New ns) \<noteq> []" using m assms(1) by (metis empty_set set_empty)
  have "rv_ok (foldl Add New ns)" "hasher (foldl Add New ns) = Sum64"
    using r by (simp_all add: rv_safe_def)
  with Lookup_max [OF _ ne, of k] m
  show "\<exists>w\<in>set ns. Lookup (foldl Add New ns) k = Some w
          \<and> (\<forall>n\<in>set ns. node_score Sum64 k n \<le> node_score Sum64 k w)" by metis
qed

theorem Lookup_minimal_disruption_witness:
  "Lookup (foldl Add New ([''a'', ''b''] @ [''c''])) ''doc'' = Lookup (foldl Add New [''a'', ''b'']) ''doc''
   \<or> (\<exists>n\<in>set [''c'']. Lookup (foldl Add New ([''a'', ''b''] @ [''c''])) ''doc'' = Some n)"
proof -
  have "[''a'', ''b''] \<noteq> []" by simp
  moreover have "inj_on Sum64 (set [''a'', ''b''] \<union> set [''c''])"
    by (simp add: Sum64_def offset64_def prime64_def)
  ultimately show ?thesis using Lookup_minimal_disruption [of "[''a'', ''b'']" "[''c'']" "''doc''"] by blast
qed

lemma scored_nodes:
  "rv_ok r \<Longrightarrow> scored r k = map (\<lambda>n. \<lparr>name = n, score = node_score (hasher r) k n\<rparr>) (nstr r)"
  by (simp add: scored_def rv_ok_def zip_map2 zip_same_conv_map node_score_def Hash_def)

lemma scored_props:
  assumes "rv_ok r"
  shows "map name (scored r k) = nstr r"
    and "x \<in> set (scored r k) \<Longrightarrow> score x = node_score (hasher r) k (name x)"
  by (auto simp: scored_nodes [OF assms] o_def)


lemma rev_sort_key_sorts: "sorts_by_score (\<lambda>xs. rev (sort_key score xs))"
proof -
  have "sorted_wrt (\<lambda>a b. score a \<le> score b) (sort_key score xs)" for xs :: "scoreNode list"
    using sorted_sort_key [of score xs] by (simp add: sorted_map)
  then show ?thesis by (simp add: sorts_by_score_def sorted_wrt_rev)
qed


text \<open>Removing a node never works. The slice is read at its length before anything else is
  changed, so that \<^verbatim>\<open>Remove\<close> panics for every table and every node.\<close>

lemma Remove_panics: "Remove r node = None"
  by (simp add: Remove_def slice_get_def)

end
