(* ===== verification/Cluster.thy ===== *)
theory Cluster
  imports Go_Runtime
begin

text \<open>
  \<^verbatim>\<open>cmd/cluster-manager/manager.go\<close>, which spreads the 256 index-name prefixes over the
  nodes that are alive, and \<^verbatim>\<open>pkg/cluster/cluster.go\<close>, where a node keeps the prefixes it
  owns and answers whether an index is its own. The etcd client (\<^verbatim>\<open>clusterkit\<close>) is outside
  the repository: what its calls return are arguments.
\<close>

section \<open>Model: the manager\<close>

type_synonym assigns = "string \<rightharpoonup> int"

definition lookup0 :: "('k \<rightharpoonup> 'v list) \<Rightarrow> 'k \<Rightarrow> 'v list" where
  "lookup0 m k = (case m k of None \<Rightarrow> [] | Some l \<Rightarrow> l)"

definition fullAssigns :: "string list" where
  "fullAssigns = map hex2 [0..<256]"

text \<open>The prefixes of every node that is alive, in the order \<open>ks\<close> of the map's iteration.\<close>

definition curNodeAssignMap :: "int list \<Rightarrow> assigns \<Rightarrow> string list \<Rightarrow> (int \<rightharpoonup> string list)" where
  "curNodeAssignMap curNodeIds curAssignMap ks =
     foldl (\<lambda>m assign. case curAssignMap assign of
         None \<Rightarrow> m
       | Some nodeId \<Rightarrow>
           if nodeId \<notin> set curNodeIds then m
           else (case m nodeId of
               Some list \<Rightarrow> m(nodeId \<mapsto> list @ [assign])
             | None \<Rightarrow> m(nodeId \<mapsto> [assign]))) Map.empty ks"

definition free_pool :: "int list \<Rightarrow> assigns \<Rightarrow> string list \<Rightarrow> string list" where
  "free_pool curNodeIds curAssignMap fs =
     filter (\<lambda>p. case curAssignMap p of None \<Rightarrow> True | Some node \<Rightarrow> node \<notin> set curNodeIds) fs"

definition quota :: "nat \<Rightarrow> nat \<Rightarrow> nat \<Rightarrow> nat" where
  "quota average remainder i = (if i < remainder then average + 1 else average)"

text \<open>The first pass takes from every node what exceeds its quota.\<close>

fun cap_nodes :: "(nat \<Rightarrow> nat) \<Rightarrow> nat \<Rightarrow> int list \<Rightarrow> (int \<rightharpoonup> string list) \<Rightarrow> string list
    \<Rightarrow> (int \<rightharpoonup> string list) \<times> string list" where
  "cap_nodes q i [] m pool = (m, pool)"
| "cap_nodes q i (nodeId # rest) m pool =
     (let n = q i; list = lookup0 m nodeId in
      if n < length list
      then cap_nodes q (i + 1) rest (m(nodeId \<mapsto> take n list)) (pool @ drop n list)
      else cap_nodes q (i + 1) rest m pool)"

text \<open>The second pass fills every node up to its quota; slicing the pool out of range
  panics.\<close>

fun fill_nodes :: "(nat \<Rightarrow> nat) \<Rightarrow> nat \<Rightarrow> int list \<Rightarrow> (int \<rightharpoonup> string list) \<Rightarrow> string list
    \<Rightarrow> (int \<rightharpoonup> string list) \<Rightarrow> (int \<rightharpoonup> string list) option" where
  "fill_nodes q i [] m pool res = Some res"
| "fill_nodes q i (nodeId # rest) m pool res =
     (let n = q i; list = lookup0 m nodeId in
      if n = length list then fill_nodes q (i + 1) rest m pool res
      else if n < length list \<or> length pool < n - length list then None
      else let k = n - length list in
        fill_nodes q (i + 1) rest m (drop k pool) (res(nodeId \<mapsto> list @ take k pool)))"

text \<open>The assignments that differ from the current ones.\<close>

definition updatedAssigns :: "assigns \<Rightarrow> (int \<rightharpoonup> string list) \<Rightarrow> int list \<Rightarrow> assigns" where
  "updatedAssigns curAssignMap res rs =
     foldl (\<lambda>u node.
       foldl (\<lambda>u partition. case curAssignMap partition of
           Some nodeId \<Rightarrow> if nodeId \<noteq> node then u(partition \<mapsto> node) else u
         | None \<Rightarrow> u(partition \<mapsto> node)) u (lookup0 res node)) Map.empty rs"

text \<open>
  \<open>ks\<close> and \<open>fs\<close> are the orders in which the maps of current assignments and of all prefixes
  are visited, \<open>ro\<close> orders the keys of the result map, \<open>shuffle\<close> is the random permutation.
  Dividing by the length of an empty node list panics. A nil map reads as the empty map.
\<close>

definition distribute :: "string list \<Rightarrow> string list \<Rightarrow> (string list \<Rightarrow> string list) \<Rightarrow> (int list \<Rightarrow> int list)
    \<Rightarrow> int list \<Rightarrow> assigns \<Rightarrow> assigns option" where
  "distribute ks fs shuffle ro curNodeIds curAssignMap =
     (let m0 = curNodeAssignMap curNodeIds curAssignMap ks;
          pool0 = free_pool curNodeIds curAssignMap fs
      in if curNodeIds = [] then None
         else let q = quota (length fullAssigns div length curNodeIds) (length fullAssigns mod length curNodeIds);
                  (m1, pool1) = cap_nodes q 0 curNodeIds m0 pool0
              in if pool1 = [] then Some Map.empty
                 else (case fill_nodes q 0 curNodeIds m1 (shuffle pool1) Map.empty of
                     None \<Rightarrow> None
                   | Some res \<Rightarrow>
                       Some (updatedAssigns curAssignMap res (ro (filter (\<lambda>n. res n \<noteq> None) curNodeIds)))))"

text \<open>
  A round of the manager. Each call of the etcd client gives an error or a value:
  the node ids of the heartbeats, those of the registered nodes, the current assignments.
  \<open>ko\<close> and \<open>uo\<close> order the keys of the maps that are ranged over.
\<close>

datatype 'e outcome = Failed string 'e | Unchanged | Sent "(string \<times> int) list" | Panicked

definition assign_hash :: "(string \<times> int) list \<Rightarrow> assigns" where
  "assign_hash as = foldl (\<lambda>h (prefix, nodeId). h(prefix \<mapsto> nodeId)) Map.empty as"

definition mgr_updateAssigns :: "(string list \<Rightarrow> string list) \<Rightarrow> (string list \<Rightarrow> string list) \<Rightarrow> string list
    \<Rightarrow> (string list \<Rightarrow> string list) \<Rightarrow> (int list \<Rightarrow> int list) \<Rightarrow> 'e + int list \<Rightarrow> 'e + int list
    \<Rightarrow> 'e + (string \<times> int) list \<Rightarrow> ((string \<times> int) list \<Rightarrow> 'e option) \<Rightarrow> 'e outcome" where
  "mgr_updateAssigns ko uo fs shuffle ro hbs cluster assigns setAssigns =
     (case hbs of Inl e \<Rightarrow> Failed ''failed to list heartbeats'' e
      | Inr hbs \<Rightarrow> (case cluster of Inl e \<Rightarrow> Failed ''failed to get cluster nodes'' e
      | Inr nodes \<Rightarrow>
        let alive = filter (\<lambda>hb. hb \<in> set nodes) hbs in
        if alive = [] then Unchanged
        else (case assigns of Inl e \<Rightarrow> Failed ''failed to list assigns'' e
        | Inr as \<Rightarrow>
          (case distribute (ko (remdups (map fst as))) fs shuffle ro (sort alive) (assign_hash as) of
             None \<Rightarrow> Panicked
           | Some h \<Rightarrow>
               let updates = map (\<lambda>k. (k, the (h k))) (uo (filter (\<lambda>k. h k \<noteq> None) fullAssigns)) in
               if updates = [] then Unchanged
               else (case setAssigns updates of
                   Some e \<Rightarrow> Failed ''failed to set assigns'' e
                 | None \<Rightarrow> Sent updates)))))"

section \<open>Model: the node\<close>

text \<open>The prefixes that a node owns and those it does not, from the list of assignments.\<close>

definition node_updateAssigns :: "int \<Rightarrow> (string \<times> int) list \<Rightarrow> string set \<times> string set" where
  "node_updateAssigns nodeId as =
     foldl (\<lambda>(assignMap, unassignMap) (prefix, n).
        if n = nodeId then (insert prefix assignMap, unassignMap)
        else (assignMap, insert prefix unassignMap)) ({}, {}) as"

definition AssignCheck :: "bool \<Rightarrow> string set \<Rightarrow> string \<Rightarrow> bool" where
  "AssignCheck enable assignMap indexName =
     (if \<not> enable then True
      else let str = hex_encode (md5_sum (bytes_of indexName)); assign = take 2 str
           in assign \<in> assignMap)"

section \<open>The passes\<close>

lemma lookup0_simps [simp]:
  "m k = None \<Longrightarrow> lookup0 m k = []" "m k = Some l \<Longrightarrow> lookup0 m k = l"
  "lookup0 (m(k' \<mapsto> l)) k = (if k = k' then l else lookup0 m k)"
  by (simp_all add: lookup0_def)

lemma lookup0_cong: "m k = m' k \<Longrightarrow> lookup0 m k = lookup0 m' k"
  by (simp add: lookup0_def)

lemma curNodeAssignMap_filter:
  assumes "n \<in> set ns"
  shows "lookup0 (curNodeAssignMap ns cur ks) n = filter (\<lambda>p. cur p = Some n) ks"
proof (induction ks rule: rev_induct)
  case (snoc p ks)
  then show ?case
    using assms by (auto simp: curNodeAssignMap_def lookup0_def split: option.split)
qed (simp add: curNodeAssignMap_def)

lemma cap_nodes_spec:
  assumes "distinct ns" and "cap_nodes q i ns m pool = (m', pool')"
  shows "(\<forall>n. n \<notin> set ns \<longrightarrow> m' n = m n)
     \<and> (\<forall>j<length ns. lookup0 m' (ns ! j) = take (q (i + j)) (lookup0 m (ns ! j)))
     \<and> mset pool' + mset (concat (map (lookup0 m') ns)) = mset pool + mset (concat (map (lookup0 m) ns))"
  using assms
proof (induction ns arbitrary: i m pool)
  case (Cons nodeId rest)
  let ?l = "lookup0 m nodeId"
  let ?m = "if q i < length ?l then m(nodeId \<mapsto> take (q i) ?l) else m"
  let ?pool = "if q i < length ?l then pool @ drop (q i) ?l else pool"
  have rec: "cap_nodes q (Suc i) rest ?m ?pool = (m', pool')"
    using Cons.prems(2) by (simp add: Let_def split: if_splits)
  have nin: "nodeId \<notin> set rest" using Cons.prems(1) by simp
  note IH = Cons.IH [OF _ rec]
  have other: "m' n = ?m n" if "n \<notin> set rest" for n using IH Cons.prems(1) that by simp
  have later: "lookup0 m' (rest ! j) = take (q (Suc i + j)) (lookup0 ?m (rest ! j))" if "j < length rest" for j
    using IH Cons.prems(1) that by simp
  have same: "lookup0 ?m n = lookup0 m n" if "n \<in> set rest" for n
    using that nin by auto
  have here: "lookup0 m' nodeId = take (q i) ?l"
    using lookup0_cong [of m' nodeId ?m] other [OF nin] by auto
  have tail: "mset pool' + mset (concat (map (lookup0 m') rest)) = mset ?pool + mset (concat (map (lookup0 m) rest))"
    using IH Cons.prems(1) same by (simp cong: map_cong)
  have head: "mset (take (q i) ?l) + mset ?pool = mset ?l + mset pool"
  proof -
    have "mset (take (q i) ?l) + mset (drop (q i) ?l) = mset ?l"
      by (metis append_take_drop_id mset_append)
    then show ?thesis by (cases "q i < length ?l") (simp_all add: union_commute union_lcomm)
  qed
  have "mset pool' + mset (concat (map (lookup0 m') (nodeId # rest)))
      = mset (take (q i) ?l) + (mset pool' + mset (concat (map (lookup0 m') rest)))"
    by (simp add: here)
  also have "\<dots> = mset (take (q i) ?l) + mset ?pool + mset (concat (map (lookup0 m) rest))"
    unfolding tail by simp
  also have "\<dots> = mset pool + mset (concat (map (lookup0 m) (nodeId # rest)))"
    unfolding head by simp
  finally have "mset pool' + mset (concat (map (lookup0 m') (nodeId # rest)))
      = mset pool + mset (concat (map (lookup0 m) (nodeId # rest)))" .
  moreover have "lookup0 m' ((nodeId # rest) ! j) = take (q (i + j)) (lookup0 m ((nodeId # rest) ! j))"
    if "j < length (nodeId # rest)" for j
    using that here later same by (cases j) simp_all
  ultimately show ?case using other by simp
qed simp

lemma fill_nodes_spec:
  assumes "distinct ns" and "\<forall>n\<in>set ns. res n = None"
    and "\<forall>j<length ns. length (lookup0 m (ns ! j)) \<le> q (i + j)"
    and "length pool = (\<Sum>j<length ns. q (i + j) - length (lookup0 m (ns ! j)))"
  shows "\<exists>res' chunks. fill_nodes q i ns m pool res = Some res'
     \<and> (\<forall>n. n \<notin> set ns \<longrightarrow> res' n = res n)
     \<and> length chunks = length ns \<and> concat chunks = pool
     \<and> (\<forall>j<length ns. length (chunks ! j) = q (i + j) - length (lookup0 m (ns ! j))
          \<and> res' (ns ! j) = (if chunks ! j = [] then None else Some (lookup0 m (ns ! j) @ chunks ! j)))"
  using assms
proof (induction ns arbitrary: i pool res)
  case (Cons nodeId rest)
  let ?l = "lookup0 m nodeId"
  let ?k = "q i - length ?l"
  let ?res = "if ?k = 0 then res else res(nodeId \<mapsto> ?l @ take ?k pool)"
  have le: "length ?l \<le> q i" using Cons.prems(3) by force
  have sum: "length pool = ?k + (\<Sum>j<length rest. q (Suc i + j) - length (lookup0 m (rest ! j)))"
    using Cons.prems(4) by (simp add: sum.lessThan_Suc_shift del: sum.lessThan_Suc)
  have step: "fill_nodes q i (nodeId # rest) m pool res = fill_nodes q (Suc i) rest m (drop ?k pool) ?res"
    using le sum by (auto simp: Let_def)
  have "\<exists>res' chunks. fill_nodes q (Suc i) rest m (drop ?k pool) ?res = Some res'
     \<and> (\<forall>n. n \<notin> set rest \<longrightarrow> res' n = ?res n)
     \<and> length chunks = length rest \<and> concat chunks = drop ?k pool
     \<and> (\<forall>j<length rest. length (chunks ! j) = q (Suc i + j) - length (lookup0 m (rest ! j))
          \<and> res' (rest ! j) = (if chunks ! j = [] then None else Some (lookup0 m (rest ! j) @ chunks ! j)))"
    using Cons.prems sum by (intro Cons.IH) force+
  then obtain res' chunks where r: "fill_nodes q (Suc i) rest m (drop ?k pool) ?res = Some res'"
     "\<forall>n. n \<notin> set rest \<longrightarrow> res' n = ?res n" "length chunks = length rest" "concat chunks = drop ?k pool"
     "\<forall>j<length rest. length (chunks ! j) = q (Suc i + j) - length (lookup0 m (rest ! j))
          \<and> res' (rest ! j) = (if chunks ! j = [] then None else Some (lookup0 m (rest ! j) @ chunks ! j))"
    by blast
  have here: "res' nodeId = (if take ?k pool = [] then None else Some (?l @ take ?k pool))"
    using r(2) Cons.prems(1,2) sum by auto
  show ?case
  proof (intro exI conjI allI impI)
    show "fill_nodes q i (nodeId # rest) m pool res = Some res'" using step r(1) by simp
    show "concat (take ?k pool # chunks) = pool" using r(4) by simp
    show "res' n = res n" if "n \<notin> set (nodeId # rest)" for n using that r(2) by simp
    show "length (take ?k pool # chunks) = length (nodeId # rest)" using r(3) by simp
    fix j assume "j < length (nodeId # rest)"
    with r(5) here sum show "length ((take ?k pool # chunks) ! j) = q (i + j) - length (lookup0 m ((nodeId # rest) ! j))"
      "res' ((nodeId # rest) ! j) = (if (take ?k pool # chunks) ! j = [] then None
         else Some (lookup0 m ((nodeId # rest) ! j) @ (take ?k pool # chunks) ! j))"
      by (cases j; simp)+
  qed
qed simp

text \<open>The updates are the pairs that the nested loop visits and does not skip.\<close>

definition update_pairs :: "assigns \<Rightarrow> (int \<rightharpoonup> string list) \<Rightarrow> int list \<Rightarrow> (string \<times> int) list" where
  "update_pairs cur res rs =
     concat (map (\<lambda>node. map (\<lambda>p. (p, node)) (filter (\<lambda>p. cur p \<noteq> Some node) (lookup0 res node))) rs)"

lemma updatedAssigns_pairs: "updatedAssigns cur res rs = map_of (rev (update_pairs cur res rs))"
proof -
  have inner: "foldl (\<lambda>u partition. case cur partition of
           Some nodeId \<Rightarrow> if nodeId \<noteq> node then u(partition \<mapsto> node) else u
         | None \<Rightarrow> u(partition \<mapsto> node)) u l
      = u ++ map_of (rev (map (\<lambda>p. (p, node)) (filter (\<lambda>p. cur p \<noteq> Some node) l)))" for u node l
    by (induction l rule: rev_induct) (auto split: option.split)
  show ?thesis
    unfolding updatedAssigns_def inner
    by (induction rs rule: rev_induct) (simp_all add: update_pairs_def)
qed

lemma updatedAssigns_iff:
  assumes "\<And>p n n'. n \<in> set rs \<Longrightarrow> n' \<in> set rs \<Longrightarrow> p \<in> set (lookup0 res n) \<Longrightarrow> p \<in> set (lookup0 res n') \<Longrightarrow> n = n'"
  shows "updatedAssigns cur res rs p = Some n \<longleftrightarrow> n \<in> set rs \<and> p \<in> set (lookup0 res n) \<and> cur p \<noteq> Some n"
proof -
  let ?xs = "update_pairs cur res rs"
  have mem: "(p, n) \<in> set ?xs \<longleftrightarrow> n \<in> set rs \<and> p \<in> set (lookup0 res n) \<and> cur p \<noteq> Some n" for p n
    by (auto simp: update_pairs_def)
  have "map_of (rev ?xs) p = Some n" if "(p, n) \<in> set ?xs"
  proof -
    from that have "p \<in> fst ` set (rev ?xs)" by force
    then obtain n' where n': "map_of (rev ?xs) p = Some n'" by (metis map_of_eq_None_iff not_None_eq)
    then have "(p, n') \<in> set ?xs" by (auto dest: map_of_SomeD)
    with that assms mem n' show ?thesis by metis
  qed
  moreover have "(p, n) \<in> set ?xs" if "map_of (rev ?xs) p = Some n"
    using map_of_SomeD [OF that] by simp
  ultimately have "updatedAssigns cur res rs p = Some n \<longleftrightarrow> (p, n) \<in> set ?xs"
    unfolding updatedAssigns_pairs by blast
  then show ?thesis unfolding mem .
qed

section \<open>The distribution is a balanced partition\<close>

lemma sum_quota: "0 < k \<Longrightarrow> (\<Sum>j<k. quota (t div k) (t mod k) j) = t"
proof -
  assume k: "0 < k"
  have "(\<Sum>j<k. quota (t div k) (t mod k) j) = (\<Sum>j<k. t div k + (if j < t mod k then 1 else 0))"
    by (rule sum.cong) (auto simp: quota_def)
  also have "\<dots> = k * (t div k) + card {j. j < t mod k \<and> j < k}"
    by (simp add: sum.distrib sum.If_cases Int_def conj_commute)
  also have "{j. j < t mod k \<and> j < k} = {..<t mod k}"
    using mod_less_divisor [OF k, of t] by auto
  finally show ?thesis by simp
qed

lemma distinct_fullAssigns: "distinct fullAssigns"
  by (auto simp: fullAssigns_def distinct_map inj_on_def hex2_inj)

lemma length_fullAssigns [simp]: "length fullAssigns = 256"
  by (simp add: fullAssigns_def)

definition owned :: "assigns \<Rightarrow> string list \<Rightarrow> int \<Rightarrow> string list" where
  "owned cur ks n = filter (\<lambda>p. cur p = Some n) ks"

lemma distinct_concat_owned:
  "distinct ns \<Longrightarrow> distinct ks \<Longrightarrow> distinct (concat (map (owned cur ks) ns))"
  by (induction ns) (auto simp: owned_def)

lemma owner_unique:
  "distinct (concat (map G ns)) \<Longrightarrow> n \<in> set ns \<Longrightarrow> n' \<in> set ns \<Longrightarrow> p \<in> set (G n) \<Longrightarrow> p \<in> set (G n') \<Longrightarrow> n = n'"
  by (induction ns) auto

lemma partition_start:
  assumes "distinct ns" and "map_order cur ks" and "dom cur \<subseteq> set fullAssigns" and "mset fs = mset fullAssigns"
  shows "mset (free_pool ns cur fs) + mset (concat (map (owned cur ks) ns)) = mset fullAssigns"
proof -
  have fs: "distinct fs" "set fs = set fullAssigns"
    using assms(4) distinct_fullAssigns mset_eq_imp_distinct_iff mset_eq_setD by blast+
  have "set (concat (map (owned cur ks) ns)) = {p. \<exists>n\<in>set ns. cur p = Some n}"
    using map_orderD(2) [OF assms(2)] by (auto simp: owned_def)
  moreover have "set (free_pool ns cur fs) = {p \<in> set fullAssigns. \<not> (\<exists>n\<in>set ns. cur p = Some n)}"
    by (auto simp: free_pool_def fs split: option.splits)
  ultimately have "distinct (free_pool ns cur fs @ concat (map (owned cur ks) ns))"
    "set (free_pool ns cur fs @ concat (map (owned cur ks) ns)) = set fullAssigns"
    using distinct_concat_owned [OF assms(1) map_orderD(1) [OF assms(2)]] assms(3) fs
    by (auto simp: free_pool_def)
  with distinct_fullAssigns show ?thesis
    by (metis mset_append set_eq_iff_mset_eq_distinct)
qed

text \<open>
  What a run of \<^verbatim>\<open>distribute\<close> is given: different node ids, at least one, the current
  assignments of prefixes (those only) in some order, and permutations for the orders that
  the language and the random shuffle leave open.
\<close>

definition distribute_input :: "string list \<Rightarrow> string list \<Rightarrow> (string list \<Rightarrow> string list) \<Rightarrow> (int list \<Rightarrow> int list)
    \<Rightarrow> int list \<Rightarrow> assigns \<Rightarrow> bool" where
  "distribute_input ks fs shuffle ro ns cur \<longleftrightarrow>
     distinct ns \<and> ns \<noteq> [] \<and> map_order cur ks \<and> dom cur \<subseteq> set fullAssigns \<and> mset fs = mset fullAssigns
     \<and> (\<forall>xs. mset (shuffle xs) = mset xs) \<and> (\<forall>xs. mset (ro xs) = mset xs)"

definition node_quota :: "int list \<Rightarrow> nat \<Rightarrow> nat" where
  "node_quota ns = quota (256 div length ns) (256 mod length ns)"

lemma mset_concat_map2:
  "length xs = length ys \<Longrightarrow> mset (concat (map2 (@) xs ys)) = mset (concat xs) + mset (concat ys)"
  by (induction xs ys rule: list_induct2) simp_all

lemma sum_list_length_concat: "length (concat (map f ns)) = (\<Sum>j<length ns. length (f (ns ! j)))"
  by (simp add: length_concat sum_list_sum_nth atLeast0LessThan)

text \<open>The target lists \<open>G\<close> of a run: a partition of the prefixes into lists of the quota
  sizes that keeps what a node owns up to its quota.\<close>

definition target :: "int list \<Rightarrow> string list \<Rightarrow> assigns \<Rightarrow> (int \<Rightarrow> string list) \<Rightarrow> bool" where
  "target ns ks cur G \<longleftrightarrow>
     mset (concat (map G ns)) = mset fullAssigns
     \<and> (\<forall>j<length ns. length (G (ns ! j)) = node_quota ns j
          \<and> (\<exists>c. G (ns ! j) = take (node_quota ns j) (owned cur ks (ns ! j)) @ c))"

lemma fill_after_cap:
  assumes inp: "distribute_input ks fs shuffle ro ns cur"
    and cap: "cap_nodes (node_quota ns) 0 ns (curNodeAssignMap ns cur ks) (free_pool ns cur fs) = (m1, pool1)"
    and pool2: "mset pool2 = mset pool1"
  obtains res chunks where "fill_nodes (node_quota ns) 0 ns m1 pool2 Map.empty = Some res"
    and "length chunks = length ns" and "concat chunks = pool2" and "dom res \<subseteq> set ns"
    and "\<And>j. j < length ns \<Longrightarrow> lookup0 m1 (ns ! j) = take (node_quota ns j) (owned cur ks (ns ! j))"
    and "\<And>j. j < length ns \<Longrightarrow> length (chunks ! j) + length (lookup0 m1 (ns ! j)) = node_quota ns j"
    and "\<And>j. j < length ns \<Longrightarrow>
      res (ns ! j) = (if chunks ! j = [] then None else Some (lookup0 m1 (ns ! j) @ chunks ! j))"
    and "mset pool2 + mset (concat (map (lookup0 m1) ns)) = mset fullAssigns"
proof -
  have d: "distinct ns" "ns \<noteq> []" using inp by (simp_all add: distribute_input_def)
  have own: "lookup0 (curNodeAssignMap ns cur ks) n = owned cur ks n" if "n \<in> set ns" for n
    using curNodeAssignMap_filter [OF that] by (simp add: owned_def)
  note c = cap_nodes_spec [OF d(1) cap]
  have l1: "lookup0 m1 (ns ! j) = take (node_quota ns j) (owned cur ks (ns ! j))" if "j < length ns" for j
    using c that own by simp
  have le: "length (lookup0 m1 (ns ! j)) \<le> node_quota ns j" if "j < length ns" for j
    using l1 [OF that] by simp
  have "map (lookup0 (curNodeAssignMap ns cur ks)) ns = map (owned cur ks) ns"
    using own by simp
  with c have total: "mset pool2 + mset (concat (map (lookup0 m1) ns)) = mset fullAssigns"
    using partition_start [of ns cur ks fs] inp pool2 by (simp add: distribute_input_def)
  have "length pool2 + length (concat (map (lookup0 m1) ns)) = 256"
    using arg_cong [OF total, of size] by simp
  moreover have "(\<Sum>j<length ns. node_quota ns j) = 256"
    unfolding node_quota_def using d(2) by (intro sum_quota) simp
  moreover have "(\<Sum>j<length ns. node_quota ns j - length (lookup0 m1 (ns ! j)))
      = (\<Sum>j<length ns. node_quota ns j) - (\<Sum>j<length ns. length (lookup0 m1 (ns ! j)))"
    using le by (intro sum_subtractf_nat) simp
  ultimately have "length pool2 = (\<Sum>j<length ns. node_quota ns j - length (lookup0 m1 (ns ! j)))"
    by (simp add: sum_list_length_concat)
  with fill_nodes_spec [of ns Map.empty m1 "node_quota ns" 0 pool2] d(1) le
  obtain res chunks where r: "fill_nodes (node_quota ns) 0 ns m1 pool2 Map.empty = Some res"
    "\<forall>n. n \<notin> set ns \<longrightarrow> res n = None" "length chunks = length ns" "concat chunks = pool2"
    "\<forall>j<length ns. length (chunks ! j) = node_quota ns j - length (lookup0 m1 (ns ! j))
       \<and> res (ns ! j) = (if chunks ! j = [] then None else Some (lookup0 m1 (ns ! j) @ chunks ! j))"
    by auto
  show ?thesis
  proof (rule that [OF r(1,3,4) _ l1 _ _ total])
    show "dom res \<subseteq> set ns" using r(2) by auto
    fix j assume "j < length ns"
    with r(5) le show "length (chunks ! j) + length (lookup0 m1 (ns ! j)) = node_quota ns j"
      "res (ns ! j) = (if chunks ! j = [] then None else Some (lookup0 m1 (ns ! j) @ chunks ! j))"
      by simp_all
  qed
qed

lemma target_of_fill:
  assumes len: "length chunks = length ns"
    and l1: "\<And>j. j < length ns \<Longrightarrow> lookup0 m1 (ns ! j) = take (node_quota ns j) (owned cur ks (ns ! j))"
    and q: "\<And>j. j < length ns \<Longrightarrow> length (chunks ! j) + length (lookup0 m1 (ns ! j)) = node_quota ns j"
    and res: "\<And>j. j < length ns \<Longrightarrow>
      res (ns ! j) = (if chunks ! j = [] then None else Some (lookup0 m1 (ns ! j) @ chunks ! j))"
    and total: "mset (concat chunks) + mset (concat (map (lookup0 m1) ns)) = mset fullAssigns"
    and G: "\<And>n. G n = (case res n of None \<Rightarrow> lookup0 m1 n | Some l \<Rightarrow> l)"
  shows "target ns ks cur G"
proof -
  have Gj: "G (ns ! j) = lookup0 m1 (ns ! j) @ chunks ! j" if "j < length ns" for j
    using res [OF that] by (simp add: G)
  have "map G ns = map2 (@) (map (lookup0 m1) ns) chunks"
    by (rule nth_equalityI) (simp_all add: len Gj)
  then have "mset (concat (map G ns)) = mset fullAssigns"
    using total len by (simp add: mset_concat_map2 union_commute)
  moreover have "length (G (ns ! j)) = node_quota ns j
      \<and> (\<exists>c. G (ns ! j) = take (node_quota ns j) (owned cur ks (ns ! j)) @ c)" if "j < length ns" for j
    using Gj [OF that] q [OF that] l1 [OF that] by auto
  ultimately show ?thesis by (simp add: target_def)
qed

definition updates_to :: "int list \<Rightarrow> assigns \<Rightarrow> (int \<Rightarrow> string list) \<Rightarrow> assigns \<Rightarrow> bool" where
  "updates_to ns cur G upd \<longleftrightarrow> (\<forall>p n. upd p = Some n \<longleftrightarrow> n \<in> set ns \<and> p \<in> set (G n) \<and> cur p \<noteq> Some n)"

lemma target_owner_unique:
  assumes "target ns ks cur G" and "n \<in> set ns" "n' \<in> set ns" and "p \<in> set (G n)" "p \<in> set (G n')"
  shows "n = n'"
proof -
  have "distinct (concat (map G ns))"
    using assms(1) distinct_fullAssigns unfolding target_def by (metis mset_eq_imp_distinct_iff)
  with assms show ?thesis by (blast intro: owner_unique)
qed

lemma distribute_target:
  assumes inp: "distribute_input ks fs shuffle ro ns cur"
  obtains upd G where "distribute ks fs shuffle ro ns cur = Some upd"
    and "target ns ks cur G" and "updates_to ns cur G upd"
proof -
  obtain m1 pool1 where cap: "cap_nodes (node_quota ns) 0 ns (curNodeAssignMap ns cur ks) (free_pool ns cur fs) = (m1, pool1)"
    by (metis surj_pair)
  define pool2 where "pool2 = (if pool1 = [] then [] else shuffle pool1)"
  have "mset pool2 = mset pool1" using inp by (simp add: pool2_def distribute_input_def)
  from fill_after_cap [OF inp cap this] obtain res chunks where
    fill: "fill_nodes (node_quota ns) 0 ns m1 pool2 Map.empty = Some res"
    and len: "length chunks = length ns" and con: "concat chunks = pool2" and dom: "dom res \<subseteq> set ns"
    and l1: "\<And>j. j < length ns \<Longrightarrow> lookup0 m1 (ns ! j) = take (node_quota ns j) (owned cur ks (ns ! j))"
    and q: "\<And>j. j < length ns \<Longrightarrow> length (chunks ! j) + length (lookup0 m1 (ns ! j)) = node_quota ns j"
    and res: "\<And>j. j < length ns \<Longrightarrow>
      res (ns ! j) = (if chunks ! j = [] then None else Some (lookup0 m1 (ns ! j) @ chunks ! j))"
    and total: "mset pool2 + mset (concat (map (lookup0 m1) ns)) = mset fullAssigns"
    by blast
  define G where "G n = (case res n of None \<Rightarrow> lookup0 m1 n | Some l \<Rightarrow> l)" for n
  have t: "target ns ks cur G"
    using target_of_fill [OF len l1 q res _ G_def] total con by simp
  have kept: "cur p = Some n" if "n \<in> set ns" "p \<in> set (G n)" "res n = None" for p n
  proof -
    from that(1) obtain j where "j < length ns" "n = ns ! j" by (metis in_set_conv_nth)
    with that l1 show ?thesis by (auto simp: G_def owned_def dest: in_set_takeD)
  qed
  have run: "distribute ks fs shuffle ro ns cur =
      (if pool1 = [] then Some Map.empty
       else Some (updatedAssigns cur res (ro (filter (\<lambda>n. res n \<noteq> None) ns))))"
    using inp cap fill unfolding node_quota_def
    by (cases "pool1 = []") (simp_all add: distribute_def Let_def distribute_input_def pool2_def del: not_None_eq)
  show ?thesis
  proof (cases "pool1 = []")
    case True
    then have "\<forall>xs\<in>set chunks. xs = []" using con by (auto simp: pool2_def concat_eq_Nil_conv)
    then have "res n = None" if "n \<in> set ns" for n
      using that res len by (metis in_set_conv_nth nth_mem)
    then have "updates_to ns cur G Map.empty"
      using kept by (auto simp: updates_to_def)
    with True run t that show ?thesis by simp
  next
    case False
    let ?rs = "ro (filter (\<lambda>n. res n \<noteq> None) ns)"
    have rs: "set ?rs = {n \<in> set ns. res n \<noteq> None}"
    proof -
      have "mset ?rs = mset (filter (\<lambda>n. res n \<noteq> None) ns)"
        using inp by (simp add: distribute_input_def)
      then show ?thesis by (metis mset_eq_setD set_filter)
    qed
    have Gres: "lookup0 res n = G n" if "n \<in> set ?rs" for n
      using that rs by (auto simp: G_def)
    have "updatedAssigns cur res ?rs p = Some n \<longleftrightarrow> n \<in> set ?rs \<and> p \<in> set (lookup0 res n) \<and> cur p \<noteq> Some n" for p n
      using target_owner_unique [OF t] rs Gres by (intro updatedAssigns_iff) auto
    moreover have "n \<in> set ?rs \<and> p \<in> set (lookup0 res n) \<and> cur p \<noteq> Some n
        \<longleftrightarrow> n \<in> set ns \<and> p \<in> set (G n) \<and> cur p \<noteq> Some n" for p n
    proof (cases "res n")
      case None
      with kept rs show ?thesis by blast
    next
      case (Some l)
      then have "n \<in> set ?rs \<longleftrightarrow> n \<in> set ns" using rs by simp
      with Gres show ?thesis by metis
    qed
    ultimately have "updates_to ns cur G (updatedAssigns cur res ?rs)"
      unfolding updates_to_def by blast
    with False run t that show ?thesis by simp
  qed
qed

lemma target_new:
  assumes t: "target ns ks cur G" and u: "updates_to ns cur G upd" and d: "dom cur \<subseteq> set fullAssigns"
    and n: "n \<in> set ns"
  shows "(cur ++ upd) p = Some n \<longleftrightarrow> p \<in> set (G n)"
proof
  assume new: "(cur ++ upd) p = Some n"
  show "p \<in> set (G n)"
  proof (cases "upd p")
    case None
    with new have cur: "cur p = Some n" by (simp add: map_add_def)
    then have "p \<in> set (concat (map G ns))"
      using d t unfolding target_def by (metis domI mset_eq_setD subsetD)
    then obtain n' where "n' \<in> set ns" "p \<in> set (G n')" by auto
    with None cur u show ?thesis by (metis option.distinct(1) option.inject updates_to_def)
  qed (use new u in \<open>auto simp: updates_to_def\<close>)
next
  assume p: "p \<in> set (G n)"
  show "(cur ++ upd) p = Some n"
  proof (cases "cur p = Some n")
    case True
    then have "upd p = None"
      using u n p target_owner_unique [OF t _ n _ p] by (metis not_Some_eq updates_to_def)
    with True show ?thesis by (simp add: map_add_def)
  next
    case False
    with n p u have "upd p = Some n" by (simp add: updates_to_def)
    then show ?thesis by simp
  qed
qed

lemma distinct_target: "target ns ks cur G \<Longrightarrow> n \<in> set ns \<Longrightarrow> distinct (G n)"
proof -
  assume "target ns ks cur G" and n: "n \<in> set ns"
  then have "distinct (concat (map G ns))"
    using distinct_fullAssigns unfolding target_def by (metis mset_eq_imp_distinct_iff)
  with n show ?thesis by (induction ns) auto
qed

lemma owned_card:
  assumes "map_order cur ks"
  shows "{p. cur p = Some n} = set (owned cur ks n)" "card {p. cur p = Some n} = length (owned cur ks n)"
proof -
  show s: "{p. cur p = Some n} = set (owned cur ks n)"
    using map_orderD(2) [OF assms] by (auto simp: owned_def)
  show "card {p. cur p = Some n} = length (owned cur ks n)"
    unfolding s using map_orderD(1) [OF assms] by (intro distinct_card) (simp add: owned_def)
qed

lemma target_kept:
  assumes t: "target ns ks cur G" and j: "j < length ns" and mo: "map_order cur ks"
  shows "card (set (owned cur ks (ns ! j)) - set (G (ns ! j))) = length (owned cur ks (ns ! j)) - node_quota ns j"
proof -
  let ?o = "owned cur ks (ns ! j)" and ?q = "node_quota ns j"
  obtain c where c: "G (ns ! j) = take ?q ?o @ c" and len: "length (G (ns ! j)) = ?q"
    using t j by (auto simp: target_def)
  have d: "distinct ?o" using map_orderD(1) [OF mo] by (simp add: owned_def)
  show ?thesis
  proof (cases "?q < length ?o")
    case True
    with c len have "c = []" by simp
    then have "set ?o - set (G (ns ! j)) = set (drop ?q ?o)"
      using c d by (metis Diff_cancel Un_Diff append_Nil2 append_take_drop_id distinct_append
        set_append Diff_triv inf_commute sup_bot.left_neutral)
    with d show ?thesis by (simp add: distinct_card)
  next
    case False
    with c have "set ?o - set (G (ns ! j)) = {}" by auto
    with False show ?thesis by simp
  qed
qed

definition rebalanced :: "int list \<Rightarrow> assigns \<Rightarrow> assigns \<Rightarrow> bool" where
  "rebalanced ns cur upd \<longleftrightarrow>
     (\<forall>p\<in>set fullAssigns. \<exists>n\<in>set ns. (cur ++ upd) p = Some n)
     \<and> (\<forall>j<length ns. card {p. (cur ++ upd) p = Some (ns ! j)} = node_quota ns j)
     \<and> (\<forall>p n. upd p = Some n \<longrightarrow> n \<in> set ns \<and> p \<in> set fullAssigns \<and> cur p \<noteq> Some n)
     \<and> (\<forall>j<length ns. card {p. cur p = Some (ns ! j) \<and> (cur ++ upd) p \<noteq> Some (ns ! j)}
          = card {p. cur p = Some (ns ! j)} - node_quota ns j)"

lemma rebalanced_dom: "rebalanced ns cur upd \<Longrightarrow> dom upd \<subseteq> set fullAssigns"
  by (auto simp: rebalanced_def)

lemma rebalanced_owner:
  "rebalanced ns cur upd \<Longrightarrow> p \<in> set fullAssigns \<Longrightarrow> \<exists>n\<in>set ns. (cur ++ upd) p = Some n"
  by (simp add: rebalanced_def)

lemma distribute_outcome:
  assumes inp: "distribute_input ks fs shuffle ro ns cur"
  obtains upd where "distribute ks fs shuffle ro ns cur = Some upd" and "rebalanced ns cur upd"
proof -
  obtain upd G where r: "distribute ks fs shuffle ro ns cur = Some upd"
    and t: "target ns ks cur G" and u: "updates_to ns cur G upd"
    using distribute_target [OF inp] .
  have d: "dom cur \<subseteq> set fullAssigns" and mo: "map_order cur ks"
    using inp by (simp_all add: distribute_input_def)
  note new = target_new [OF t u d]
  have G: "set (concat (map G ns)) = set fullAssigns"
    using t unfolding target_def by (metis mset_eq_setD)
  have "rebalanced ns cur upd"
    unfolding rebalanced_def
  proof (intro conjI ballI allI impI)
    show "\<exists>n\<in>set ns. (cur ++ upd) p = Some n" if "p \<in> set fullAssigns" for p
      using that new unfolding G [symmetric] by auto
    show "n \<in> set ns" "p \<in> set fullAssigns" "cur p \<noteq> Some n" if "upd p = Some n" for p n
      using that u unfolding G [symmetric] by (auto simp: updates_to_def)
  next
    fix j assume j: "j < length ns"
    have "{p. (cur ++ upd) p = Some (ns ! j)} = set (G (ns ! j))" using new j by auto
    with t j distinct_target [OF t] show "card {p. (cur ++ upd) p = Some (ns ! j)} = node_quota ns j"
      by (simp add: distinct_card target_def)
    have "{p. cur p = Some (ns ! j) \<and> (cur ++ upd) p \<noteq> Some (ns ! j)}
        = set (owned cur ks (ns ! j)) - set (G (ns ! j))"
      using new j owned_card(1) [OF mo] by auto
    with target_kept [OF t j mo] owned_card(2) [OF mo]
    show "card {p. cur p = Some (ns ! j) \<and> (cur ++ upd) p \<noteq> Some (ns ! j)}
          = card {p. cur p = Some (ns ! j)} - node_quota ns j" by simp
  qed
  with r show ?thesis by (rule that)
qed

text \<open>Nothing is sent when every prefix is on a live node and every node has its quota.\<close>

lemma distribute_fixpoint:
  assumes inp: "distribute_input ks fs shuffle ro ns cur"
    and complete: "\<And>p. p \<in> set fullAssigns \<Longrightarrow> \<exists>n\<in>set ns. cur p = Some n"
    and balanced: "\<And>j. j < length ns \<Longrightarrow> card {p. cur p = Some (ns ! j)} = node_quota ns j"
  shows "distribute ks fs shuffle ro ns cur = Some Map.empty"
proof -
  obtain upd where r: "distribute ks fs shuffle ro ns cur = Some upd" and re: "rebalanced ns cur upd"
    using distribute_outcome [OF inp] .
  have fin: "finite {p. cur p = Some n}" for n
    using inp by (intro finite_subset [OF _ map_order_finite [of cur ks]]) (auto simp: distribute_input_def)
  have "upd p = None" for p
  proof (rule ccontr)
    assume "upd p \<noteq> None"
    then obtain n where n: "upd p = Some n" by auto
    with re complete obtain n0 where n0: "n0 \<in> set ns" "cur p = Some n0" by (metis rebalanced_def)
    then obtain j where j: "j < length ns" "n0 = ns ! j" by (metis in_set_conv_nth)
    have "card {p. cur p = Some n0 \<and> (cur ++ upd) p \<noteq> Some n0} = 0"
      using re j balanced [OF j(1)] by (simp add: rebalanced_def)
    then have "{p. cur p = Some n0 \<and> (cur ++ upd) p \<noteq> Some n0} = {}"
      using fin [of n0] by simp
    moreover have "cur p \<noteq> Some n" using n re by (simp add: rebalanced_def)
    ultimately show False using n0 n by auto
  qed
  with r show ?thesis by (metis ext)
qed

section \<open>Properties of the manager\<close>

text \<open>C4: the manager's distribution does not panic, whatever order maps are visited in and
  however the pool is shuffled; after its updates every one of the 256 prefixes belongs to a
  node that is alive, and the j-th node has exactly its quota, so that the loads of two nodes
  differ by at most one.\<close>

theorem distribute_balanced:
  assumes "distribute_input ks fs shuffle ro ns cur"
  shows "\<exists>upd. distribute ks fs shuffle ro ns cur = Some upd
     \<and> (\<forall>p\<in>set fullAssigns. \<exists>n\<in>set ns. (cur ++ upd) p = Some n)
     \<and> (\<forall>j<length ns. card {p. (cur ++ upd) p = Some (ns ! j)}
          = 256 div length ns + (if j < 256 mod length ns then 1 else 0))"
proof -
  obtain upd where r: "distribute ks fs shuffle ro ns cur = Some upd" and re: "rebalanced ns cur upd"
    using distribute_outcome [OF assms] .
  have q: "node_quota ns j = 256 div length ns + (if j < 256 mod length ns then 1 else 0)" for j
    by (simp add: node_quota_def quota_def)
  show ?thesis using r re unfolding rebalanced_def q by blast
qed

text \<open>C8: the distribution moves no more than it must. Only real changes are sent, and a node
  that stays alive loses exactly the prefixes it had above its quota, none if it had no more.\<close>

theorem distribute_minimal:
  assumes "distribute_input ks fs shuffle ro ns cur"
  shows "\<exists>upd. distribute ks fs shuffle ro ns cur = Some upd
     \<and> (\<forall>p n. upd p = Some n \<longrightarrow> n \<in> set ns \<and> p \<in> set fullAssigns \<and> cur p \<noteq> Some n)
     \<and> (\<forall>j<length ns. card {p. cur p = Some (ns ! j) \<and> (cur ++ upd) p \<noteq> Some (ns ! j)}
          = card {p. cur p = Some (ns ! j)} - (256 div length ns + (if j < 256 mod length ns then 1 else 0)))"
proof -
  obtain upd where r: "distribute ks fs shuffle ro ns cur = Some upd" and re: "rebalanced ns cur upd"
    using distribute_outcome [OF assms] .
  have q: "node_quota ns j = 256 div length ns + (if j < 256 mod length ns then 1 else 0)" for j
    by (simp add: node_quota_def quota_def)
  show ?thesis using r re unfolding rebalanced_def q by blast
qed

lemma distribute_input_example: "distribute_input [] fullAssigns id id [1, 2, 3] Map.empty"
  by (simp add: distribute_input_def map_order_def)

theorem distribute_balanced_witness:
  "\<exists>upd. distribute [] fullAssigns id id [1, 2, 3] Map.empty = Some upd
     \<and> card {p. (Map.empty ++ upd) p = Some ([1, 2, 3] ! 0)} = 86"
  using distribute_balanced [OF distribute_input_example] by force

theorem distribute_minimal_witness:
  "\<exists>upd. distribute [] fullAssigns id id [1, 2, 3] Map.empty = Some upd
     \<and> (\<forall>p n. upd p = Some n \<longrightarrow> n \<in> set [1, 2, 3])"
  using distribute_minimal [OF distribute_input_example] by blast

section \<open>Rounds of the manager and ownership\<close>

lemma assign_hash_map_of: "assign_hash as = map_of (rev as)"
  unfolding assign_hash_def by (induction as rule: rev_induct) auto

lemma dom_assign_hash: "dom (assign_hash as) = set (map fst as)"
  by (simp add: assign_hash_map_of dom_map_of_conv_image_fst)

lemma assign_hash_iff: "distinct (map fst as) \<Longrightarrow> assign_hash as p = Some n \<longleftrightarrow> (p, n) \<in> set as"
  by (simp add: assign_hash_map_of map_of_eq_Some_iff rev_map [symmetric])

lemma assign_hash_distinct: "distinct (map fst as) \<Longrightarrow> assign_hash as = map_of as"
proof (rule ext)
  fix p assume "distinct (map fst as)"
  then have "assign_hash as p = Some n \<longleftrightarrow> map_of as p = Some n" for n
    by (simp add: assign_hash_iff)
  then show "assign_hash as p = map_of as p" by (cases "map_of as p") force+
qed

text \<open>What a round is given besides the answers of etcd: permutations.\<close>

definition orders :: "(string list \<Rightarrow> string list) \<Rightarrow> (string list \<Rightarrow> string list) \<Rightarrow> string list
    \<Rightarrow> (string list \<Rightarrow> string list) \<Rightarrow> (int list \<Rightarrow> int list) \<Rightarrow> bool" where
  "orders ko uo fs shuffle ro \<longleftrightarrow>
     (\<forall>xs. mset (ko xs) = mset xs) \<and> (\<forall>xs. mset (uo xs) = mset xs) \<and> mset fs = mset fullAssigns
     \<and> (\<forall>xs. mset (shuffle xs) = mset xs) \<and> (\<forall>xs. mset (ro xs) = mset xs)"

lemma distribute_input_round:
  assumes "orders ko uo fs shuffle ro" and "distinct alive" and "alive \<noteq> []" and "fst ` set as \<subseteq> set fullAssigns"
  shows "distribute_input (ko (remdups (map fst as))) fs shuffle ro (sort alive) (assign_hash as)"
proof -
  have "mset (ko (remdups (map fst as))) = mset (remdups (map fst as))"
    using assms(1) by (simp add: orders_def)
  then have "distinct (ko (remdups (map fst as)))" "set (ko (remdups (map fst as))) = set (map fst as)"
    by (metis distinct_remdups mset_eq_imp_distinct_iff, metis mset_eq_setD set_remdups)
  moreover have "sort alive \<noteq> []" using assms(3) by (metis length_0_conv length_sort)
  ultimately show ?thesis
    using assms by (simp add: distribute_input_def orders_def map_order_def dom_assign_hash)
qed

definition alive_nodes :: "int list \<Rightarrow> int list \<Rightarrow> int list" where
  "alive_nodes hbs nodes = filter (\<lambda>hb. hb \<in> set nodes) hbs"

text \<open>The assignments after a round: the updates that were sent replace the old entries.\<close>

definition after_round :: "(string \<times> int) list \<Rightarrow> 'e outcome \<Rightarrow> assigns" where
  "after_round as r = (case r of Sent us \<Rightarrow> assign_hash as ++ map_of us | _ \<Rightarrow> assign_hash as)"

lemma map_of_updates:
  assumes "mset ks = mset (filter (\<lambda>k. h k \<noteq> None) fullAssigns)" and "dom h \<subseteq> set fullAssigns"
  shows "map_of (map (\<lambda>k. (k, the (h k))) ks) = h" and "map (\<lambda>k. (k, the (h k))) ks = [] \<longleftrightarrow> h = Map.empty"
proof -
  have ks: "set ks = dom h" using mset_eq_setD [OF assms(1)] assms(2) by auto
  show "map_of (map (\<lambda>k. (k, the (h k))) ks) = h"
    by (rule ext) (use ks in \<open>auto simp: map_of_map_restrict restrict_map_def\<close>)
  show "map (\<lambda>k. (k, the (h k))) ks = [] \<longleftrightarrow> h = Map.empty"
    using ks by (metis dom_eq_empty_conv map_is_Nil_conv set_empty)
qed

lemma mgr_round:
  assumes ord: "orders ko uo fs shuffle ro" and d: "distinct hbs" and a: "alive_nodes hbs nodes \<noteq> []"
    and dom: "fst ` set as \<subseteq> set fullAssigns"
  obtains upd where "rebalanced (sort (alive_nodes hbs nodes)) (assign_hash as) upd"
    and "distribute (ko (remdups (map fst as))) fs shuffle ro (sort (alive_nodes hbs nodes)) (assign_hash as) = Some upd"
    and "after_round as (mgr_updateAssigns ko uo fs shuffle ro (Inr hbs) (Inr nodes) (Inr as) (\<lambda>_. None) :: 'e outcome)
      = assign_hash as ++ upd"
    and "upd = Map.empty \<longleftrightarrow>
      mgr_updateAssigns ko uo fs shuffle ro (Inr hbs) (Inr nodes) (Inr as) (\<lambda>_. None) = (Unchanged :: 'e outcome)"
proof -
  have "distinct (alive_nodes hbs nodes)" using d by (simp add: alive_nodes_def)
  from distribute_outcome [OF distribute_input_round [OF ord this a dom]]
  obtain upd where r: "distribute (ko (remdups (map fst as))) fs shuffle ro (sort (alive_nodes hbs nodes)) (assign_hash as) = Some upd"
    and re: "rebalanced (sort (alive_nodes hbs nodes)) (assign_hash as) upd" .
  let ?ks = "uo (filter (\<lambda>k. upd k \<noteq> None) fullAssigns)"
  let ?us = "map (\<lambda>k. (k, the (upd k))) ?ks"
  have "mset ?ks = mset (filter (\<lambda>k. upd k \<noteq> None) fullAssigns)" using ord by (simp add: orders_def)
  moreover have "dom upd \<subseteq> set fullAssigns" using re by (rule rebalanced_dom)
  ultimately have us: "map_of ?us = upd" "?us = [] \<longleftrightarrow> upd = Map.empty"
    by (rule map_of_updates)+
  have run: "mgr_updateAssigns ko uo fs shuffle ro (Inr hbs) (Inr nodes) (Inr as) (\<lambda>_. None)
      = (if upd = Map.empty then Unchanged else Sent ?us :: 'e outcome)"
    using r a us(2) by (simp add: mgr_updateAssigns_def alive_nodes_def Let_def del: not_None_eq)
  show ?thesis
    by (rule that [OF re r]) (simp_all add: run after_round_def us(1) del: not_None_eq)
qed

text \<open>C11: the manager settles after one round. Once the updates of a round are in the store, the
  next round with the same live nodes sends nothing, in whatever order it visits its maps.\<close>

theorem mgr_round_settles:
  assumes "orders ko uo fs shuffle ro" and "orders ko' uo' fs' shuffle' ro'"
    and "distinct hbs" and "alive_nodes hbs nodes \<noteq> []" and "fst ` set as \<subseteq> set fullAssigns"
    and new: "assign_hash as' =
      after_round as (mgr_updateAssigns ko uo fs shuffle ro (Inr hbs) (Inr nodes) (Inr as) (\<lambda>_. None) :: 'e outcome)"
  shows "mgr_updateAssigns ko' uo' fs' shuffle' ro' (Inr hbs) (Inr nodes) (Inr as') (\<lambda>_. None) = (Unchanged :: 'e outcome)"
proof -
  let ?ns = "sort (alive_nodes hbs nodes)"
  obtain upd where re: "rebalanced ?ns (assign_hash as) upd"
    and new': "assign_hash as' = assign_hash as ++ upd"
    using mgr_round [OF assms(1,3,4,5), where ?'e = 'e] new by metis
  have "fst ` set as' = dom upd \<union> fst ` set as"
    using dom_assign_hash [of as'] dom_assign_hash [of as] new' by simp
  then have dom: "fst ` set as' \<subseteq> set fullAssigns"
    using assms(5) rebalanced_dom [OF re] by simp
  obtain upd' where r': "distribute (ko' (remdups (map fst as'))) fs' shuffle' ro' ?ns (assign_hash as') = Some upd'"
    and fin: "upd' = Map.empty \<longleftrightarrow>
      mgr_updateAssigns ko' uo' fs' shuffle' ro' (Inr hbs) (Inr nodes) (Inr as') (\<lambda>_. None) = (Unchanged :: 'e outcome)"
    using mgr_round [OF assms(2,3,4) dom, where ?'e = 'e] by metis
  have inp: "distribute_input (ko' (remdups (map fst as'))) fs' shuffle' ro' ?ns (assign_hash as')"
    using assms(2,3,4) dom by (intro distribute_input_round) (simp_all add: alive_nodes_def)
  have "distribute (ko' (remdups (map fst as'))) fs' shuffle' ro' ?ns (assign_hash as') = Some Map.empty"
    using re by (intro distribute_fixpoint [OF inp]) (simp_all add: new' rebalanced_def)
  with r' fin show ?thesis by simp
qed

theorem mgr_round_settles_witness:
  "let as' = map (\<lambda>p. (p, 7)) fullAssigns in
     mgr_updateAssigns id id fullAssigns id id (Inr [7]) (Inr [7]) (Inr as') (\<lambda>_. None) = (Unchanged :: unit outcome)"
proof -
  let ?as = "map (\<lambda>p. (p, 7)) fullAssigns :: (string \<times> int) list"
  have ord: "orders id id fullAssigns id id" by (simp add: orders_def)
  have a: "alive_nodes [7] [7] \<noteq> []" by (simp add: alive_nodes_def)
  have dom: "fst ` set ?as \<subseteq> set fullAssigns" by force
  let ?r = "mgr_updateAssigns id id fullAssigns id id (Inr [7]) (Inr [7]) (Inr ?as) (\<lambda>_. None) :: unit outcome"
  have same: "assign_hash ?as = after_round ?as ?r"
  proof -
    obtain upd where re: "rebalanced (sort (alive_nodes [7] [7])) (assign_hash ?as) upd"
      and af: "after_round ?as ?r = assign_hash ?as ++ upd"
      using mgr_round [OF ord _ a dom, where ?'e = unit] by (metis distinct_singleton)
    have h: "assign_hash ?as p = Some 7" if "p \<in> set fullAssigns" for p
      using that distinct_fullAssigns assign_hash_iff [of ?as p 7] by (auto simp: o_def)
    have "upd p = None" for p
      using re h by (cases "upd p") (auto simp: rebalanced_def alive_nodes_def)
    then have "upd = Map.empty" by (rule ext)
    with af show ?thesis by simp
  qed
  show ?thesis
    using mgr_round_settles [OF ord ord _ a dom same] by (simp add: Let_def)
qed

lemma node_updateAssigns_iff:
  "fst (node_updateAssigns nodeId as) = {p. (p, nodeId) \<in> set as}"
  "snd (node_updateAssigns nodeId as) = {p. \<exists>n. n \<noteq> nodeId \<and> (p, n) \<in> set as}"
  unfolding node_updateAssigns_def
  by (induction as rule: rev_induct) (auto split: prod.splits)

lemma index_prefix: "take 2 (hex_encode (md5_sum x)) \<in> set fullAssigns"
proof -
  obtain b bs where "md5_sum x = b # bs"
    by (metis length_md5_sum list.exhaust list.size(3) zero_neq_numeral)
  then have "take 2 (hex_encode (md5_sum x)) = hex2 (unat b)"
    by (simp add: hex_encode_def hex2_def)
  with unat_byte_less [of b] show ?thesis by (simp add: fullAssigns_def)
qed

text \<open>C2: after a round of the manager every index has exactly one owner. Among all nodes that
  have read the resulting assignments, exactly one answers that the index is its own, and that
  node is alive.\<close>

theorem index_single_owner:
  assumes "orders ko uo fs shuffle ro" and "distinct hbs" and "alive_nodes hbs nodes \<noteq> []"
    and "fst ` set as \<subseteq> set fullAssigns" and "distinct (map fst as')"
    and new: "assign_hash as' =
      after_round as (mgr_updateAssigns ko uo fs shuffle ro (Inr hbs) (Inr nodes) (Inr as) (\<lambda>_. None) :: 'e outcome)"
  shows "\<exists>n\<in>set (alive_nodes hbs nodes). \<forall>m.
     AssignCheck True (fst (node_updateAssigns m as')) indexName \<longleftrightarrow> m = n"
proof -
  let ?p = "take 2 (hex_encode (md5_sum (bytes_of indexName)))"
  obtain upd where re: "rebalanced (sort (alive_nodes hbs nodes)) (assign_hash as) upd"
    and "assign_hash as' = assign_hash as ++ upd"
    using mgr_round [OF assms(1-4), where ?'e = 'e] new by metis
  with rebalanced_owner [OF re index_prefix, of "bytes_of indexName"]
  obtain n where n: "n \<in> set (alive_nodes hbs nodes)" "assign_hash as' ?p = Some n"
    by (metis set_sort)
  have "AssignCheck True (fst (node_updateAssigns m as')) indexName \<longleftrightarrow> assign_hash as' ?p = Some m" for m
    by (simp add: AssignCheck_def node_updateAssigns_iff assign_hash_iff [OF assms(5)] Let_def)
  with n show ?thesis by auto
qed

theorem index_single_owner_witness:
  "\<exists>as'. \<exists>n\<in>set (alive_nodes [1, 2, 5] [1, 2, 3]). \<forall>m.
     AssignCheck True (fst (node_updateAssigns m as')) ''books'' \<longleftrightarrow> m = n"
proof -
  have ord: "orders id id fullAssigns id id" by (simp add: orders_def)
  have a: "alive_nodes [1, 2, 5] [1, 2, 3] \<noteq> []" by (simp add: alive_nodes_def)
  let ?r = "mgr_updateAssigns id id fullAssigns id id (Inr [1, 2, 5]) (Inr [1, 2, 3]) (Inr []) (\<lambda>_. None) :: unit outcome"
  let ?h = "after_round [] ?r"
  obtain upd where re: "rebalanced (sort (alive_nodes [1, 2, 5] [1, 2, 3])) (assign_hash []) upd"
    and af: "?h = assign_hash [] ++ upd"
    using mgr_round [OF ord _ a, of "[]" thesis, where ?'e = unit] by simp
  let ?as' = "map (\<lambda>k. (k, the (upd k))) (filter (\<lambda>k. upd k \<noteq> None) fullAssigns)"
  have d: "distinct (map fst ?as')" using distinct_fullAssigns by (simp add: o_def)
  have "map_of ?as' = upd" by (rule map_of_updates(1) [OF _ rebalanced_dom [OF re]]) simp
  then have "assign_hash ?as' = upd" unfolding assign_hash_distinct [OF d] .
  with af have new: "assign_hash ?as' = ?h" by (simp add: assign_hash_def)
  have "distinct [1, 2, 5 :: int]" "fst ` set ([] :: (string \<times> int) list) \<subseteq> set fullAssigns" by simp_all
  from index_single_owner [OF ord this(1) a this(2) d new, of "''books''"] show ?thesis by blast
qed

end
