(* ===== verification/Alias_List.thy ===== *)
theory Alias_List
  imports Go_Runtime
begin

text \<open>
  \<^verbatim>\<open>pkg/core/aliaslist.go\<close>: the aliases of indexes. The list is a map from an alias to
  the slice of its indexes. Its specification is the relation between aliases and
  indexes.
\<close>

section \<open>Model\<close>

type_synonym alias_list = "string \<rightharpoonup> string list"

text \<open>\<^verbatim>\<open>SliceExists\<close> of \<^verbatim>\<open>pkg/zutils/strings.go\<close>.\<close>

fun SliceExists :: "string list \<Rightarrow> string \<Rightarrow> bool" where
  "SliceExists [] x = False"
| "SliceExists (s # rest) x = (if s = x then True else SliceExists rest x)"

definition alias_slice :: "alias_list \<Rightarrow> string \<Rightarrow> string list" where
  "alias_slice al alias = (case al alias of None \<Rightarrow> [] | Some idx \<Rightarrow> idx)"

definition NewAliasList :: alias_list where
  "NewAliasList = Map.empty"

text \<open>
  Saving the list in the metadata store may fail; \<open>save\<close> is the error it returns. The
  list in memory has changed by then.
\<close>

definition AddIndexesToAlias :: "(alias_list \<Rightarrow> error option) \<Rightarrow> alias_list \<Rightarrow> string \<Rightarrow> string list
    \<Rightarrow> alias_list \<times> error option" where
  "AddIndexesToAlias save al alias indexes =
     (let al' = al(alias \<mapsto> alias_slice al alias @ indexes) in (al', save al'))"

text \<open>The removal loop swaps an index to be removed with the last one of the part still in
  use and shortens that part; \<^verbatim>\<open>i--\<close> makes it look at the same position again.\<close>

function remove_loop :: "string set \<Rightarrow> nat \<Rightarrow> nat \<Rightarrow> string list \<Rightarrow> nat \<times> string list" where
  "remove_loop rm i lastIndex xs =
     (if i < lastIndex then
        (if xs ! i \<in> rm
         then remove_loop rm i (lastIndex - 1) (xs[lastIndex - 1 := xs ! i, i := xs ! (lastIndex - 1)])
         else remove_loop rm (i + 1) lastIndex xs)
      else (lastIndex, xs))"
  by pat_completeness auto
termination
  by (relation "measure (\<lambda>(_, i, l, _). l - i)") auto

declare remove_loop.simps [simp del]

definition RemoveIndexesFromAlias :: "(alias_list \<Rightarrow> error option) \<Rightarrow> alias_list \<Rightarrow> string \<Rightarrow> string list
    \<Rightarrow> alias_list \<times> error option" where
  "RemoveIndexesFromAlias save al alias removeIndexes =
     (case al alias of
        None \<Rightarrow> (al, None)
      | Some indexes \<Rightarrow>
          let (lastIndex, xs) = remove_loop (set removeIndexes) 0 (length indexes) indexes;
              al' = al(alias \<mapsto> take lastIndex xs)
          in (al', save al'))"

definition GetIndexesForAlias :: "alias_list \<Rightarrow> string \<Rightarrow> string list \<times> bool" where
  "GetIndexesForAlias al aliasName = (case al aliasName of None \<Rightarrow> ([], False) | Some idx \<Rightarrow> (idx, True))"

text \<open>\<open>ks\<close> is the order in which the map is ranged over.\<close>

definition GetAliasesForIndex :: "string list \<Rightarrow> alias_list \<Rightarrow> string \<Rightarrow> string list" where
  "GetAliasesForIndex ks al indexName = filter (\<lambda>alias. SliceExists (alias_slice al alias) indexName) ks"

text \<open>The result maps an index to the set under its key \<^verbatim>\<open>"aliases"\<close>, which is made
  when the index is first met.\<close>

definition put_alias :: "string \<Rightarrow> (string \<rightharpoonup> string set) \<Rightarrow> string \<Rightarrow> (string \<rightharpoonup> string set)" where
  "put_alias alias m index =
     (case m index of None \<Rightarrow> m(index \<mapsto> {alias}) | Some aliases \<Rightarrow> m(index \<mapsto> insert alias aliases))"

definition put_aliases :: "string list \<Rightarrow> string \<Rightarrow> (string \<rightharpoonup> string set) \<Rightarrow> string list \<Rightarrow> (string \<rightharpoonup> string set)" where
  "put_aliases targetIndexes alias m indexes =
     foldl (\<lambda>m index. if targetIndexes \<noteq> [] \<and> \<not> SliceExists targetIndexes index then m
                      else put_alias alias m index) m indexes"

definition GetAliasMap :: "string list \<Rightarrow> alias_list \<Rightarrow> string list \<Rightarrow> string list \<Rightarrow> (string \<rightharpoonup> string set)" where
  "GetAliasMap ks al targetIndexes targetAliases =
     foldl (\<lambda>m alias. if targetAliases \<noteq> [] \<and> \<not> SliceExists targetAliases alias then m
                      else put_aliases targetIndexes alias m (alias_slice al alias)) Map.empty ks"

section \<open>The removal loop\<close>

lemma SliceExists_iff [simp]: "SliceExists xs x \<longleftrightarrow> x \<in> set xs"
  by (induction xs) auto

lemma mset_swap_update:
  "i < length xs \<Longrightarrow> j < length xs \<Longrightarrow> mset (xs[j := xs ! i, i := xs ! j]) = mset xs"
  using mset_swap [of i xs j] by (simp add: list_update_swap)

lemma remove_loop_spec:
  assumes "i \<le> l" and "l \<le> length xs"
    and "\<forall>k<i. xs ! k \<notin> rm" and "\<forall>k. l \<le> k \<and> k < length xs \<longrightarrow> xs ! k \<in> rm"
    and "remove_loop rm i l xs = (l', xs')"
  shows "l' \<le> length xs' \<and> mset xs' = mset xs \<and> (\<forall>k<l'. xs' ! k \<notin> rm)
     \<and> (\<forall>k. l' \<le> k \<and> k < length xs' \<longrightarrow> xs' ! k \<in> rm)"
  using assms
proof (induction rm i l xs rule: remove_loop.induct)
  case (1 rm i l xs)
  consider "i < l" "xs ! i \<in> rm" | "i < l" "xs ! i \<notin> rm" | "i = l" using "1.prems"(1) by linarith
  then show ?case
  proof cases
    case 1
    let ?ys = "xs[l - 1 := xs ! i, i := xs ! (l - 1)]"
    have len: "i < length xs" "l - 1 < length xs" using 1(1) "1.prems"(2) by simp_all
    have "remove_loop rm i (l - 1) ?ys = (l', xs')"
      using "1.prems"(5) 1 by (simp add: remove_loop.simps [of rm i l])
    moreover have "\<forall>k<i. ?ys ! k \<notin> rm"
      using "1.prems"(3) 1(1) by (simp add: nth_list_update)
    moreover have "?ys ! k \<in> rm" if "l - 1 \<le> k" "k < length ?ys" for k
    proof (cases "k = l - 1")
      case True
      with 1 len show ?thesis by (cases "i = l - 1") (simp_all add: nth_list_update)
    next
      case False
      with that have "l \<le> k" by linarith
      with that 1(1) "1.prems"(4) show ?thesis by simp
    qed
    ultimately show ?thesis
      using "1.IH"(1) [OF 1] 1(1) "1.prems"(2) mset_swap_update [OF len] by simp
  next
    case 2
    then have "remove_loop rm (i + 1) l xs = (l', xs')"
      using "1.prems"(5) by (simp add: remove_loop.simps [of rm i l])
    then show ?thesis using "1.IH"(2) [OF 2] "1.prems" 2 by (simp add: less_Suc_eq)
  next
    case 3
    then show ?thesis using "1.prems" by (simp add: remove_loop.simps [of rm l l])
  qed
qed

lemma remove_loop_filter:
  assumes "remove_loop rm 0 (length xs) xs = (l, ys)"
  shows "mset (take l ys) = filter_mset (\<lambda>x. x \<notin> rm) (mset xs)"
proof -
  have s: "l \<le> length ys" "mset ys = mset xs" "\<forall>k<l. ys ! k \<notin> rm" "\<forall>k. l \<le> k \<and> k < length ys \<longrightarrow> ys ! k \<in> rm"
    using remove_loop_spec [OF _ _ _ _ assms] by force+
  have "\<forall>x\<in>set (take l ys). x \<notin> rm" using s(1,3) by (auto simp: in_set_conv_nth)
  moreover have "\<forall>x\<in>set (drop l ys). x \<in> rm"
    using s(1,4) by (auto simp: in_set_conv_nth)
  ultimately have "filter (\<lambda>x. x \<notin> rm) (take l ys @ drop l ys) = take l ys"
    unfolding filter_append by simp
  then show ?thesis using s(2) by (metis append_take_drop_id mset_filter)
qed

section \<open>Specification: a relation\<close>

text \<open>What the callers see: adding and removing pairs, and both directions of lookup.\<close>

datatype alias_op = AddTo string "string list" | RemoveFrom string "string list"

fun spec_step :: "(string \<times> string) set \<Rightarrow> alias_op \<Rightarrow> (string \<times> string) set" where
  "spec_step R (AddTo a xs) = R \<union> {a} \<times> set xs"
| "spec_step R (RemoveFrom a xs) = R - {a} \<times> set xs"

locale alias_store =
  fixes rel :: "'al \<Rightarrow> (string \<times> string) set"
    and add :: "'al \<Rightarrow> string \<Rightarrow> string list \<Rightarrow> 'al"
    and remove :: "'al \<Rightarrow> string \<Rightarrow> string list \<Rightarrow> 'al"
  assumes rel_add: "rel (add al a xs) = rel al \<union> {a} \<times> set xs"
    and rel_remove: "rel (remove al a xs) = rel al - {a} \<times> set xs"
begin

fun step :: "'al \<Rightarrow> alias_op \<Rightarrow> 'al" where
  "step al (AddTo a xs) = add al a xs"
| "step al (RemoveFrom a xs) = remove al a xs"

lemma rel_step: "rel (step al op) = spec_step (rel al) op"
  by (cases op) (simp_all add: rel_add rel_remove)

lemma rel_run: "rel (foldl step al ops) = foldl spec_step (rel al) ops"
  by (induction ops arbitrary: al) (simp_all add: rel_step)

end

definition alias_rel :: "alias_list \<Rightarrow> (string \<times> string) set" where
  "alias_rel al = {(a, i). i \<in> set (alias_slice al a)}"

lemma alias_slice_upd [simp]: "alias_slice (al(a \<mapsto> xs)) b = (if b = a then xs else alias_slice al b)"
  by (simp add: alias_slice_def)

lemma alias_rel_iff: "(b, i) \<in> alias_rel al \<longleftrightarrow> i \<in> set (alias_slice al b)"
  by (simp add: alias_rel_def)

lemma alias_rel_remove:
  "alias_rel (fst (RemoveIndexesFromAlias save al a xs)) = alias_rel al - {a} \<times> set xs"
proof (cases "al a")
  case None
  then have "alias_slice al a = []" by (simp add: alias_slice_def)
  with None show ?thesis by (auto simp: RemoveIndexesFromAlias_def alias_rel_def)
next
  case (Some idx)
  obtain l ys where r: "remove_loop (set xs) 0 (length idx) idx = (l, ys)" by fastforce
  have set: "set (take l ys) = set (alias_slice al a) - set xs"
    using arg_cong [OF remove_loop_filter [OF r], of set_mset] Some by (auto simp: alias_slice_def)
  have al: "fst (RemoveIndexesFromAlias save al a xs) = al(a \<mapsto> take l ys)"
    using Some r by (simp add: RemoveIndexesFromAlias_def Let_def)
  have "(b, i) \<in> alias_rel (al(a \<mapsto> take l ys)) \<longleftrightarrow> (b, i) \<in> alias_rel al - {a} \<times> set xs" for b i
    using set by (cases "b = a") (simp_all add: alias_rel_iff)
  then show ?thesis unfolding al by (metis subsetI subset_antisym surj_pair)
qed

interpretation al: alias_store alias_rel "\<lambda>al a xs. fst (AddIndexesToAlias save al a xs)"
    "\<lambda>al a xs. fst (RemoveIndexesFromAlias save al a xs)" for save :: "alias_list \<Rightarrow> error option"
proof unfold_locales
  show "alias_rel (fst (AddIndexesToAlias save al a xs)) = alias_rel al \<union> {a} \<times> set xs" for al a xs
    by (auto simp: AddIndexesToAlias_def alias_rel_def Let_def split: if_splits)
qed (rule alias_rel_remove)

text \<open>The entry of an index in the alias map under construction, and what one step of the inner
  loop adds to it.\<close>

definition alias_entry :: "(string \<rightharpoonup> string set) \<Rightarrow> string \<Rightarrow> string set" where
  "alias_entry m i = (case m i of None \<Rightarrow> {} | Some s \<Rightarrow> s)"

lemma alias_entry_step:
  "alias_entry (put_alias x m y) i
   = (if y = i then insert x (alias_entry m i) else alias_entry m i)"
  by (simp add: alias_entry_def put_alias_def split: option.split)

lemma alias_entry_inner:
  "alias_entry (put_aliases tis x m xs) i
   = (if i \<in> set xs \<and> (tis = [] \<or> i \<in> set tis) then insert x (alias_entry m i) else alias_entry m i)"
  unfolding put_aliases_def
proof (induction xs rule: rev_induct)
  case (snoc y ys)
  then show ?case by (auto simp: alias_entry_step)
qed simp

lemma GetAliasMap_rel:
  assumes "map_order al ks"
  shows "alias_entry (GetAliasMap ks al tis tas) i
    = {a. (a, i) \<in> alias_rel al \<and> (tas = [] \<or> a \<in> set tas) \<and> (tis = [] \<or> i \<in> set tis)}"
proof -
  have "alias_entry (GetAliasMap xs al tis tas) i
      = {a \<in> set xs. (a, i) \<in> alias_rel al \<and> (tas = [] \<or> a \<in> set tas) \<and> (tis = [] \<or> i \<in> set tis)}" for xs
  proof (induction xs rule: rev_induct)
    case Nil
    show ?case by (simp add: GetAliasMap_def alias_entry_def)
  next
    case (snoc x xs)
    let ?M = "GetAliasMap xs al tis tas"
    have "GetAliasMap (xs @ [x]) al tis tas
        = (if tas \<noteq> [] \<and> x \<notin> set tas then ?M else put_aliases tis x ?M (alias_slice al x))"
      by (simp only: GetAliasMap_def foldl_append foldl.simps SliceExists_iff)
    then have "alias_entry (GetAliasMap (xs @ [x]) al tis tas) i
        = (if tas \<noteq> [] \<and> x \<notin> set tas then alias_entry ?M i
           else if i \<in> set (alias_slice al x) \<and> (tis = [] \<or> i \<in> set tis)
                then insert x (alias_entry ?M i) else alias_entry ?M i)"
      by (simp only: if_distrib [of "\<lambda>m. alias_entry m i"] alias_entry_inner)
    then show ?case unfolding snoc alias_rel_iff by auto
  qed
  moreover have "a \<in> set ks" if "(a, i) \<in> alias_rel al" for a
    using that map_orderD(2) [OF assms] by (force simp: alias_rel_def alias_slice_def split: option.splits)
  ultimately show ?thesis by auto
qed

section \<open>Properties\<close>

definition alias_step :: "(alias_list \<Rightarrow> error option) \<Rightarrow> alias_list \<Rightarrow> alias_op \<Rightarrow> alias_list" where
  "alias_step save al op = (case op of
      AddTo a xs \<Rightarrow> fst (AddIndexesToAlias save al a xs)
    | RemoveFrom a xs \<Rightarrow> fst (RemoveIndexesFromAlias save al a xs))"

definition alias_run :: "(alias_list \<Rightarrow> error option) \<Rightarrow> alias_op list \<Rightarrow> alias_list" where
  "alias_run save ops = foldl (alias_step save) NewAliasList ops"

lemma alias_rel_run: "alias_rel (alias_run save ops) = foldl spec_step {} ops"
proof -
  have "alias_step save al op = al.step save al op" for al op
    by (cases op) (simp_all add: alias_step_def)
  then have "alias_step save = al.step save" by (simp add: fun_eq_iff)
  moreover have "alias_rel NewAliasList = {}"
    by (simp add: alias_rel_def NewAliasList_def alias_slice_def)
  ultimately show ?thesis using al.rel_run [of save NewAliasList ops] by (simp add: alias_run_def)
qed

text \<open>C26: the alias list implements a relation between aliases and indexes. After any sequence of
  additions and removals, starting from an empty list, an index is listed under an alias
  exactly when the pair was added and not removed since; the reverse lookup and the alias map
  give the same relation, whatever order the map is ranged over.\<close>

theorem alias_list_refines:
  assumes "map_order (alias_run save ops) ks"
  shows "(i \<in> set (fst (GetIndexesForAlias (alias_run save ops) a)) \<longleftrightarrow> (a, i) \<in> foldl spec_step {} ops)
    \<and> set (GetAliasesForIndex ks (alias_run save ops) i) = {a. (a, i) \<in> foldl spec_step {} ops}
    \<and> alias_entry (GetAliasMap ks (alias_run save ops) [] []) i = {a. (a, i) \<in> foldl spec_step {} ops}"
proof -
  let ?al = "alias_run save ops"
  have "fst (GetIndexesForAlias ?al a) = alias_slice ?al a"
    by (simp add: GetIndexesForAlias_def alias_slice_def split: option.split)
  moreover have "b \<in> set ks" if "i \<in> set (alias_slice ?al b)" for b
    using that map_orderD(2) [OF assms] by (force simp: alias_slice_def split: option.splits)
  ultimately show ?thesis
    unfolding alias_rel_run [of save ops, symmetric] using GetAliasMap_rel [OF assms, of "[]" "[]" i]
    by (auto simp: GetAliasesForIndex_def alias_rel_def)
qed

theorem alias_list_refines_witness:
  "let al = alias_run (\<lambda>_. None :: error option) [AddTo ''all'' [''a'', ''b''], RemoveFrom ''all'' [''a'']] in
     map_order al [''all''] \<and> GetAliasesForIndex [''all''] al ''a'' = [] \<and> set (GetAliasesForIndex [''all''] al ''b'') = {''all''}"
proof -
  let ?ops = "[AddTo ''all'' [''a'', ''b''], RemoveFrom ''all'' [''a'']]"
  let ?al = "alias_run (\<lambda>_. None :: error option) ?ops"
  have "remove_loop (set [''a'']) 0 2 [''a'', ''b''] = (1, [''b'', ''a''])" by code_simp
  then have mo: "map_order ?al [''all'']"
    by (simp add: map_order_def alias_run_def alias_step_def NewAliasList_def AddIndexesToAlias_def
        RemoveIndexesFromAlias_def alias_slice_def numeral_2_eq_2)
  have ops: "foldl spec_step {} ?ops = {(''all'', ''b'')}" by auto
  have "set (GetAliasesForIndex [''all''] ?al i) = {a. (a, i) \<in> {(''all'', ''b'')}}" for i
    using alias_list_refines [OF mo] unfolding ops by blast
  from mo this [of "''a''"] this [of "''b''"] show ?thesis by (simp add: Let_def)
qed

end
