(* ===== verification/Redo_Log.thy ===== *)
theory Redo_Log
  imports Go_Runtime
begin

text \<open>
  \<^verbatim>\<open>pkg/wal/redo/redo.go\<close>: the redo log of a shard, a file of records of 80 bytes: the key
  and the length of the value as little-endian 64-bit words, then 64 bytes for the value. The
  log is kept in memory and written out whole by every \<^verbatim>\<open>Write\<close>.
\<close>

section \<open>Model\<close>

datatype redo_error = ErrNotFound | ErrValueTooLarge | ErrIO error | Panic

record redo_log =
  index :: "uint64 \<rightharpoonup> nat"
  data :: "byte list"
  disk :: "byte list"

definition ValueFixedLength :: nat where
  "ValueFixedLength = 64"

definition put_uint64 :: "uint64 \<Rightarrow> byte list" where
  "put_uint64 w = map of_nat (le_fixed 256 8 (unat w))"

definition get_uint64 :: "byte list \<Rightarrow> uint64" where
  "get_uint64 bs = of_nat (le_val 256 (map unat bs))"

text \<open>A slice expression \<^verbatim>\<open>xs[a:b]\<close> and \<^verbatim>\<open>copy\<close> into the slice that starts at \<open>a\<close>. A slice
  that reaches past the data panics (Go allows it up to the capacity of the slice; with
  whole records this does not happen).\<close>

definition sub_slice :: "'a list \<Rightarrow> nat \<Rightarrow> nat \<Rightarrow> 'a list option" where
  "sub_slice xs a b = (if a \<le> b \<and> b \<le> length xs then Some (take (b - a) (drop a xs)) else None)"

definition write_at :: "'a list \<Rightarrow> nat \<Rightarrow> 'a list \<Rightarrow> 'a list" where
  "write_at xs a bs = take a xs @ bs @ drop (a + length bs) xs"

text \<open>Scanning the file for the offsets of the keys.\<close>

function open_loop :: "byte list \<Rightarrow> nat \<Rightarrow> (uint64 \<rightharpoonup> nat) \<Rightarrow> (uint64 \<rightharpoonup> nat) option" where
  "open_loop d n idx =
     (if n < length d then
        (case sub_slice d n (n + 8) of
           None \<Rightarrow> None
         | Some bs \<Rightarrow> open_loop d (n + 8 + 8 + ValueFixedLength) (idx(get_uint64 bs \<mapsto> n + 8)))
      else Some idx)"
  by pat_completeness auto
termination
  by (relation "measure (\<lambda>(d, n, _). length d - n)") auto

declare open_loop.simps [simp del]

text \<open>\<open>content\<close> is the content of the file, empty when it was created; errors of the file
  system are errors of the call.\<close>

definition Open :: "error + byte list \<Rightarrow> redo_error + redo_log" where
  "Open content =
     (case content of
        Inl e \<Rightarrow> Inl (ErrIO e)
      | Inr d \<Rightarrow> (case open_loop d 0 Map.empty of
            None \<Rightarrow> Inl Panic
          | Some idx \<Rightarrow> Inr \<lparr>index = idx, data = d, disk = d\<rparr>))"

text \<open>A record is overwritten in place, or appended with a zeroed value.\<close>

definition put_record :: "redo_log \<Rightarrow> uint64 \<Rightarrow> byte list \<Rightarrow> redo_log" where
  "put_record l key bs =
     (case index l key of
        Some offset \<Rightarrow>
          let d = write_at (data l) offset (put_uint64 (of_nat (length bs)));
              d = write_at d (offset + 8) bs
          in l\<lparr>data := d\<rparr>
      | None \<Rightarrow>
          let offset = length (data l);
              d = data l @ replicate (8 + 8 + ValueFixedLength) 0;
              d = write_at d offset (put_uint64 key);
              offset = offset + 8;
              d = write_at d offset (put_uint64 (of_nat (length bs)));
              d = write_at d (offset + 8) bs
          in l\<lparr>data := d, index := (index l)(key \<mapsto> offset)\<rparr>)"

text \<open>\<open>io\<close> are the errors of writing and of syncing the file. The file is written from its
  start and never gets shorter.\<close>

definition store_file :: "byte list \<Rightarrow> byte list \<Rightarrow> byte list" where
  "store_file old d = write_at old 0 d"

definition Write :: "error option \<times> error option \<Rightarrow> bool \<Rightarrow> redo_log \<Rightarrow> uint64 \<Rightarrow> byte list
    \<Rightarrow> redo_log \<times> redo_error option" where
  "Write io noSync l key bs =
     (if ValueFixedLength < length bs then (l, Some ErrValueTooLarge)
      else let l' = put_record l key bs in
        case fst io of
          Some e \<Rightarrow> (l', Some (ErrIO e))
        | None \<Rightarrow>
            let l'' = l'\<lparr>disk := store_file (disk l') (data l')\<rparr> in
            if noSync then (l'', None) else (l'', map_option ErrIO (snd io)))"

definition Read :: "redo_log \<Rightarrow> uint64 \<Rightarrow> redo_error + byte list" where
  "Read l key =
     (case index l key of
        None \<Rightarrow> Inl ErrNotFound
      | Some offset \<Rightarrow>
          (case sub_slice (data l) offset (offset + 8) of
             None \<Rightarrow> Inl Panic
           | Some bs \<Rightarrow>
               let valueLen = unat (get_uint64 bs) in
               (case sub_slice (data l) (offset + 8) (offset + 8 + valueLen) of
                  None \<Rightarrow> Inl Panic
                | Some v \<Rightarrow> Inr v)))"

definition Close :: "error option \<times> error option \<Rightarrow> redo_log \<Rightarrow> redo_log \<times> redo_error option" where
  "Close io l =
     (let l' = l\<lparr>index := Map.empty, data := []\<rparr> in
      case fst io of
        Some e \<Rightarrow> (l', Some (ErrIO e))
      | None \<Rightarrow> (l', map_option ErrIO (snd io)))"

section \<open>Words and slices\<close>

lemma length_put_uint64 [simp]: "length (put_uint64 w) = 8"
  by (simp add: put_uint64_def)

lemma get_put_uint64 [simp]: "get_uint64 (put_uint64 w) = w"
proof -
  have "unat w < 2 ^ LENGTH(64)" by (rule unsigned_less)
  then have "unat w < 256 ^ 8" by simp
  then show ?thesis by (simp add: get_uint64_def put_uint64_def unat_of_le_fixed le_val_fixed del: map_map)
qed

lemma write_at_middle [simp]:
  "length bs = length ys \<Longrightarrow> a = length xs \<Longrightarrow> write_at (xs @ ys @ zs) a bs = xs @ bs @ zs"
  by (simp add: write_at_def)

lemma sub_slice_middle [simp]:
  "a = length xs \<Longrightarrow> b = length xs + length ys \<Longrightarrow> sub_slice (xs @ ys @ zs) a b = Some ys"
  by (simp add: sub_slice_def)

section \<open>Records\<close>

text \<open>A record: its key, the length of its value, and the 64 bytes of which the value is the
  beginning.\<close>

type_synonym rec = "uint64 \<times> nat \<times> byte list"

fun rec_ok :: "rec \<Rightarrow> bool" where
  "rec_ok (k, n, v) \<longleftrightarrow> n \<le> 64 \<and> length v = 64"

fun rec_bytes :: "rec \<Rightarrow> byte list" where
  "rec_bytes (k, n, v) = put_uint64 k @ put_uint64 (of_nat n) @ v"

fun rec_value :: "rec \<Rightarrow> byte list" where
  "rec_value (k, n, v) = take n v"

definition recs_bytes :: "rec list \<Rightarrow> byte list" where
  "recs_bytes rs = concat (map rec_bytes rs)"

fun offsets :: "nat \<Rightarrow> rec list \<Rightarrow> (uint64 \<rightharpoonup> nat)" where
  "offsets n [] = Map.empty"
| "offsets n (r # rs) = offsets (n + 80) rs ++ [fst r \<mapsto> n + 8]"

definition contents :: "rec list \<Rightarrow> (uint64 \<rightharpoonup> byte list)" where
  "contents rs = map_of (map (\<lambda>r. (fst r, rec_value r)) rs)"

text \<open>The log represents a list of records with different keys, and the file holds the same
  bytes as the memory.\<close>

definition represents :: "redo_log \<Rightarrow> rec list \<Rightarrow> bool" where
  "represents l rs \<longleftrightarrow> (\<forall>r\<in>set rs. rec_ok r) \<and> distinct (map fst rs)
     \<and> data l = recs_bytes rs \<and> disk l = recs_bytes rs \<and> index l = offsets 0 rs"

lemma length_rec_bytes: "rec_ok r \<Longrightarrow> length (rec_bytes r) = 80"
  by (cases r) simp

lemma length_recs_bytes: "\<forall>r\<in>set rs. rec_ok r \<Longrightarrow> length (recs_bytes rs) = 80 * length rs"
  by (induction rs) (simp_all add: recs_bytes_def length_rec_bytes)

lemma recs_bytes_simps [simp]: "recs_bytes [] = []" "recs_bytes (r # rs) = rec_bytes r @ recs_bytes rs"
  by (simp_all add: recs_bytes_def)

lemma recs_bytes_append: "recs_bytes (xs @ ys) = recs_bytes xs @ recs_bytes ys"
  by (simp add: recs_bytes_def)

lemma offsets_None: "k \<notin> fst ` set rs \<Longrightarrow> offsets n rs k = None"
  by (induction rs arbitrary: n) auto

lemma offsets_middle:
  "distinct (map fst (xs @ r # ys)) \<Longrightarrow> offsets n (xs @ r # ys) (fst r) = Some (n + 80 * length xs + 8)"
proof (induction xs arbitrary: n)
  case (Cons x xs)
  then have "fst r \<noteq> fst x" by auto
  with Cons show ?case by (simp add: map_add_Some_iff)
qed simp

lemma offsets_snoc:
  "fst r \<notin> fst ` set rs \<Longrightarrow> offsets n (rs @ [r]) = (offsets n rs)(fst r \<mapsto> n + 80 * length rs + 8)"
proof (induction rs arbitrary: n)
  case (Cons x rs)
  then show ?case by (auto simp: map_add_def split: option.split)
qed simp

lemma offsets_cong: "map fst rs = map fst ss \<Longrightarrow> offsets n rs = offsets n ss"
proof (induction rs arbitrary: n ss)
  case (Cons r rs)
  then obtain s ss' where "ss = s # ss'" "fst r = fst s" "map fst rs = map fst ss'" by auto
  with Cons.IH [of ss'] show ?case by simp
qed simp

lemma split_record:
  assumes "k \<in> fst ` set rs"
  obtains xs n v ys where "rs = xs @ (k, n, v) # ys"
  using assms by (metis (no_types, lifting) imageE prod.collapse split_list)

lemma contents_middle:
  assumes "distinct (map fst (xs @ (k, n, v) # ys))"
  shows "contents (xs @ (k, n, v) # ys) k = Some (take n v)"
    and "contents (xs @ (k, n', v') # ys) = (contents (xs @ (k, n, v) # ys))(k \<mapsto> take n' v')"
proof -
  have k: "k \<notin> fst ` set xs" using assms by auto
  then have none: "map_of (map (\<lambda>r. (fst r, rec_value r)) xs) k = None"
    by (force simp: map_of_eq_None_iff)
  then show "contents (xs @ (k, n, v) # ys) k = Some (take n v)"
    by (simp add: contents_def map_add_Some_iff)
  show "contents (xs @ (k, n', v') # ys) = (contents (xs @ (k, n, v) # ys))(k \<mapsto> take n' v')"
    using none by (auto simp: contents_def map_add_def fun_eq_iff split: option.split)
qed

lemma contents_None: "k \<notin> fst ` set rs \<Longrightarrow> contents rs k = None"
  by (force simp: contents_def map_of_eq_None_iff)

lemma Read_contents:
  assumes "represents l rs"
  shows "Read l k = (case contents rs k of None \<Rightarrow> Inl ErrNotFound | Some v \<Rightarrow> Inr v)"
proof (cases "k \<in> fst ` set rs")
  case False
  with assms show ?thesis by (simp add: Read_def represents_def offsets_None contents_None)
next
  case True
  then obtain xs n v ys where rs: "rs = xs @ (k, n, v) # ys" by (rule split_record)
  have ok: "\<forall>r\<in>set xs. rec_ok r" "n \<le> 64" "length v = 64" and d: "distinct (map fst rs)"
    using assms by (auto simp: represents_def rs)
  let ?pre = "recs_bytes xs @ put_uint64 k"
  have data: "data l = ?pre @ put_uint64 (of_nat n) @ v @ recs_bytes ys"
    using assms by (simp add: represents_def rs recs_bytes_append)
  have off: "index l k = Some (length ?pre)"
    using assms d offsets_middle [of xs "(k, n, v)" ys 0] by (simp add: represents_def rs length_recs_bytes ok)
  have len: "sub_slice (data l) (length ?pre) (length ?pre + 8) = Some (put_uint64 (of_nat n))"
    unfolding data by (rule sub_slice_middle) simp_all
  have "unat (of_nat n :: uint64) = n" using ok(2) by (simp add: unat_of_nat)
  moreover have "sub_slice (data l) (length ?pre + 8) (length ?pre + 8 + n) = Some (take n v)"
  proof -
    have "data l = (?pre @ put_uint64 (of_nat n)) @ take n v @ drop n v @ recs_bytes ys"
      using data by simp
    then show ?thesis using ok by (simp only:) (rule sub_slice_middle; simp)
  qed
  ultimately show ?thesis
    using off len contents_middle(1) [of xs k n v ys] d by (simp add: Read_def rs)
qed

lemma store_file_longer: "length old \<le> length d \<Longrightarrow> store_file old d = d"
  by (simp add: store_file_def write_at_def)

lemma Write_overwrite:
  assumes rep: "represents l (xs @ (k, n, v) # ys)" and len: "length bs \<le> 64"
  shows "represents (fst (Write (None, sy) noSync l k bs))
     (xs @ (k, length bs, bs @ drop (length bs) v) # ys)"
proof -
  let ?rs = "xs @ (k, n, v) # ys" and ?rs' = "xs @ (k, length bs, bs @ drop (length bs) v) # ys"
  let ?pre = "recs_bytes xs @ put_uint64 k"
  have ok: "\<forall>r\<in>set xs. rec_ok r" "\<forall>r\<in>set ys. rec_ok r" "length v = 64" and d: "distinct (map fst ?rs)"
    using rep by (auto simp: represents_def)
  have data: "data l = ?pre @ put_uint64 (of_nat n) @ v @ recs_bytes ys"
    using rep by (simp add: represents_def recs_bytes_append)
  have off: "index l k = Some (length ?pre)"
    using rep d offsets_middle [of xs "(k, n, v)" ys 0] by (simp add: represents_def length_recs_bytes ok)
  have "write_at (data l) (length ?pre) (put_uint64 (of_nat (length bs)))
      = ?pre @ put_uint64 (of_nat (length bs)) @ v @ recs_bytes ys"
    unfolding data by (rule write_at_middle) simp_all
  moreover have "write_at (?pre @ put_uint64 (of_nat (length bs)) @ v @ recs_bytes ys) (length ?pre + 8) bs
      = recs_bytes ?rs'"
  proof -
    have eq: "?pre @ put_uint64 (of_nat (length bs)) @ v @ recs_bytes ys
        = (?pre @ put_uint64 (of_nat (length bs))) @ take (length bs) v
          @ (drop (length bs) v @ recs_bytes ys)" by simp
    have "write_at \<dots> (length ?pre + 8) bs
        = (?pre @ put_uint64 (of_nat (length bs))) @ bs @ (drop (length bs) v @ recs_bytes ys)"
      using len ok(3) by (intro write_at_middle) simp_all
    also have "\<dots> = recs_bytes ?rs'" by (simp add: recs_bytes_append)
    finally show ?thesis unfolding eq .
  qed
  moreover have "store_file (disk l) (recs_bytes ?rs') = recs_bytes ?rs'"
    using rep ok len by (intro store_file_longer) (simp add: represents_def length_recs_bytes)
  moreover have "index l = offsets 0 ?rs'"
    using rep offsets_cong [of ?rs ?rs' 0] by (simp add: represents_def)
  moreover have "\<forall>r\<in>set ?rs'. rec_ok r" "distinct (map fst ?rs')"
    using rep len ok by (auto simp: represents_def)
  ultimately show ?thesis
    using off len by (simp add: Write_def put_record_def Let_def represents_def ValueFixedLength_def)
qed

lemma Write_append:
  assumes rep: "represents l rs" and new: "k \<notin> fst ` set rs" and len: "length bs \<le> 64"
  shows "represents (fst (Write (None, sy) noSync l k bs))
     (rs @ [(k, length bs, bs @ replicate (64 - length bs) 0)])"
proof -
  let ?r = "(k, length bs, bs @ replicate (64 - length bs) 0)"
  let ?z = "replicate (64 - length bs) (0 :: byte)"
  let ?n = "put_uint64 (of_nat (length bs))"
  have ok: "\<forall>r\<in>set rs. rec_ok r" and data: "data l = recs_bytes rs" using rep by (simp_all add: represents_def)
  have zeros: "replicate (8 + 8 + ValueFixedLength) (0 :: byte)
      = replicate 8 0 @ replicate 8 0 @ replicate (length bs) 0 @ ?z"
    using len by (simp add: ValueFixedLength_def flip: replicate_add)
  let ?d = "data l @ replicate (8 + 8 + ValueFixedLength) 0"
  have w1: "write_at ?d (length (data l)) (put_uint64 k)
      = data l @ put_uint64 k @ (replicate 8 0 @ replicate (length bs) 0 @ ?z)"
    unfolding zeros by (rule write_at_middle) simp_all
  have "write_at ((data l @ put_uint64 k) @ replicate 8 0 @ (replicate (length bs) 0 @ ?z)) (length (data l) + 8) ?n
      = (data l @ put_uint64 k) @ ?n @ (replicate (length bs) 0 @ ?z)"
    by (rule write_at_middle) simp_all
  moreover have "write_at ((data l @ put_uint64 k @ ?n) @ replicate (length bs) 0 @ ?z) (length (data l) + 8 + 8) bs
      = (data l @ put_uint64 k @ ?n) @ bs @ ?z"
    by (rule write_at_middle) simp_all
  ultimately have w: "write_at (write_at (write_at ?d (length (data l)) (put_uint64 k)) (length (data l) + 8) ?n)
      (length (data l) + 8 + 8) bs = recs_bytes (rs @ [?r])"
    unfolding w1 by (simp add: data recs_bytes_append)
  have "index l k = None" "(index l)(k \<mapsto> length (data l) + 8) = offsets 0 (rs @ [?r])"
    using rep new offsets_snoc [of ?r rs 0]
    by (simp_all add: represents_def offsets_None length_recs_bytes ok)
  moreover have "store_file (disk l) (recs_bytes (rs @ [?r])) = recs_bytes (rs @ [?r])"
    using rep by (intro store_file_longer) (simp add: represents_def recs_bytes_append)
  moreover have "\<forall>r\<in>set (rs @ [?r]). rec_ok r" "distinct (map fst (rs @ [?r]))"
    using rep len new by (auto simp: represents_def)
  ultimately show ?thesis
    using w len by (simp add: Write_def put_record_def Let_def represents_def ValueFixedLength_def)
qed

lemma open_loop_records:
  assumes "\<forall>r\<in>set xs. rec_ok r" and "\<forall>r\<in>set ys. rec_ok r" and "distinct (map fst ys)"
  shows "open_loop (recs_bytes xs @ recs_bytes ys) (80 * length xs) idx = Some (idx ++ offsets (80 * length xs) ys)"
  using assms
proof (induction ys arbitrary: xs idx)
  case Nil
  then show ?case by (subst open_loop.simps) (simp add: length_recs_bytes)
next
  case (Cons y ys)
  obtain k n v where y: "y = (k, n, v)" by (cases y)
  have n: "80 * length xs = length (recs_bytes xs)" using Cons.prems(1) by (simp add: length_recs_bytes)
  have sub: "sub_slice (recs_bytes xs @ recs_bytes (y # ys)) (80 * length xs) (80 * length xs + 8) = Some (put_uint64 k)"
    unfolding y n by simp
  have lt: "80 * length xs < length (recs_bytes xs @ recs_bytes (y # ys))"
    using Cons.prems(2) by (simp add: n length_rec_bytes)
  have k: "k \<notin> fst ` set ys" using Cons.prems(3) by (simp add: y)
  have "open_loop (recs_bytes xs @ recs_bytes (y # ys)) (80 * length xs) idx
      = open_loop (recs_bytes (xs @ [y]) @ recs_bytes ys) (80 * length (xs @ [y])) (idx(k \<mapsto> 80 * length xs + 8))"
    using lt sub by (subst open_loop.simps) (simp add: ValueFixedLength_def recs_bytes_append add.commute)
  also have "\<dots> = Some (idx(k \<mapsto> 80 * length xs + 8) ++ offsets (80 * length (xs @ [y])) ys)"
    using Cons.prems by (intro Cons.IH) auto
  also have "idx(k \<mapsto> 80 * length xs + 8) ++ offsets (80 * length (xs @ [y])) ys
      = idx ++ offsets (80 * length xs) (y # ys)"
    using offsets_None [OF k] by (auto simp: y map_add_def fun_eq_iff add.commute split: option.split)
  finally show ?case .
qed

lemma Open_represents:
  assumes "represents l rs"
  shows "\<exists>l'. Open (Inr (disk l)) = Inr l' \<and> represents l' rs"
  using assms open_loop_records [of "[]" rs Map.empty] by (simp add: Open_def represents_def)

lemma Write_contents:
  assumes "represents l rs"
  shows "\<exists>rs'. represents (fst (Write (None, sy) noSync l k bs)) rs'
    \<and> contents rs' = (if length bs \<le> 64 then (contents rs)(k \<mapsto> bs) else contents rs)"
proof (cases "length bs \<le> 64")
  case False
  with assms show ?thesis by (auto simp: Write_def ValueFixedLength_def Let_def)
next
  case len: True
  show ?thesis
  proof (cases "k \<in> fst ` set rs")
    case True
    then obtain xs n v ys where rs: "rs = xs @ (k, n, v) # ys" by (rule split_record)
    have "distinct (map fst (xs @ (k, n, v) # ys))" using assms by (simp add: represents_def rs)
    from contents_middle(2) [OF this, of "length bs" "bs @ drop (length bs) v"] len
      Write_overwrite [OF assms [unfolded rs] len]
    show ?thesis unfolding rs by auto
  next
    case False
    have "contents (rs @ [(k, length bs, bs @ replicate (64 - length bs) 0)]) = (contents rs)(k \<mapsto> bs)"
      using contents_None [OF False] by (auto simp: contents_def map_add_def fun_eq_iff split: option.split)
    with Write_append [OF assms False len] len show ?thesis by auto
  qed
qed

section \<open>The contract of a durable map\<close>

datatype redo_op = Put uint64 "byte list" | Reopen

fun redo_spec :: "(uint64 \<rightharpoonup> byte list) \<Rightarrow> redo_op \<Rightarrow> (uint64 \<rightharpoonup> byte list)" where
  "redo_spec m (Put k v) = (if length v \<le> 64 then m(k \<mapsto> v) else m)"
| "redo_spec m Reopen = m"

text \<open>A store whose value after a write is the map with one entry changed, and which is the same
  after it has been closed and opened.\<close>

locale durable_map =
  fixes rep :: "'s \<Rightarrow> 'r \<Rightarrow> bool"
    and val :: "'r \<Rightarrow> (uint64 \<rightharpoonup> byte list)"
    and put :: "'s \<Rightarrow> uint64 \<Rightarrow> byte list \<Rightarrow> 's"
    and reopen :: "'s \<Rightarrow> 's"
  assumes put_law: "rep s r \<Longrightarrow> \<exists>r'. rep (put s k v) r' \<and> val r' = (if length v \<le> 64 then (val r)(k \<mapsto> v) else val r)"
    and reopen_law: "rep s r \<Longrightarrow> rep (reopen s) r"
begin

fun apply_op :: "'s \<Rightarrow> redo_op \<Rightarrow> 's" where
  "apply_op s (Put k v) = put s k v"
| "apply_op s Reopen = reopen s"

lemma apply_op_spec: "rep s r \<Longrightarrow> \<exists>r'. rep (apply_op s op) r' \<and> val r' = redo_spec (val r) op"
  using put_law [of s r] reopen_law [of s r] by (cases op) auto

lemma apply_ops_spec:
  "rep s r \<Longrightarrow> \<exists>r'. rep (foldl apply_op s ops) r' \<and> val r' = foldl redo_spec (val r) ops"
proof (induction ops arbitrary: s r)
  case (Cons op ops)
  from apply_op_spec [OF Cons.prems] obtain r' where "rep (apply_op s op) r'" "val r' = redo_spec (val r) op"
    by blast
  with Cons.IH [of "apply_op s op" r'] show ?case by simp
qed auto

end

definition redo_write :: "redo_log \<Rightarrow> uint64 \<Rightarrow> byte list \<Rightarrow> redo_log" where
  "redo_write l k v = fst (Write (None, None) False l k v)"

definition redo_reopen :: "redo_log \<Rightarrow> redo_log" where
  "redo_reopen l = (case Open (Inr (disk l)) of Inl _ \<Rightarrow> l | Inr l' \<Rightarrow> l')"

interpretation redo: durable_map represents contents redo_write redo_reopen
proof unfold_locales
  show "represents s r \<Longrightarrow> \<exists>r'. represents (redo_write s k v) r'
      \<and> contents r' = (if length v \<le> 64 then (contents r)(k \<mapsto> v) else contents r)" for s r k v
    unfolding redo_write_def by (rule Write_contents)
  show "represents s r \<Longrightarrow> represents (redo_reopen s) r" for s r
    using Open_represents [of s r] by (auto simp: redo_reopen_def)
qed

section \<open>Properties\<close>

definition redo_step :: "redo_log \<Rightarrow> redo_op \<Rightarrow> redo_log" where
  "redo_step l op = (case op of Put k v \<Rightarrow> redo_write l k v | Reopen \<Rightarrow> redo_reopen l)"

definition redo_new :: redo_log where
  "redo_new = \<lparr>index = Map.empty, data = [], disk = []\<rparr>"


text \<open>On every branch a write reports what happened: an oversized value is refused and
  leaves the log alone, an error of the file system is returned with the file unchanged, and
  otherwise the bytes on disk are those in memory, synced unless syncing is off.\<close>

lemma Write_reports:
  assumes "represents l rs"
  shows "if 64 < length bs then Write io noSync l k bs = (l, Some ErrValueTooLarge)
    else (case Write io noSync l k bs of (l', err) \<Rightarrow>
      (case io of
         (Some e, _) \<Rightarrow> err = Some (ErrIO e) \<and> disk l' = disk l
       | (None, sy) \<Rightarrow> disk l' = data l' \<and> err = (if noSync then None else map_option ErrIO sy)))"
proof (cases "64 < length bs")
  case True
  then show ?thesis by (simp add: Write_def ValueFixedLength_def)
next
  case False
  then have len: "length bs \<le> 64" by simp
  obtain a sy where io: "io = (a, sy)" by (cases io)
  have mem: "disk (fst (Write (None, sy) noSync l k bs)) = data (fst (Write (None, sy) noSync l k bs))"
    using Write_contents [OF assms, of sy noSync k bs] by (auto simp: represents_def)
  have "disk (put_record l k bs) = disk l"
    by (simp add: put_record_def Let_def split: option.split)
  with len mem show ?thesis
    unfolding io by (cases a; cases noSync) (simp_all add: Write_def ValueFixedLength_def Let_def)
qed

lemma Write_reports_witness:
  "represents redo_new [] \<and> Write (Some ''disk full'', None) False redo_new 7 [1, 2]
     = (fst (Write (Some ''disk full'', None) False redo_new 7 [1, 2]), Some (ErrIO ''disk full''))"
proof -
  have r: "represents redo_new []" by (simp add: represents_def redo_new_def)
  have "\<not> 64 < length [1 :: byte, 2]" by simp
  with r Write_reports [OF r, of "[1, 2]" "(Some ''disk full'', None)" False 7] show ?thesis
    by (auto split: prod.splits)
qed

end
