(* ===== verification/Hnsw_Cache.thy ===== *)
theory Hnsw_Cache
  imports Go_Runtime
begin

text \<open>
  The in-memory cache of \<^verbatim>\<open>HNSWSegment\<close> in \<^verbatim>\<open>pkg/core/hnsw_segment.go\<close>: the ids, their
  vectors one after the other in a single array, and the position of every id. The cache
  implements a map from ids to vectors. Also the byte form of a vector,
  \<^verbatim>\<open>pkg/zutils/vector_bytes.go\<close>.
\<close>

section \<open>Model\<close>

text \<open>A float32 is only copied and stored here: it is its bit pattern.\<close>

type_synonym float32 = "32 word"

record vcache =
  docIDs :: "int list"
  docVectors :: "float32 list"
  docIDIndex :: "int \<rightharpoonup> nat"

text \<open>\<^verbatim>\<open>copy(xs[a:a+n], src)\<close>.\<close>

definition copy_into :: "'a list \<Rightarrow> nat \<Rightarrow> nat \<Rightarrow> 'a list \<Rightarrow> 'a list" where
  "copy_into xs a n src = take a xs @ take n src @ drop (a + length (take n src)) xs"

definition cache_empty :: vcache where
  "cache_empty = \<lparr>docIDs = [], docVectors = [], docIDIndex = Map.empty\<rparr>"

definition updateCache :: "nat \<Rightarrow> vcache \<Rightarrow> int \<Rightarrow> float32 list \<Rightarrow> vcache" where
  "updateCache d c docID vector =
     (case docIDIndex c docID of
        Some i \<Rightarrow> c\<lparr>docVectors := copy_into (docVectors c) (i * d) d vector\<rparr>
      | None \<Rightarrow>
          let ids = docIDs c @ [docID] in
          c\<lparr>docIDs := ids, docVectors := docVectors c @ vector,
            docIDIndex := (docIDIndex c)(docID \<mapsto> length ids - 1)\<rparr>)"

definition deleteCache :: "nat \<Rightarrow> vcache \<Rightarrow> int \<Rightarrow> vcache" where
  "deleteCache d c docID =
     (case docIDIndex c docID of
        None \<Rightarrow> c
      | Some i \<Rightarrow>
          let j = length (docIDs c) - 1;
              c1 = (if i \<noteq> j then
                      let ids = (docIDs c)[i := docIDs c ! j] in
                      c\<lparr>docIDs := ids,
                        docVectors := copy_into (docVectors c) (i * d) d (take d (drop (j * d) (docVectors c))),
                        docIDIndex := (docIDIndex c)(ids ! i \<mapsto> i)\<rparr>
                    else c)
          in c1\<lparr>docIDs := take j (docIDs c1), docVectors := take (j * d) (docVectors c1),
                docIDIndex := (docIDIndex c1)(docID := None)\<rparr>)"

definition VectorToBytes :: "float32 list \<Rightarrow> byte list" where
  "VectorToBytes vector = concat (map put_uint32 vector)"

definition BytesToVector :: "byte list \<Rightarrow> float32 list" where
  "BytesToVector bts = map (\<lambda>i. get_uint32 (take 4 (drop (4 * i) bts))) [0..<length bts div 4]"

section \<open>The contract of a map by id\<close>

text \<open>The segment uses its cache only through updates and deletions, one by one or in a loop.\<close>

locale id_map =
  fixes inv :: "'c \<Rightarrow> bool"
    and abs :: "'c \<Rightarrow> (int \<rightharpoonup> 'v)"
    and good :: "'v \<Rightarrow> bool"
    and upd :: "'c \<Rightarrow> int \<Rightarrow> 'v \<Rightarrow> 'c"
    and del :: "'c \<Rightarrow> int \<Rightarrow> 'c"
  assumes upd: "inv c \<Longrightarrow> good v \<Longrightarrow> inv (upd c i v) \<and> abs (upd c i v) = (abs c)(i \<mapsto> v)"
    and del: "inv c \<Longrightarrow> inv (del c i) \<and> abs (del c i) = (abs c)(i := None)"
begin

lemma dels: "inv c \<Longrightarrow> inv (foldl del c ks) \<and> abs (foldl del c ks) = (\<lambda>k. if k \<in> set ks then None else abs c k)"
proof (induction ks arbitrary: c)
  case (Cons i ks)
  from Cons.IH [of "del c i"] del [OF Cons.prems, of i] show ?case by (auto simp: fun_eq_iff)
qed simp

lemma upds:
  "inv c \<Longrightarrow> \<forall>v\<in>snd ` set ivs. good v \<Longrightarrow>
   inv (foldl (\<lambda>c (i, v). upd c i v) c ivs) \<and> abs (foldl (\<lambda>c (i, v). upd c i v) c ivs) = abs c ++ map_of (rev ivs)"
proof (induction ivs arbitrary: c)
  case (Cons iv ivs)
  obtain i v where iv: "iv = (i, v)" by (cases iv)
  have u: "inv (upd c i v)" "abs (upd c i v) = (abs c)(i \<mapsto> v)"
    using upd [OF Cons.prems(1), of v i] Cons.prems(2) by (simp_all add: iv)
  have IH: "inv (foldl (\<lambda>c (i, v). upd c i v) c (iv # ivs))"
    "abs (foldl (\<lambda>c (i, v). upd c i v) c (iv # ivs)) = abs (upd c i v) ++ map_of (rev ivs)"
    using Cons.IH [OF u(1)] Cons.prems(2) by (simp_all add: iv)
  have "abs (upd c i v) ++ map_of (rev ivs) = abs c ++ map_of (rev (iv # ivs))"
    unfolding u(2) by (auto simp: iv map_add_def fun_eq_iff split: option.split)
  with IH show ?case by metis
qed simp

end

section \<open>The cache implements the map\<close>

text \<open>The cache holds the ids \<open>ks\<close> and their vectors \<open>vs\<close>, in the same order.\<close>

definition cache_rep :: "nat \<Rightarrow> vcache \<Rightarrow> int list \<Rightarrow> float32 list list \<Rightarrow> bool" where
  "cache_rep d c ks vs \<longleftrightarrow> distinct ks \<and> length vs = length ks \<and> (\<forall>v\<in>set vs. length v = d)
     \<and> docIDs c = ks \<and> docVectors c = concat vs
     \<and> (\<forall>k i. docIDIndex c k = Some i \<longleftrightarrow> i < length ks \<and> ks ! i = k)"

definition cache_ok :: "nat \<Rightarrow> vcache \<Rightarrow> bool" where
  "cache_ok d c \<longleftrightarrow> (\<exists>ks vs. cache_rep d c ks vs)"

text \<open>The vector of an id, read the way the searches read it.\<close>

definition cache_map :: "nat \<Rightarrow> vcache \<Rightarrow> (int \<rightharpoonup> float32 list)" where
  "cache_map d c k = map_option (\<lambda>i. take d (drop (i * d) (docVectors c))) (docIDIndex c k)"

lemma cache_repD:
  assumes "cache_rep d c ks vs"
  shows "distinct ks" and "length vs = length ks" and "\<forall>v\<in>set vs. length v = d"
    and "docIDs c = ks" and "docVectors c = concat vs"
  using assms by (simp_all add: cache_rep_def)

lemma cache_rep_index:
  "cache_rep d c ks vs \<Longrightarrow> docIDIndex c k = Some i \<Longrightarrow> i < length ks \<and> ks ! i = k"
  "cache_rep d c ks vs \<Longrightarrow> docIDIndex c k = None \<Longrightarrow> k \<notin> set ks"
  by (auto simp: cache_rep_def in_set_conv_nth) (metis option.distinct(1))

lemma cache_rep_at: "cache_rep d c ks vs \<Longrightarrow> i < length ks \<Longrightarrow> docIDIndex c (ks ! i) = Some i"
  by (simp add: cache_rep_def)

lemma cache_map_rep:
  assumes "cache_rep d c ks vs"
  shows "cache_map d c k = map_option (\<lambda>i. vs ! i) (docIDIndex c k)"
proof (cases "docIDIndex c k")
  case (Some i)
  with cache_rep_index(1) [OF assms] have "i < length vs" by (simp add: cache_repD(2) [OF assms])
  with Some nth_chunk [OF cache_repD(3) [OF assms]] show ?thesis
    by (simp add: cache_map_def cache_repD(5) [OF assms])
qed (simp add: cache_map_def)

lemma copy_into_chunk:
  assumes "\<forall>x\<in>set xs. length x = d" and "i < length xs" and "length v = d"
  shows "copy_into (concat xs) (i * d) d v = concat (xs[i := v])"
  using update_chunk [OF assms] assms(3) by (simp add: copy_into_def)

lemma chunks_update: "\<forall>x\<in>set xs. length x = d \<Longrightarrow> length v = d \<Longrightarrow> \<forall>x\<in>set (xs[i := v]). length x = d"
  using set_update_subset_insert [of xs i v] by auto

lemma updateCache_ok:
  assumes rep: "cache_rep d c ks vs" and v: "length v = d"
  shows "cache_ok d (updateCache d c k v) \<and> cache_map d (updateCache d c k v) = (cache_map d c)(k \<mapsto> v)"
proof (cases "docIDIndex c k")
  case (Some i)
  note D = cache_repD [OF rep]
  have i: "i < length ks" "ks ! i = k" using cache_rep_index(1) [OF rep Some] by simp_all
  have same: "docIDIndex (updateCache d c k v) = docIDIndex c" "docIDs (updateCache d c k v) = ks"
    "docVectors (updateCache d c k v) = concat (vs[i := v])"
    using Some i v by (simp_all add: updateCache_def D copy_into_chunk [OF D(3)])
  have rep': "cache_rep d (updateCache d c k v) ks (vs[i := v])"
    using rep v chunks_update [OF D(3), of v i] by (simp add: cache_rep_def same)
  have "cache_map d (updateCache d c k v) x = ((cache_map d c)(k \<mapsto> v)) x" for x
  proof (cases "docIDIndex c x")
    case None
    with Some show ?thesis by (auto simp: cache_map_rep [OF rep'] cache_map_rep [OF rep] same)
  next
    case x: (Some j)
    from cache_rep_index(1) [OF rep x] i D(1,2) have "j < length vs" "j = i \<longleftrightarrow> x = k"
      by (auto simp: nth_eq_iff_index_eq)
    with x show ?thesis by (auto simp: cache_map_rep [OF rep'] cache_map_rep [OF rep] same)
  qed
  with rep' show ?thesis by (auto simp: cache_ok_def)
next
  case None
  note D = cache_repD [OF rep]
  have new: "k \<notin> set ks" using cache_rep_index(2) [OF rep None] .
  have now: "docIDs (updateCache d c k v) = ks @ [k]" "docVectors (updateCache d c k v) = concat (vs @ [v])"
    "docIDIndex (updateCache d c k v) = (docIDIndex c)(k \<mapsto> length ks)"
    using None by (simp_all add: updateCache_def D Let_def)
  have rep': "cache_rep d (updateCache d c k v) (ks @ [k]) (vs @ [v])"
    using rep new v by (auto simp: cache_rep_def now nth_append less_Suc_eq in_set_conv_nth)
  have "cache_map d (updateCache d c k v) x = ((cache_map d c)(k \<mapsto> v)) x" for x
  proof (cases "docIDIndex c x")
    case (Some j)
    with cache_rep_index(1) [OF rep Some] D(2) show ?thesis
      by (simp add: cache_map_rep [OF rep'] cache_map_rep [OF rep] now nth_append)
  qed (simp add: cache_map_rep [OF rep'] cache_map_rep [OF rep] now nth_append D(2))
  with rep' show ?thesis by (auto simp: cache_ok_def)
qed

text \<open>Deleting at position \<open>i\<close> moves the last entry there.\<close>

definition swap_remove :: "'a list \<Rightarrow> nat \<Rightarrow> 'a list" where
  "swap_remove xs i = take (length xs - 1) (xs[i := last xs])"

lemma length_swap_remove [simp]: "length (swap_remove xs i) = length xs - 1"
  by (simp add: swap_remove_def)

lemma nth_swap_remove: "m < length xs - 1 \<Longrightarrow> swap_remove xs i ! m = (if m = i then last xs else xs ! m)"
  by (auto simp: swap_remove_def nth_list_update)

lemma set_swap_remove: "xs \<noteq> [] \<Longrightarrow> set (swap_remove xs i) \<subseteq> set xs"
  using set_update_subset_insert [of xs i "last xs"] set_take_subset [of "length xs - 1" "xs[i := last xs]"]
  by (auto simp: swap_remove_def)

lemma distinct_swap_remove: "distinct xs \<Longrightarrow> distinct (swap_remove xs i)"
proof (cases "xs = []")
  case False
  assume "distinct xs"
  with False show ?thesis
    by (auto simp: distinct_conv_nth nth_swap_remove last_conv_nth)
qed (simp add: swap_remove_def)

lemma deleteCache_state:
  assumes rep: "cache_rep d c ks vs" and idx: "docIDIndex c k = Some i"
  shows "docIDs (deleteCache d c k) = swap_remove ks i"
    and "docVectors (deleteCache d c k) = concat (swap_remove vs i)"
    and "docIDIndex (deleteCache d c k) = ((docIDIndex c)(last ks \<mapsto> i))(k := None)"
proof -
  note D = cache_repD [OF rep]
  let ?j = "length ks - 1"
  have i: "i < length ks" "ks ! i = k" using cache_rep_index(1) [OF rep idx] by simp_all
  then have ne: "ks \<noteq> []" "vs \<noteq> []" "?j < length ks" using D(2) by auto
  have last: "ks ! ?j = last ks" "vs ! ?j = last vs" "length (last vs) = d"
    using ne D(2,3) by (simp_all add: last_conv_nth)
  have at_end: "ks[i := last ks] = ks" "vs[i := last vs] = vs" if "i = ?j"
    using that last by (metis list_update_id)+
  show "docIDs (deleteCache d c k) = swap_remove ks i"
    using idx i last(1) at_end(1) by (simp add: deleteCache_def D Let_def swap_remove_def)
  have "take d (drop (?j * d) (concat vs)) = last vs"
    using nth_chunk [OF D(3), of ?j] ne D(2) last by simp
  then show "docVectors (deleteCache d c k) = concat (swap_remove vs i)"
    using idx i at_end(2) D(2) last(3) take_chunks [OF D(3)] take_chunks [OF chunks_update [OF D(3) last(3)]]
    by (simp add: deleteCache_def D Let_def swap_remove_def copy_into_chunk [OF D(3)])
  show "docIDIndex (deleteCache d c k) = ((docIDIndex c)(last ks \<mapsto> i))(k := None)"
    using idx i last(1) by (auto simp: deleteCache_def D Let_def fun_eq_iff)
qed

lemma swap_remove_index:
  assumes "distinct ks" and "i < length ks"
    and "\<And>k m. idx k = Some m \<longleftrightarrow> m < length ks \<and> ks ! m = k"
  shows "(idx(last ks \<mapsto> i, ks ! i := None)) x = Some m \<longleftrightarrow> m < length ks - 1 \<and> swap_remove ks i ! m = x"
proof -
  let ?j = "length ks - 1"
  have ne: "ks \<noteq> []" and j: "?j < length ks" using assms(2) by auto
  have last: "last ks = ks ! ?j" using ne by (rule last_conv_nth)
  have uniq: "ks ! a = ks ! b \<longleftrightarrow> a = b" if "a < length ks" "b < length ks" for a b
    using that assms(1) by (simp add: nth_eq_iff_index_eq)
  consider "x = ks ! i" | "x \<noteq> ks ! i" "x = last ks" | "x \<noteq> ks ! i" "x \<noteq> last ks" by blast
  then show ?thesis
  proof cases
    case 1
    then have "swap_remove ks i ! m \<noteq> x" if "m < ?j"
      using that uniq [of m i] uniq [of ?j i] assms(2) j by (auto simp: nth_swap_remove last)
    with 1 show ?thesis by auto
  next
    case 2
    then have "i < ?j" using assms(2) last by (cases "i = ?j") auto
    moreover have "swap_remove ks i ! m = x \<longleftrightarrow> m = i" if "m < ?j"
      using that uniq [of m ?j] j 2 by (auto simp: nth_swap_remove last)
    ultimately show ?thesis using 2 by auto
  next
    case 3
    have "m < length ks \<and> ks ! m = x \<longleftrightarrow> m < ?j \<and> swap_remove ks i ! m = x"
    proof
      assume L: "m < length ks \<and> ks ! m = x"
      with 3 last have "m \<noteq> ?j" "m \<noteq> i" by auto
      moreover from this L have "m < ?j" by linarith
      ultimately show "m < ?j \<and> swap_remove ks i ! m = x" using L by (simp add: nth_swap_remove)
    next
      assume R: "m < ?j \<and> swap_remove ks i ! m = x"
      with 3 have "m \<noteq> i" by (auto simp: nth_swap_remove)
      with R have "ks ! m = x" by (auto simp: nth_swap_remove)
      with R j show "m < length ks \<and> ks ! m = x" by linarith
    qed
    with 3 show ?thesis by (simp add: assms(3))
  qed
qed

lemma deleteCache_ok:
  assumes rep: "cache_rep d c ks vs"
  shows "cache_ok d (deleteCache d c k) \<and> cache_map d (deleteCache d c k) = (cache_map d c)(k := None)"
proof (cases "docIDIndex c k")
  case None
  then have "deleteCache d c k = c" "cache_map d c k = None" by (simp_all add: deleteCache_def cache_map_def)
  with rep show ?thesis by (auto simp: cache_ok_def fun_eq_iff)
next
  case (Some i)
  note D = cache_repD [OF rep] and S = deleteCache_state [OF rep Some]
  have i: "i < length ks" "ks ! i = k" using cache_rep_index(1) [OF rep Some] by simp_all
  then have ne: "vs \<noteq> []" "ks \<noteq> []" using D(2) by auto
  have idx: "docIDIndex (deleteCache d c k) x = Some m \<longleftrightarrow> m < length ks - 1 \<and> swap_remove ks i ! m = x" for x m
  proof -
    have eq: "docIDIndex (deleteCache d c k) = (docIDIndex c)(last ks \<mapsto> i, ks ! i := None)"
      unfolding i(2) by (rule S(3))
    show ?thesis
      unfolding eq using rep by (intro swap_remove_index [OF D(1) i(1)]) (simp add: cache_rep_def)
  qed
  have rep': "cache_rep d (deleteCache d c k) (swap_remove ks i) (swap_remove vs i)"
    using D set_swap_remove [OF ne(1), of i] idx distinct_swap_remove [OF D(1), of i]
    unfolding cache_rep_def S(1,2) by auto
  have "cache_map d (deleteCache d c k) x = ((cache_map d c)(k := None)) x" for x
  proof (cases "docIDIndex (deleteCache d c k) x")
    case None
    then show ?thesis
      using Some by (auto simp: cache_map_rep [OF rep'] cache_map_rep [OF rep] S(3) split: if_splits)
  next
    case x: (Some m)
    have m: "m < length vs - 1" using idx [of x m] x D(2) by simp
    have xk: "x \<noteq> k" using x unfolding S(3) by (auto split: if_splits)
    show ?thesis
    proof (cases "x = last ks")
      case True
      then have "m = i" using x xk by (simp add: S(3))
      moreover have "docIDIndex c x = Some (length ks - 1)"
        using cache_rep_at [OF rep, of "length ks - 1"] True ne(2) by (simp add: last_conv_nth)
      ultimately show ?thesis
        using x xk m D(2) ne by (simp add: cache_map_rep [OF rep'] cache_map_rep [OF rep] nth_swap_remove last_conv_nth)
    next
      case False
      then have "docIDIndex c x = Some m" using x xk by (simp add: S(3))
      moreover have "m \<noteq> i" using calculation cache_rep_index(1) [OF rep, of x m] i xk by auto
      ultimately show ?thesis
        using x xk m by (simp add: cache_map_rep [OF rep'] cache_map_rep [OF rep] nth_swap_remove)
    qed
  qed
  with rep' show ?thesis by (auto simp: cache_ok_def)
qed

lemma cache_empty_ok: "cache_ok d cache_empty" "cache_map d cache_empty = Map.empty"
proof -
  have "cache_rep d cache_empty [] []" by (simp add: cache_rep_def cache_empty_def)
  then show "cache_ok d cache_empty" by (auto simp: cache_ok_def)
qed (simp add: cache_map_def cache_empty_def fun_eq_iff)

interpretation vc: id_map "cache_ok d" "cache_map d" "\<lambda>v. length v = d" "updateCache d" "deleteCache d" for d
  by unfold_locales (use updateCache_ok deleteCache_ok in \<open>(auto simp: cache_ok_def)\<close>)

section \<open>Properties\<close>

datatype cache_op = Update int "float32 list" | Delete int

definition cache_step :: "nat \<Rightarrow> vcache \<Rightarrow> cache_op \<Rightarrow> vcache" where
  "cache_step d c op = (case op of Update k v \<Rightarrow> updateCache d c k v | Delete k \<Rightarrow> deleteCache d c k)"

fun cache_spec :: "(int \<rightharpoonup> float32 list) \<Rightarrow> cache_op \<Rightarrow> (int \<rightharpoonup> float32 list)" where
  "cache_spec m (Update k v) = m(k \<mapsto> v)"
| "cache_spec m (Delete k) = m(k := None)"

lemma cache_run:
  "cache_ok d c \<Longrightarrow> \<forall>k v. Update k v \<in> set ops \<longrightarrow> length v = d \<Longrightarrow>
   cache_ok d (foldl (cache_step d) c ops) \<and> cache_map d (foldl (cache_step d) c ops) = foldl cache_spec (cache_map d c) ops"
proof (induction ops arbitrary: c)
  case (Cons op ops)
  have "cache_ok d (cache_step d c op) \<and> cache_map d (cache_step d c op) = cache_spec (cache_map d c) op"
    using Cons.prems vc.upd [of d c] vc.del [of d c] by (cases op) (auto simp: cache_step_def)
  moreover have "\<forall>k v. Update k v \<in> set ops \<longrightarrow> length v = d" using Cons.prems(2) by simp
  ultimately show ?case using Cons.IH [of "cache_step d c op"] by simp
qed simp

text \<open>C23: the cache's three arrays implement a map. After any sequence of updates and deletions
  the vector read at the recorded position of an id is the one last written to it, ids that were
  deleted have no position, and the array of ids lists the ids of the map without repetition,
  with the array of vectors holding their vectors in the same order.\<close>

theorem cache_refines_map:
  assumes "\<forall>k v. Update k v \<in> set ops \<longrightarrow> length v = d"
  defines "c \<equiv> foldl (cache_step d) cache_empty ops"
  shows "cache_map d c = foldl cache_spec Map.empty ops
    \<and> distinct (docIDs c) \<and> set (docIDs c) = dom (foldl cache_spec Map.empty ops)
    \<and> docVectors c = concat (map (\<lambda>k. the (foldl cache_spec Map.empty ops k)) (docIDs c))"
proof -
  have "cache_ok d c" and m: "cache_map d c = foldl cache_spec Map.empty ops"
    using cache_run [OF cache_empty_ok(1) assms(1)] cache_empty_ok(2) by (simp_all add: c_def)
  then obtain ks vs where rep: "cache_rep d c ks vs" by (auto simp: cache_ok_def)
  note D = cache_repD [OF rep]
  have at: "cache_map d c (ks ! i) = Some (vs ! i)" if "i < length ks" for i
    using cache_rep_at [OF rep that] cache_map_rep [OF rep, of "ks ! i"] by simp
  have "set ks = dom (cache_map d c)"
    using rep by (auto simp: cache_map_rep [OF rep] dom_def cache_rep_def in_set_conv_nth)
  moreover have "vs = map (\<lambda>k. the (cache_map d c k)) ks"
    by (rule nth_equalityI) (simp_all add: D at)
  ultimately show ?thesis using D m by simp
qed

theorem cache_refines_map_witness:
  "cache_map 2 (foldl (cache_step 2) cache_empty [Update 5 [1, 2], Update 9 [3, 4], Delete 5]) = [9 \<mapsto> [3, 4]]"
proof -
  have "\<forall>k v. Update k v \<in> set [Update 5 [1, 2], Update 9 [3, 4], Delete 5] \<longrightarrow> length v = 2" by simp
  from cache_refines_map [OF this] show ?thesis by (auto simp: fun_eq_iff)
qed

lemma length_VectorToBytes: "length (VectorToBytes v) = 4 * length v"
  unfolding VectorToBytes_def by (subst length_chunks [where d = 4]) auto

lemma vector_bytes_inverse [simp]: "BytesToVector (VectorToBytes v) = v"
proof (rule nth_equalityI)
  have len: "\<forall>x\<in>set (map put_uint32 v). length x = 4" by auto
  show "length (BytesToVector (VectorToBytes v)) = length v" by (simp add: BytesToVector_def length_VectorToBytes)
  fix i assume "i < length (BytesToVector (VectorToBytes v))"
  then have i: "i < length v" by (simp add: BytesToVector_def length_VectorToBytes)
  with nth_chunk [OF len, of i] show "BytesToVector (VectorToBytes v) ! i = v ! i"
    by (simp add: BytesToVector_def length_VectorToBytes) (simp add: VectorToBytes_def mult.commute)
qed

text \<open>C34: the byte form of a vector has four bytes for each number, and reading it gives the
  vector back.\<close>

theorem VectorToBytes_roundtrip:
  "length (VectorToBytes v) = 4 * length v \<and> BytesToVector (VectorToBytes v) = v"
  by (simp add: length_VectorToBytes)

end
