(* ===== verification/Hnsw_Segment.thy ===== *)
theory Hnsw_Segment
  imports Hnsw_Cache
begin

text \<open>
  The HNSW segment of a vector index, \<^verbatim>\<open>pkg/core/hnsw_segment.go\<close>: writes go to a log, and
  a background worker applies the log to the stored documents, rebuilds the index from them
  and drops the applied log. The Bluge store and the usearch index are third-party code; their
  operations are the fields of two records that the definitions take as arguments.
\<close>

section \<open>The store and the index\<close>

text \<open>A stored document is its stored fields in order. A batch is a list of updates and deletions of
  documents by id; a search by prefix or by terms on the field \<^verbatim>\<open>_id\<close> returns the stored fields of
  the documents it matches, the id among them.\<close>

type_synonym fields = "(string \<times> byte list) list"

datatype wop = WUpdate string fields | WDelete string

record 'w bluge =
  bl_batch :: "'w \<Rightarrow> wop list \<Rightarrow> error + 'w"
  bl_prefix :: "'w \<Rightarrow> string \<Rightarrow> error + fields list"
  bl_terms :: "'w \<Rightarrow> string list \<Rightarrow> error + fields list"

record 'x usearch =
  us_new :: "error + 'x"
  us_reserve :: "'x \<Rightarrow> nat \<Rightarrow> error + 'x"
  us_add :: "'x \<Rightarrow> int \<Rightarrow> float32 list \<Rightarrow> error + 'x"
  us_contains :: "'x \<Rightarrow> int \<Rightarrow> error + bool"
  us_search :: "'x \<Rightarrow> float32 list \<Rightarrow> nat \<Rightarrow> error + int list"

section \<open>Model\<close>

text \<open>The segment: the writer (the store), the log ids, the cache of the logged vectors, the latest
  log id of every logged document, the index in memory, and the index file in the vector
  storage. Log and document ids are int64; the log ids count up from 1 and stay below \<open>2 ^ 63\<close>.\<close>

record ('w, 'x) hnsw_seg =
  dimensions :: nat
  loaded :: bool
  writer :: 'w
  hnswLogID :: int
  latestLogID :: int
  cache :: vcache
  docTS :: "int \<rightharpoonup> int"
  index :: "'x option"
  hnsw_file :: "'x option"

record log_row =
  ID :: int
  DocID :: int
  DocDel :: bool
  Vector :: "float32 list"

definition log_key :: "int \<Rightarrow> string" where
  "log_key n = ''log/'' @ format_int n"

definition doc_key :: "int \<Rightarrow> string" where
  "doc_key k = ''doc/'' @ format_int k"

definition newHNSWSegment :: "'w \<Rightarrow> nat \<Rightarrow> ('w, 'x) hnsw_seg" where
  "newHNSWSegment w dims = \<lparr>dimensions = dims, loaded = False, writer = w, hnswLogID = 0, latestLogID = 0,
     cache = cache_empty, docTS = Map.empty, index = None, hnsw_file = None\<rparr>"

text \<open>Reading back: the singleton with a log id, and the rows of the log and of the documents. The
  fields of a row are visited in their order.\<close>

definition readLogID :: "'w bluge \<Rightarrow> 'w \<Rightarrow> string \<Rightarrow> error + int" where
  "readLogID api w docId =
     (case bl_terms api w [docId] of
        Inl e \<Rightarrow> Inl e
      | Inr docs \<Rightarrow>
          (case docs of
             [] \<Rightarrow> Inr 0
           | doc # _ \<Rightarrow>
               (case map_of doc ''log_id'' of
                  None \<Rightarrow> Inr 0
                | Some v \<Rightarrow> (case parse_int64 (string_of v) of
                      None \<Rightarrow> Inl ''invalid syntax''
                    | Some n \<Rightarrow> Inr n))))"

definition log_field :: "error + log_row \<Rightarrow> string \<times> byte list \<Rightarrow> error + log_row" where
  "log_field r fv = (case r of Inl e \<Rightarrow> Inl e | Inr row \<Rightarrow> (case fv of (field, v) \<Rightarrow>
     if field = ''_id'' then (case parse_int64 (drop 4 (string_of v)) of
         None \<Rightarrow> Inl (''failed to parse doc id '' @ string_of v) | Some n \<Rightarrow> Inr (row\<lparr>ID := n\<rparr>))
     else if field = ''doc_id'' then (case parse_int64 (string_of v) of
         None \<Rightarrow> Inl (''failed to parse doc id '' @ string_of v) | Some n \<Rightarrow> Inr (row\<lparr>DocID := n\<rparr>))
     else if field = ''doc_del'' then Inr (if string_of v = ''true'' then row\<lparr>DocDel := True\<rparr> else row)
     else if field = ''vector'' then Inr (row\<lparr>Vector := BytesToVector v\<rparr>)
     else Inr row))"

definition empty_row :: log_row where
  "empty_row = \<lparr>ID = 0, DocID = 0, DocDel = False, Vector = []\<rparr>"

text \<open>Rows are produced one by one; the first error ends the iteration.\<close>

fun traverse :: "('a \<Rightarrow> 'e + 'b) \<Rightarrow> 'a list \<Rightarrow> 'e + 'b list" where
  "traverse f [] = Inr []"
| "traverse f (x # xs) = (case f x of Inl e \<Rightarrow> Inl e | Inr y \<Rightarrow> (case traverse f xs of Inl e \<Rightarrow> Inl e | Inr ys \<Rightarrow> Inr (y # ys)))"

definition readHNSWLogRows :: "'w bluge \<Rightarrow> 'w \<Rightarrow> error + log_row list" where
  "readHNSWLogRows api w =
     (case bl_prefix api w ''log/'' of
        Inl e \<Rightarrow> Inl e
      | Inr docs \<Rightarrow> traverse (\<lambda>doc. foldl log_field (Inr empty_row) doc) docs)"

definition doc_field :: "error + int \<times> float32 list \<Rightarrow> string \<times> byte list \<Rightarrow> error + int \<times> float32 list" where
  "doc_field r fv = (case r of Inl e \<Rightarrow> Inl e | Inr (k, vec) \<Rightarrow> (case fv of (field, v) \<Rightarrow>
     if field = ''_id'' then (case parse_int64 (drop 4 (string_of v)) of
         None \<Rightarrow> Inl (''failed to parse doc id '' @ string_of v) | Some n \<Rightarrow> Inr (n, vec))
     else if field = ''vector'' then Inr (k, BytesToVector v)
     else Inr (k, vec)))"

definition readHNSWDocRows :: "'w bluge \<Rightarrow> 'w \<Rightarrow> error + (int \<times> float32 list) list" where
  "readHNSWDocRows api w =
     (case bl_prefix api w ''doc/'' of
        Inl e \<Rightarrow> Inl e
      | Inr docs \<Rightarrow> traverse (\<lambda>doc. foldl doc_field (Inr (0, [])) doc) docs)"

text \<open>An iterator that its caller stops at the error without looking at it: the rows up to there, and
  the error.\<close>

fun iter_rows :: "('a \<Rightarrow> 'e + 'b) \<Rightarrow> 'a list \<Rightarrow> 'b list \<times> 'e option" where
  "iter_rows f [] = ([], None)"
| "iter_rows f (x # xs) = (case f x of
     Inl e \<Rightarrow> ([], Some e)
   | Inr y \<Rightarrow> (case iter_rows f xs of (ys, e) \<Rightarrow> (y # ys, e)))"

definition readHNSWDocRowsByIDs :: "'w bluge \<Rightarrow> 'w \<Rightarrow> int list \<Rightarrow> (int \<times> float32 list) list \<times> error option" where
  "readHNSWDocRowsByIDs api w ids =
     (case bl_terms api w (map doc_key ids) of
        Inl e \<Rightarrow> ([], Some e)
      | Inr docs \<Rightarrow> iter_rows (\<lambda>doc. foldl doc_field (Inr (0, [])) doc) docs)"

text \<open>The newest row of every document.\<close>

definition newest :: "log_row list \<Rightarrow> (int \<rightharpoonup> log_row)" where
  "newest rows = foldl (\<lambda>logs row. case logs (DocID row) of
       None \<Rightarrow> logs(DocID row \<mapsto> row)
     | Some r \<Rightarrow> if ID r < ID row then logs(DocID row \<mapsto> row) else logs) Map.empty rows"

text \<open>\<open>ko\<close> orders the keys of a map that is ranged over.\<close>

definition load_row :: "nat \<Rightarrow> (int \<rightharpoonup> log_row) \<Rightarrow> vcache \<times> (int \<rightharpoonup> int) \<Rightarrow> int \<Rightarrow> vcache \<times> (int \<rightharpoonup> int)" where
  "load_row d logs st k = (case logs k of None \<Rightarrow> st | Some row \<Rightarrow>
     (if DocDel row then deleteCache d (fst st) (DocID row) else updateCache d (fst st) (DocID row) (Vector row),
      (snd st)(DocID row \<mapsto> ID row)))"

definition loadLogs :: "'w bluge \<Rightarrow> (int list \<Rightarrow> int list) \<Rightarrow> ('w, 'x) hnsw_seg \<Rightarrow> error + ('w, 'x) hnsw_seg" where
  "loadLogs api ko seg =
     (case readHNSWLogRows api (writer seg) of
        Inl e \<Rightarrow> Inl e
      | Inr rows \<Rightarrow>
          let logs = newest rows;
              (c, ts) = foldl (load_row (dimensions seg) logs) (cache seg, docTS seg) (ko (remdups (map DocID rows)))
          in Inr (seg\<lparr>cache := c, docTS := ts\<rparr>))"

definition loadLogIDs :: "'w bluge \<Rightarrow> ('w, 'x) hnsw_seg \<Rightarrow> error + ('w, 'x) hnsw_seg" where
  "loadLogIDs api seg =
     (case readLogID api (writer seg) ''hnsw_log_id'' of
        Inl e \<Rightarrow> Inl (wrap ''failed to read hnsw log id'' e)
      | Inr h \<Rightarrow>
          (case readLogID api (writer seg) ''latest_log_id'' of
             Inl e \<Rightarrow> Inl (wrap ''failed to read latest log id'' e)
           | Inr l \<Rightarrow> Inr (seg\<lparr>hnswLogID := h, latestLogID := l\<rparr>)))"

text \<open>The index file is loaded when there is one; \<open>io\<close> is the error of finding or reading it.\<close>

definition loadHNSW :: "error option \<Rightarrow> ('w, 'x) hnsw_seg \<Rightarrow> error + ('w, 'x) hnsw_seg" where
  "loadHNSW io seg =
     (case io of
        Some e \<Rightarrow> Inl e
      | None \<Rightarrow> (case hnsw_file seg of None \<Rightarrow> Inr seg | Some x \<Rightarrow> Inr (seg\<lparr>index := Some x\<rparr>)))"

text \<open>A load that fails leaves the segment unloaded; what it has set by then is computed again by the
  next one.\<close>

definition load :: "'w bluge \<Rightarrow> (int list \<Rightarrow> int list) \<Rightarrow> error option \<Rightarrow> ('w, 'x) hnsw_seg \<Rightarrow> error + ('w, 'x) hnsw_seg" where
  "load api ko io seg =
     (if loaded seg then Inr seg
      else case loadLogIDs api seg of
        Inl e \<Rightarrow> Inl (wrap ''failed to load log ids'' e)
      | Inr seg1 \<Rightarrow> (case loadLogs api ko seg1 of
          Inl e \<Rightarrow> Inl (wrap ''failed to load logs'' e)
        | Inr seg2 \<Rightarrow> (case loadHNSW io seg2 of
            Inl e \<Rightarrow> Inl (wrap ''failed to load hnsw'' e)
          | Inr seg3 \<Rightarrow> Inr (seg3\<lparr>loaded := True\<rparr>))))"

subsection \<open>Writing\<close>

text \<open>The log documents of a batch: deletions first, then additions, each under the next log id.\<close>

fun log_dels :: "int list \<Rightarrow> int \<times> (int \<rightharpoonup> int) \<times> wop list \<Rightarrow> int \<times> (int \<rightharpoonup> int) \<times> wop list" where
  "log_dels [] st = st"
| "log_dels (docID # rest) (latest, ts, ops) =
     (let latest = latest + 1 in
      log_dels rest (latest, ts(docID \<mapsto> latest),
        ops @ [WUpdate (log_key latest)
          [(''doc_id'', bytes_of (format_int docID)), (''doc_del'', bytes_of ''true'')]]))"

fun log_adds :: "(int \<times> float32 list) list \<Rightarrow> int \<times> (int \<rightharpoonup> int) \<times> wop list \<Rightarrow> int \<times> (int \<rightharpoonup> int) \<times> wop list" where
  "log_adds [] st = st"
| "log_adds ((docID, vec) # rest) (latest, ts, ops) =
     (let latest = latest + 1 in
      log_adds rest (latest, ts(docID \<mapsto> latest),
        ops @ [WUpdate (log_key latest)
          [(''doc_id'', bytes_of (format_int docID)), (''vector'', VectorToBytes vec)]]))"

text \<open>How many documents a batch adds to the segment or takes from it.\<close>

definition delta_map :: "int list \<Rightarrow> int list \<Rightarrow> (int \<rightharpoonup> int)" where
  "delta_map addIDs delIDs =
     foldl (\<lambda>m k. m(k \<mapsto> 1)) (foldl (\<lambda>m k. m(k \<mapsto> - 1)) Map.empty delIDs) addIDs"

fun count_loop :: "'x usearch \<Rightarrow> ('w, 'x) hnsw_seg \<Rightarrow> (int \<rightharpoonup> int) \<Rightarrow> int list \<Rightarrow> int \<Rightarrow> error + int" where
  "count_loop us seg dm [] delta = Inr delta"
| "count_loop us seg dm (docID # rest) delta =
     (let count = the (dm docID) in
      if docIDIndex (cache seg) docID \<noteq> None
      then count_loop us seg dm rest (if count < 0 then delta + count else delta)
      else if docTS seg docID \<noteq> None
      then count_loop us seg dm rest (if count > 0 then delta + count else delta)
      else (case index seg of
          None \<Rightarrow> count_loop us seg dm rest (if count > 0 then delta + count else delta)
        | Some x \<Rightarrow> (case us_contains us x docID of
              Inl e \<Rightarrow> Inl (wrap ''failed to check if index contains docID'' e)
            | Inr ok \<Rightarrow> count_loop us seg dm rest
                (if ok \<and> count < 0 then delta + count
                 else if \<not> ok \<and> count > 0 then delta + count else delta))))"

definition countDelta :: "'x usearch \<Rightarrow> (int list \<Rightarrow> int list) \<Rightarrow> ('w, 'x) hnsw_seg \<Rightarrow> int list \<Rightarrow> int list \<Rightarrow> error + int" where
  "countDelta us ko seg addIDs delIDs =
     count_loop us seg (delta_map addIDs delIDs) (ko (remdups (delIDs @ addIDs))) 0"

text \<open>
  \<^verbatim>\<open>Batch\<close> on a loaded segment. \<open>threshold\<close> is the value of \<^verbatim>\<open>int64(float64(HNSWMaxLogs) * 1.2)\<close>; above it
  the writes are throttled, and \<open>wait\<close> is the error of waiting. (That error returns with the lock
  released, and the deferred unlock then crashes: \<open>None\<close>.) A count that fails is logged and reads as 0.
\<close>

definition Batch :: "'w bluge \<Rightarrow> 'x usearch \<Rightarrow> (int list \<Rightarrow> int list) \<Rightarrow> int \<Rightarrow> error option
    \<Rightarrow> int list \<Rightarrow> float32 list list \<Rightarrow> int list \<Rightarrow> ('w, 'x) hnsw_seg
    \<Rightarrow> ((error + int) \<times> ('w, 'x) hnsw_seg) option" where
  "Batch api us ko threshold wait addIDs vectors delIDs seg =
     (if threshold < latestLogID seg - hnswLogID seg \<and> addIDs @ delIDs \<noteq> [] \<and> wait \<noteq> None then None
      else Some (
        if length addIDs \<noteq> length vectors then
          (Inl ''invalid parameters: size of docIDs and vectors not equal'', seg)
        else if \<exists>v\<in>set vectors. length v \<noteq> dimensions seg then
          (Inl ''wrong dimension for vector'', seg)
        else
          let (latest, ts, ops) = log_adds (zip addIDs vectors) (log_dels delIDs (latestLogID seg, Map.empty, []));
              ops = ops @ [WUpdate ''latest_log_id'' [(''log_id'', bytes_of (format_int latest))]]
          in case bl_batch api (writer seg) ops of
               Inl e \<Rightarrow> (Inl (wrap ''failed to write bluge batch'' e), seg)
             | Inr w \<Rightarrow>
                 let count = (case countDelta us ko seg addIDs delIDs of Inl _ \<Rightarrow> 0 | Inr n \<Rightarrow> n);
                     d = dimensions seg;
                     c = foldl (deleteCache d) (cache seg) delIDs;
                     c = foldl (\<lambda>c (k, v). updateCache d c k v) c (zip addIDs vectors)
                 in (Inr count, seg\<lparr>writer := w, latestLogID := latest, cache := c, docTS := docTS seg ++ ts\<rparr>)))"

definition NeedRebuildHNSW :: "int \<Rightarrow> ('w, 'x) hnsw_seg \<Rightarrow> bool" where
  "NeedRebuildHNSW hnswMaxLogs seg \<longleftrightarrow> hnswMaxLogs < latestLogID seg - hnswLogID seg"

subsection \<open>Rebuilding the index\<close>

text \<open>
  The worker takes the lock only for short moments, so that batches run between its parts:
  reading the log, writing the documents, building and saving the index from a snapshot of the
  documents (which only the worker writes), reading the applied log, dropping it from the
  store, and updating the memory.
\<close>

definition apply_ops :: "(int list \<Rightarrow> int list) \<Rightarrow> int \<Rightarrow> log_row list \<Rightarrow> wop list" where
  "apply_ops ko latest rows =
     (let rows = filter (\<lambda>row. \<not> latest < ID row) rows; logs = newest rows in
      map (\<lambda>k. let row = the (logs k) in
             if DocDel row then WDelete (doc_key (DocID row))
             else WUpdate (doc_key (DocID row)) [(''vector'', VectorToBytes (Vector row))])
        (ko (remdups (map DocID rows))))"

definition applyLogs_read :: "'w bluge \<Rightarrow> (int list \<Rightarrow> int list) \<Rightarrow> ('w, 'x) hnsw_seg \<Rightarrow> error + int \<times> wop list" where
  "applyLogs_read api ko seg =
     (case readHNSWLogRows api (writer seg) of
        Inl e \<Rightarrow> Inl e
      | Inr rows \<Rightarrow> Inr (latestLogID seg, apply_ops ko (latestLogID seg) rows))"

definition applyLogs_write :: "'w bluge \<Rightarrow> wop list \<Rightarrow> ('w, 'x) hnsw_seg \<Rightarrow> error + ('w, 'x) hnsw_seg" where
  "applyLogs_write api ops seg =
     (case bl_batch api (writer seg) ops of
        Inl e \<Rightarrow> Inl (wrap ''failed to write bluge batch'' e)
      | Inr w \<Rightarrow> Inr (seg\<lparr>writer := w\<rparr>))"

fun add_all :: "'x usearch \<Rightarrow> 'x \<Rightarrow> (int \<times> float32 list) list \<Rightarrow> error + 'x" where
  "add_all us x [] = Inr x"
| "add_all us x ((k, v) # rest) = (case us_add us x k v of Inl e \<Rightarrow> Inl e | Inr x \<Rightarrow> add_all us x rest)"

text \<open>\<open>io\<close> is the error of saving the index to a temporary file or to the storage.\<close>

definition buildHNSW :: "'w bluge \<Rightarrow> 'x usearch \<Rightarrow> error option \<Rightarrow> ('w, 'x) hnsw_seg
    \<Rightarrow> error + 'x \<times> ('w, 'x) hnsw_seg" where
  "buildHNSW api us io seg =
     (case us_new us of
        Inl e \<Rightarrow> Inl (wrap ''failed to create index'' e)
      | Inr x0 \<Rightarrow> (case bl_prefix api (writer seg) ''doc/'' of
          Inl e \<Rightarrow> Inl (wrap ''failed to count hnsw doc rows'' e)
        | Inr docs \<Rightarrow> (case us_reserve us x0 (length docs) of
            Inl e \<Rightarrow> Inl (wrap ''failed to reserve index'' e)
          | Inr x1 \<Rightarrow> (case readHNSWDocRows api (writer seg) of
              Inl e \<Rightarrow> Inl e
            | Inr rows \<Rightarrow> (case add_all us x1 rows of
                Inl e \<Rightarrow> Inl (wrap ''failed to add index'' e)
              | Inr x \<Rightarrow> (case io of
                  Some e \<Rightarrow> Inl (wrap ''failed to save index'' e)
                | None \<Rightarrow> Inr (x, seg\<lparr>hnsw_file := Some x\<rparr>)))))))"

definition cleanLogs_read :: "'w bluge \<Rightarrow> int \<Rightarrow> ('w, 'x) hnsw_seg \<Rightarrow> error + int list \<times> wop list" where
  "cleanLogs_read api logID seg =
     (case readHNSWLogRows api (writer seg) of
        Inl e \<Rightarrow> Inl e
      | Inr rows \<Rightarrow>
          let rows = filter (\<lambda>row. \<not> logID < ID row) rows
          in Inr (remdups (map DocID rows), map (\<lambda>row. WDelete (log_key (ID row))) rows
               @ [WUpdate ''hnsw_log_id'' [(''log_id'', bytes_of (format_int logID))]]))"

definition cleanLogs_write :: "'w bluge \<Rightarrow> wop list \<Rightarrow> ('w, 'x) hnsw_seg \<Rightarrow> error + ('w, 'x) hnsw_seg" where
  "cleanLogs_write api ops seg =
     (case bl_batch api (writer seg) ops of
        Inl e \<Rightarrow> Inl (wrap ''failed to write bluge batch'' e)
      | Inr w \<Rightarrow> Inr (seg\<lparr>writer := w\<rparr>))"

text \<open>A missing timestamp reads as 0.\<close>

definition clean_doc :: "int \<Rightarrow> nat \<Rightarrow> vcache \<times> (int \<rightharpoonup> int) \<Rightarrow> int \<Rightarrow> vcache \<times> (int \<rightharpoonup> int)" where
  "clean_doc logID d st docID =
     (if (case snd st docID of None \<Rightarrow> 0 | Some t \<Rightarrow> t) \<le> logID
      then (deleteCache d (fst st) docID, (snd st)(docID := None)) else st)"

definition cleanLogs_memory :: "int \<Rightarrow> int list \<Rightarrow> 'x \<Rightarrow> ('w, 'x) hnsw_seg \<Rightarrow> ('w, 'x) hnsw_seg" where
  "cleanLogs_memory logID docs x seg =
     (let (c, ts) = foldl (clean_doc logID (dimensions seg)) (cache seg, docTS seg) docs
      in seg\<lparr>hnswLogID := logID, cache := c, docTS := ts, index := Some x\<rparr>)"

text \<open>The worker's run with nothing in between; a failing part leaves what earlier parts did.\<close>

definition BuildHNSW :: "'w bluge \<Rightarrow> 'x usearch \<Rightarrow> (int list \<Rightarrow> int list) \<Rightarrow> error option \<Rightarrow> ('w, 'x) hnsw_seg
    \<Rightarrow> error option \<times> ('w, 'x) hnsw_seg" where
  "BuildHNSW api us ko io seg =
     (case applyLogs_read api ko seg of
        Inl e \<Rightarrow> (Some (wrap ''failed to apply logs'' e), seg)
      | Inr (logID, ops) \<Rightarrow> (case applyLogs_write api ops seg of
          Inl e \<Rightarrow> (Some (wrap ''failed to apply logs'' e), seg)
        | Inr seg1 \<Rightarrow> (case buildHNSW api us io seg1 of
            Inl e \<Rightarrow> (Some (wrap ''failed to build hnsw'' e), seg1)
          | Inr (x, seg2) \<Rightarrow> (case cleanLogs_read api logID seg2 of
              Inl e \<Rightarrow> (Some (wrap ''failed to clean logs'' e), seg2)
            | Inr (docs, ops) \<Rightarrow> (case cleanLogs_write api ops seg2 of
                Inl e \<Rightarrow> (Some (wrap ''failed to clean logs'' e), seg2)
              | Inr seg3 \<Rightarrow> (None, cleanLogs_memory logID (ko docs) x seg3))))))"

end
