(* ===== verification/Hnsw_View.thy ===== *)
theory Hnsw_View
  imports Hnsw_Segment
begin

text \<open>
  Correctness of the HNSW segment. The stored documents encode a log \<open>L\<close>, the materialised
  vectors \<open>D\<close> and two log ids; the vectors of the segment are the log applied over the
  documents. Every batch changes this view the way a batch changes a map, and the worker
  and restarts leave it alone, in every interleaving.
\<close>

section \<open>The encoding of the store\<close>

definition in64 :: "int \<Rightarrow> bool" where
  "in64 n \<longleftrightarrow> - (2 ^ 63) \<le> n \<and> n < 2 ^ 63"

type_synonym entry = "int \<times> float32 list option"
type_synonym logs = "int \<rightharpoonup> entry"

definition log_fields :: "entry \<Rightarrow> fields" where
  "log_fields e = (''doc_id'', bytes_of (format_int (fst e))) #
     (case snd e of None \<Rightarrow> [(''doc_del'', bytes_of ''true'')] | Some v \<Rightarrow> [(''vector'', VectorToBytes v)])"

definition doc_fields :: "float32 list \<Rightarrow> fields" where
  "doc_fields v = [(''vector'', VectorToBytes v)]"

definition id_fields :: "int \<Rightarrow> fields" where
  "id_fields n = [(''log_id'', bytes_of (format_int n))]"

definition num64 :: "string \<Rightarrow> bool" where
  "num64 t \<longleftrightarrow> (\<exists>n. in64 n \<and> t = format_int n)"

definition num_of :: "string \<Rightarrow> int" where
  "num_of t = the (parse_int64 t)"

definition encode :: "logs \<Rightarrow> (int \<rightharpoonup> float32 list) \<Rightarrow> int option \<Rightarrow> int option \<Rightarrow> (string \<rightharpoonup> fields)" where
  "encode L D h l s =
     (if s = ''hnsw_log_id'' then map_option id_fields h
      else if s = ''latest_log_id'' then map_option id_fields l
      else if take 4 s = ''log/'' \<and> num64 (drop 4 s) then map_option log_fields (L (num_of (drop 4 s)))
      else if take 4 s = ''doc/'' \<and> num64 (drop 4 s) then map_option doc_fields (D (num_of (drop 4 s)))
      else None)"

fun apply_wop :: "(string \<rightharpoonup> fields) \<Rightarrow> wop \<Rightarrow> (string \<rightharpoonup> fields)" where
  "apply_wop m (WUpdate i f) = m(i \<mapsto> f)"
| "apply_wop m (WDelete i) = m(i := None)"

text \<open>What the segment relies on of Bluge: a batch that succeeds has applied its operations in order,
  and a search returns each matching document once, its id first.\<close>

definition stored :: "(string \<rightharpoonup> fields) \<Rightarrow> string \<Rightarrow> fields" where
  "stored v i = (''_id'', bytes_of i) # the (v i)"

definition bluge_ok :: "'w bluge \<Rightarrow> ('w \<Rightarrow> (string \<rightharpoonup> fields)) \<Rightarrow> bool" where
  "bluge_ok api view \<longleftrightarrow>
     (\<forall>w ops w'. bl_batch api w ops = Inr w' \<longrightarrow> view w' = foldl apply_wop (view w) ops)
     \<and> (\<forall>w p ds. bl_prefix api w p = Inr ds \<longrightarrow>
          (\<exists>is. distinct is \<and> set is = {i \<in> dom (view w). take (length p) i = p} \<and> ds = map (stored (view w)) is))
     \<and> (\<forall>w ts ds. bl_terms api w ts = Inr ds \<longrightarrow>
          (\<exists>is. distinct is \<and> set is = dom (view w) \<inter> set ts \<and> ds = map (stored (view w)) is))"

lemma bluge_batch: "bluge_ok api view \<Longrightarrow> bl_batch api w ops = Inr w' \<Longrightarrow> view w' = foldl apply_wop (view w) ops"
  unfolding bluge_ok_def by blast

lemma bluge_prefix:
  assumes "bluge_ok api view" and "bl_prefix api w p = Inr ds" and len: "length p = 4"
  shows "\<exists>ids. distinct ids \<and> set ids = {i \<in> dom (view w). take 4 i = p} \<and> ds = map (stored (view w)) ids"
  unfolding len [symmetric] using assms(1,2) unfolding bluge_ok_def by blast

lemma bluge_terms:
  "bluge_ok api view \<Longrightarrow> bl_terms api w ts = Inr ds \<Longrightarrow>
   \<exists>ids. distinct ids \<and> set ids = dom (view w) \<inter> set ts \<and> ds = map (stored (view w)) ids"
  unfolding bluge_ok_def by blast

lemma num_of_format [simp]: "in64 n \<Longrightarrow> num_of (format_int n) = n"
  by (simp add: num_of_def in64_def parse_format_int)

lemma num64_format [simp]: "in64 n \<Longrightarrow> num64 (format_int n)"
  by (auto simp: num64_def)

lemma num64_num_of: "num64 t \<Longrightarrow> in64 (num_of t) \<and> format_int (num_of t) = t"
  by (auto simp: num64_def)

lemma key_simps [simp]:
  "take 4 (log_key n) = ''log/''" "drop 4 (log_key n) = format_int n"
  "take 4 (doc_key n) = ''doc/''" "drop 4 (doc_key n) = format_int n"
  "log_key n \<noteq> doc_key k" "doc_key k \<noteq> log_key n"
  "log_key n \<noteq> ''hnsw_log_id''" "log_key n \<noteq> ''latest_log_id''"
  "doc_key n \<noteq> ''hnsw_log_id''" "doc_key n \<noteq> ''latest_log_id''"
  "''hnsw_log_id'' \<noteq> log_key n" "''latest_log_id'' \<noteq> log_key n"
  "''hnsw_log_id'' \<noteq> doc_key n" "''latest_log_id'' \<noteq> doc_key n"
  by (simp_all add: log_key_def doc_key_def)

lemma log_key_iff: "take 4 s = ''log/'' \<and> num64 (drop 4 s) \<longleftrightarrow> (\<exists>n. in64 n \<and> s = log_key n)"
proof
  assume "take 4 s = ''log/'' \<and> num64 (drop 4 s)"
  then have "s = log_key (num_of (drop 4 s)) \<and> in64 (num_of (drop 4 s))"
    using num64_num_of [of "drop 4 s"] by (metis append_take_drop_id log_key_def)
  then show "\<exists>n. in64 n \<and> s = log_key n" by blast
qed auto

lemma doc_key_iff: "take 4 s = ''doc/'' \<and> num64 (drop 4 s) \<longleftrightarrow> (\<exists>n. in64 n \<and> s = doc_key n)"
proof
  assume "take 4 s = ''doc/'' \<and> num64 (drop 4 s)"
  then have "s = doc_key (num_of (drop 4 s)) \<and> in64 (num_of (drop 4 s))"
    using num64_num_of [of "drop 4 s"] by (metis append_take_drop_id doc_key_def)
  then show "\<exists>n. in64 n \<and> s = doc_key n" by blast
qed auto

lemma key_inj:
  "in64 n \<Longrightarrow> in64 m \<Longrightarrow> log_key n = log_key m \<longleftrightarrow> n = m"
  "in64 n \<Longrightarrow> in64 m \<Longrightarrow> doc_key n = doc_key m \<longleftrightarrow> n = m"
  by (auto simp: log_key_def doc_key_def in64_def format_int_inj)

lemma encode_at [simp]:
  "encode L D h l ''hnsw_log_id'' = map_option id_fields h"
  "encode L D h l ''latest_log_id'' = map_option id_fields l"
  "in64 n \<Longrightarrow> encode L D h l (log_key n) = map_option log_fields (L n)"
  "in64 n \<Longrightarrow> encode L D h l (doc_key n) = map_option doc_fields (D n)"
  by (simp_all add: encode_def)

lemma encode_other:
  assumes "s \<noteq> ''hnsw_log_id''" "s \<noteq> ''latest_log_id''"
    and "\<And>n. in64 n \<Longrightarrow> s \<noteq> log_key n" "\<And>n. in64 n \<Longrightarrow> s \<noteq> doc_key n"
  shows "encode L D h l s = None"
  using assms log_key_iff [of s] doc_key_iff [of s] by (auto simp: encode_def)

lemma key_cases:
  obtains "s = ''hnsw_log_id''" | "s = ''latest_log_id''" | n where "in64 n" "s = log_key n"
  | n where "in64 n" "s = doc_key n"
  | "s \<noteq> ''hnsw_log_id''" "s \<noteq> ''latest_log_id''" "\<And>n. in64 n \<Longrightarrow> s \<noteq> log_key n" "\<And>n. in64 n \<Longrightarrow> s \<noteq> doc_key n"
  by blast

lemma encode_eqI:
  assumes "v ''hnsw_log_id'' = map_option id_fields h" "v ''latest_log_id'' = map_option id_fields l"
    and "\<And>n. in64 n \<Longrightarrow> v (log_key n) = map_option log_fields (L n)"
    and "\<And>n. in64 n \<Longrightarrow> v (doc_key n) = map_option doc_fields (D n)"
    and "\<And>s. s \<noteq> ''hnsw_log_id'' \<Longrightarrow> s \<noteq> ''latest_log_id'' \<Longrightarrow> (\<And>n. in64 n \<Longrightarrow> s \<noteq> log_key n) \<Longrightarrow>
      (\<And>n. in64 n \<Longrightarrow> s \<noteq> doc_key n) \<Longrightarrow> v s = None"
  shows "v = encode L D h l"
proof
  fix s
  show "v s = encode L D h l s"
    by (rule key_cases [of s]) (use assms encode_other in \<open>auto\<close>)
qed

text \<open>One operation on the store is one change of what it encodes.\<close>

lemma encode_log: "in64 n \<Longrightarrow> (encode L D h l)(log_key n \<mapsto> log_fields e) = encode (L(n \<mapsto> e)) D h l"
  by (rule encode_eqI) (auto simp: key_inj encode_other)

lemma encode_unlog: "in64 n \<Longrightarrow> (encode L D h l)(log_key n := None) = encode (L(n := None)) D h l"
  by (rule encode_eqI) (auto simp: key_inj encode_other)

lemma encode_doc: "in64 k \<Longrightarrow> (encode L D h l)(doc_key k \<mapsto> doc_fields v) = encode L (D(k \<mapsto> v)) h l"
  by (rule encode_eqI) (auto simp: key_inj encode_other)

lemma encode_undoc: "in64 k \<Longrightarrow> (encode L D h l)(doc_key k := None) = encode L (D(k := None)) h l"
  by (rule encode_eqI) (auto simp: key_inj encode_other)

lemma encode_ids:
  "(encode L D h l)(''hnsw_log_id'' \<mapsto> id_fields n) = encode L D (Some n) l"
  "(encode L D h l)(''latest_log_id'' \<mapsto> id_fields n) = encode L D h (Some n)"
  by (rule encode_eqI; auto simp: encode_other)+

section \<open>Reading the store\<close>

text \<open>The ids in the store are int64 values, and there are finitely many log records.\<close>

definition logs_ok :: "logs \<Rightarrow> bool" where
  "logs_ok L \<longleftrightarrow> finite (dom L) \<and> (\<forall>n k ov. L n = Some (k, ov) \<longrightarrow> in64 n \<and> in64 k)"

definition row_of :: "int \<Rightarrow> entry \<Rightarrow> log_row" where
  "row_of n e = \<lparr>ID = n, DocID = fst e, DocDel = (snd e = None), Vector = (case snd e of None \<Rightarrow> [] | Some v \<Rightarrow> v)\<rparr>"

lemma parse_row:
  assumes "in64 n" "in64 (fst e)"
  shows "foldl log_field (Inr empty_row) ((''_id'', bytes_of (log_key n)) # log_fields e) = Inr (row_of n e)"
  using assms
  by (cases "snd e") (simp_all add: log_fields_def log_field_def empty_row_def row_of_def in64_def
    parse_format_int)

lemma traverse_map: "(\<And>x. x \<in> set xs \<Longrightarrow> f (g x) = Inr (k x)) \<Longrightarrow> traverse f (map g xs) = Inr (map k xs)"
  by (induction xs) auto

lemma read_logs:
  assumes ok: "bluge_ok api view" and v: "view w = encode L D h l" and L: "logs_ok L"
    and r: "readHNSWLogRows api w = Inr rows"
  obtains ns where "distinct ns" "set ns = dom L" "rows = map (\<lambda>n. row_of n (the (L n))) ns"
proof -
  obtain ds where ds: "bl_prefix api w ''log/'' = Inr ds"
    using r by (auto simp: readHNSWLogRows_def split: sum.splits)
  from bluge_prefix [OF ok ds] obtain ids where ids: "distinct ids"
    "set ids = {i \<in> dom (view w). take 4 i = ''log/''}" "ds = map (stored (view w)) ids" by force
  have mem: "\<exists>n\<in>dom L. i = log_key n" if "i \<in> set ids" for i
  proof -
    from that ids(2) obtain f where f: "encode L D h l i = Some f" "take 4 i = ''log/''" by (auto simp: v)
    then have "num64 (drop 4 i)" by (auto simp: encode_def split: if_splits)
    with f(2) log_key_iff obtain n where "in64 n" "i = log_key n" by blast
    with f(1) show ?thesis by auto
  qed
  define ns where "ns = map (\<lambda>i. num_of (drop 4 i)) ids"
  have in64: "in64 n" if "n \<in> dom L" for n using that L by (auto simp: logs_ok_def)
  have ids_ns: "ids = map log_key ns"
    unfolding ns_def map_map by (rule map_idI [symmetric]) (use mem in64 in force)
  show ?thesis
  proof (rule that)
    show "distinct ns" using ids(1) unfolding ids_ns by (simp add: distinct_map)
    show dom: "set ns = dom L"
    proof
      show "set ns \<subseteq> dom L" using mem in64 unfolding ns_def by force
      show "dom L \<subseteq> set ns"
      proof
        fix n assume n: "n \<in> dom L"
        then have "log_key n \<in> set ids" using ids(2) in64 [OF n] by (auto simp: v)
        with in64 [OF n] show "n \<in> set ns" unfolding ns_def by force
      qed
    qed
    have "foldl log_field (Inr empty_row) (stored (view w) (log_key n)) = Inr (row_of n (the (L n)))" if n: "n \<in> set ns" for n
    proof -
      obtain k ov where e: "L n = Some (k, ov)" using n dom by auto
      then have "in64 n" "in64 k" using L by (auto simp: logs_ok_def)
      with e parse_row [of n "(k, ov)"] show ?thesis by (simp add: stored_def v)
    qed
    then have "traverse (\<lambda>doc. foldl log_field (Inr empty_row) doc) (map (\<lambda>n. stored (view w) (log_key n)) ns)
        = Inr (map (\<lambda>n. row_of n (the (L n))) ns)" by (rule traverse_map)
    with r ds ids(3) show "rows = map (\<lambda>n. row_of n (the (L n))) ns"
      by (simp add: readHNSWLogRows_def ids_ns o_def)
  qed
qed

lemma parse_doc: "in64 k \<Longrightarrow> foldl doc_field (Inr (0, [])) ((''_id'', bytes_of (doc_key k)) # doc_fields v) = Inr (k, v)"
  by (simp add: doc_fields_def doc_field_def in64_def parse_format_int)

definition docs_ok :: "(int \<rightharpoonup> float32 list) \<Rightarrow> bool" where
  "docs_ok D \<longleftrightarrow> (\<forall>k\<in>dom D. in64 k)"

text \<open>The rows of the documents among the keys \<open>ks\<close>.\<close>

lemma parse_docs:
  assumes v: "view w = encode L D h l" and D: "docs_ok D"
    and ids: "distinct ids" "set ids = doc_key ` K" and K: "K \<subseteq> dom D"
  obtains ks where "distinct ks" "set ks = K"
    "traverse (\<lambda>doc. foldl doc_field (Inr (0, [])) doc) (map (stored (view w)) ids) = Inr (map (\<lambda>k. (k, the (D k))) ks)"
proof -
  have in64: "in64 k" if "k \<in> K" for k using that D K by (auto simp: docs_ok_def)
  define ks where "ks = map (\<lambda>i. num_of (drop 4 i)) ids"
  have ids_ks: "ids = map doc_key ks"
    unfolding ks_def map_map by (rule map_idI [symmetric]) (use ids(2) in64 in force)
  have set: "set ks = K" unfolding ks_def using ids(2) in64 by force
  have "foldl doc_field (Inr (0, [])) (stored (view w) (doc_key k)) = Inr (k, the (D k))" if "k \<in> set ks" for k
  proof -
    from that set K in64 obtain x where "D k = Some x" "in64 k" by blast
    with parse_doc [of k x] show ?thesis by (simp add: stored_def v)
  qed
  then have "traverse (\<lambda>doc. foldl doc_field (Inr (0, [])) doc) (map (\<lambda>k. stored (view w) (doc_key k)) ks)
      = Inr (map (\<lambda>k. (k, the (D k))) ks)" by (rule traverse_map)
  moreover have "distinct ks" using ids(1) unfolding ids_ks by (simp add: distinct_map)
  ultimately show ?thesis using that set by (simp add: ids_ks o_def)
qed

lemma read_docs:
  assumes ok: "bluge_ok api view" and v: "view w = encode L D h l" and D: "docs_ok D"
    and r: "readHNSWDocRows api w = Inr rows"
  obtains ks where "distinct ks" "set ks = dom D" "rows = map (\<lambda>k. (k, the (D k))) ks"
proof -
  obtain ds where ds: "bl_prefix api w ''doc/'' = Inr ds"
    using r by (auto simp: readHNSWDocRows_def split: sum.splits)
  from bluge_prefix [OF ok ds] obtain ids where ids: "distinct ids"
    "set ids = {i \<in> dom (view w). take 4 i = ''doc/''}" "ds = map (stored (view w)) ids" by force
  have "set ids = doc_key ` dom D"
  proof
    show "set ids \<subseteq> doc_key ` dom D"
    proof
      fix i assume "i \<in> set ids"
      with ids(2) obtain f where f: "encode L D h l i = Some f" "take 4 i = ''doc/''" by (auto simp: v)
      then have "num64 (drop 4 i)" by (auto simp: encode_def split: if_splits)
      with f(2) doc_key_iff obtain k where "in64 k" "i = doc_key k" by blast
      with f(1) show "i \<in> doc_key ` dom D" by auto
    qed
    have "doc_key k \<in> set ids" if "k \<in> dom D" for k
    proof -
      have "in64 k" using that D by (simp add: docs_ok_def)
      with that ids(2) show ?thesis by (auto simp: v)
    qed
    then show "doc_key ` dom D \<subseteq> set ids" by blast
  qed
  from parse_docs [where view = view and w = w, OF v D ids(1) this order_refl] that r ds ids(3) show ?thesis
    by (auto simp: readHNSWDocRows_def)
qed

lemma iter_rows_traverse: "traverse f xs = Inr ys \<Longrightarrow> iter_rows f xs = (ys, None)"
  by (induction xs arbitrary: ys) (auto split: sum.splits prod.splits)

lemma read_docs_by_ids:
  assumes ok: "bluge_ok api view" and v: "view w = encode L D h l" and D: "docs_ok D"
    and f: "\<forall>k\<in>set filt. in64 k" and ds: "bl_terms api w (map doc_key filt) = Inr ds"
  obtains ks where "distinct ks" "set ks = dom D \<inter> set filt"
    "readHNSWDocRowsByIDs api w filt = (map (\<lambda>k. (k, the (D k))) ks, None)"
proof -
  from bluge_terms [OF ok ds] obtain ids where ids: "distinct ids"
    "set ids = dom (view w) \<inter> set (map doc_key filt)" "ds = map (stored (view w)) ids" by blast
  have "set ids = doc_key ` (dom D \<inter> set filt)"
    unfolding ids(2) v using f by (auto intro!: imageI)
  from parse_docs [where view = view and w = w, OF v D ids(1) this Int_lower1]
  obtain ks where ks: "distinct ks" "set ks = dom D \<inter> set filt"
    "traverse (\<lambda>doc. foldl doc_field (Inr (0, [])) doc) ds = Inr (map (\<lambda>k. (k, the (D k))) ks)"
    unfolding ids(3) by blast
  from iter_rows_traverse [OF ks(3)] that [OF ks(1,2)] show ?thesis
    by (simp add: readHNSWDocRowsByIDs_def ds)
qed

lemma read_id:
  assumes ok: "bluge_ok api view" and s: "view w s = map_option id_fields x"
    and x: "\<And>m. x = Some m \<Longrightarrow> in64 m" and r: "readLogID api w s = Inr n"
  shows "n = (case x of None \<Rightarrow> 0 | Some m \<Rightarrow> m)"
proof -
  obtain ds where ds: "bl_terms api w [s] = Inr ds"
    using r by (auto simp: readLogID_def split: sum.splits)
  from bluge_terms [OF ok ds] obtain ids where ids: "distinct ids" "set ids = dom (view w) \<inter> {s}"
    "ds = map (stored (view w)) ids" by auto
  show ?thesis
  proof (cases x)
    case None
    with s ids(2) have "set ids = {}" by (auto simp: domIff)
    then have "ids = []" by simp
    with r ds ids(3) None show ?thesis by (simp add: readLogID_def)
  next
    case (Some m)
    then have "set ids = {s}" using s ids(2) by auto
    moreover from this have "length ids = 1" using distinct_card [OF ids(1)] by simp
    ultimately have "ids = [s]" by (cases ids) auto
    with r ds ids(3) s Some x [OF Some] show ?thesis
      by (simp add: readLogID_def stored_def id_fields_def in64_def parse_format_int)
  qed
qed

section \<open>The vectors of the segment\<close>

text \<open>The last log record of a document, and the log applied over the documents.\<close>

definition logs_of :: "logs \<Rightarrow> int \<Rightarrow> int set" where
  "logs_of L k = {n. \<exists>ov. L n = Some (k, ov)}"

definition last_of :: "logs \<Rightarrow> int \<Rightarrow> int option" where
  "last_of L k = (if logs_of L k = {} then None else Some (Max (logs_of L k)))"

definition visible :: "logs \<Rightarrow> (int \<rightharpoonup> float32 list) \<Rightarrow> (int \<rightharpoonup> float32 list)" where
  "visible L D k = (case last_of L k of None \<Rightarrow> D k | Some n \<Rightarrow> snd (the (L n)))"

definition put_all :: "(int \<rightharpoonup> float32 list) \<Rightarrow> entry list \<Rightarrow> (int \<rightharpoonup> float32 list)" where
  "put_all m es = foldl (\<lambda>m e. m(fst e := snd e)) m es"

lemma finite_logs_of: "finite (dom L) \<Longrightarrow> finite (logs_of L k)"
  by (rule finite_subset [of _ "dom L"]) (auto simp: logs_of_def)

lemma last_of_Some:
  assumes "finite (dom L)"
  shows "last_of L k = Some n \<longleftrightarrow> (\<exists>ov. L n = Some (k, ov)) \<and> (\<forall>m ov. L m = Some (k, ov) \<longrightarrow> m \<le> n)"
proof
  note f = finite_logs_of [OF assms, of k]
  assume "last_of L k = Some n"
  then have "logs_of L k \<noteq> {}" "n = Max (logs_of L k)" by (auto simp: last_of_def split: if_splits)
  with Max_in [OF f] Max_ge [OF f] show "(\<exists>ov. L n = Some (k, ov)) \<and> (\<forall>m ov. L m = Some (k, ov) \<longrightarrow> m \<le> n)"
    by (auto simp: logs_of_def)
next
  note f = finite_logs_of [OF assms, of k]
  assume n: "(\<exists>ov. L n = Some (k, ov)) \<and> (\<forall>m ov. L m = Some (k, ov) \<longrightarrow> m \<le> n)"
  then have "n \<in> logs_of L k" by (simp add: logs_of_def)
  moreover have "Max (logs_of L k) = n"
    using f n by (intro Max_eqI) (auto simp: logs_of_def)
  ultimately show "last_of L k = Some n" by (auto simp: last_of_def)
qed

lemma last_of_None: "last_of L k = None \<longleftrightarrow> (\<forall>n ov. L n \<noteq> Some (k, ov))"
  by (auto simp: last_of_def logs_of_def)

lemma last_of_at: "finite (dom L) \<Longrightarrow> last_of L k = Some n \<Longrightarrow> L n = Some (k, snd (the (L n)))"
  by (auto simp: last_of_Some)

text \<open>Appending a record with a new highest id.\<close>

lemma last_of_append:
  assumes "finite (dom L)" and "\<forall>m\<in>dom L. m < n"
  shows "last_of (L(n \<mapsto> (k, ov))) k' = (if k' = k then Some n else last_of L k')"
proof (cases "k' = k")
  case True
  have "m \<le> n" if "L m = Some e" for m e using assms(2) that by (auto intro: less_imp_le)
  with True assms(1) show ?thesis by (auto simp: last_of_Some)
next
  case False
  have new: "L n = None" using assms(2) by (meson domIff less_irrefl)
  have "logs_of (L(n \<mapsto> (k, ov))) k' = logs_of L k'"
    using False new by (auto simp: logs_of_def split: if_splits)
  with False show ?thesis by (simp add: last_of_def)
qed

lemma visible_append:
  assumes "finite (dom L)" and "\<forall>m\<in>dom L. m < n"
  shows "visible (L(n \<mapsto> (k, ov))) D = (visible L D)(k := ov)"
proof
  fix k'
  have "n' \<noteq> n" if "last_of L k' = Some n'" for n'
    using last_of_at [OF assms(1) that] assms(2) by auto
  then show "visible (L(n \<mapsto> (k, ov))) D k' = ((visible L D)(k := ov)) k'"
    by (auto simp: visible_def last_of_append [OF assms] split: option.split)
qed

text \<open>Dropping the records up to an id.\<close>

definition until :: "logs \<Rightarrow> int \<Rightarrow> logs" where
  "until L i = L |` {n. n \<le> i}"

definition beyond :: "logs \<Rightarrow> int \<Rightarrow> logs" where
  "beyond L i = L |` {n. i < n}"

lemma until_beyond_at: "until L i n = (if n \<le> i then L n else None)" "beyond L i n = (if i < n then L n else None)"
  by (simp_all add: until_def beyond_def restrict_map_def)

lemma last_of_beyond:
  assumes "finite (dom L)"
  shows "last_of (beyond L i) k = (case last_of L k of None \<Rightarrow> None | Some n \<Rightarrow> if i < n then Some n else None)"
proof -
  have fin: "finite (dom (beyond L i))" using assms by (rule finite_subset [rotated]) (auto simp: until_beyond_at split: if_splits)
  show ?thesis
  proof (cases "last_of L k")
    case None
    then have "last_of (beyond L i) k = None" by (simp add: last_of_None until_beyond_at)
    with None show ?thesis by simp
  next
    case (Some n)
    then have n: "\<exists>ov. L n = Some (k, ov)" "\<forall>m ov. L m = Some (k, ov) \<longrightarrow> m \<le> n"
      using assms by (simp_all add: last_of_Some)
    show ?thesis
    proof (cases "i < n")
      case True
      with n have "last_of (beyond L i) k = Some n"
        by (simp add: last_of_Some [OF fin] until_beyond_at)
      with Some True show ?thesis by simp
    next
      case False
      with n(2) have "last_of (beyond L i) k = None"
        by (auto simp: last_of_None until_beyond_at)
      with Some False show ?thesis by simp
    qed
  qed
qed

lemma last_of_until:
  assumes "finite (dom L)" and "last_of L k = Some n" and "n \<le> i"
  shows "last_of (until L i) k = Some n"
proof -
  have fin: "finite (dom (until L i))" using assms(1) by (rule finite_subset [rotated]) (auto simp: until_beyond_at split: if_splits)
  from assms show ?thesis by (auto simp: last_of_Some [OF fin] last_of_Some until_beyond_at)
qed

text \<open>When the documents hold the state of the log up to an id, that part of the log can go.\<close>

lemma visible_beyond:
  assumes fin: "finite (dom L)" and D: "\<And>k n. last_of (until L i) k = Some n \<Longrightarrow> D k = snd (the (L n))"
  shows "visible (beyond L i) D = visible L D"
proof
  fix k
  show "visible (beyond L i) D k = visible L D k"
  proof (cases "last_of L k")
    case None
    then show ?thesis by (simp add: visible_def last_of_beyond [OF fin])
  next
    case (Some n)
    then show ?thesis
      using D [of k n] last_of_until [OF fin Some, of i]
      by (cases "i < n") (simp_all add: visible_def last_of_beyond [OF fin] until_beyond_at)
  qed
qed

text \<open>The newest rows that the code collects are the last records.\<close>

lemma newest_spec:
  "(newest rows k = None \<longleftrightarrow> (\<forall>r\<in>set rows. DocID r \<noteq> k))
   \<and> (\<forall>r. newest rows k = Some r \<longrightarrow> r \<in> set rows \<and> DocID r = k \<and> (\<forall>r'\<in>set rows. DocID r' = k \<longrightarrow> ID r' \<le> ID r))"
proof (induction rows rule: rev_induct)
  case Nil
  show ?case by (simp add: newest_def)
next
  case (snoc x xs)
  have step: "newest (xs @ [x]) = (case newest xs (DocID x) of
       None \<Rightarrow> (newest xs)(DocID x \<mapsto> x)
     | Some r \<Rightarrow> if ID r < ID x then (newest xs)(DocID x \<mapsto> x) else newest xs)"
    by (simp only: newest_def foldl_append foldl.simps)
  show ?case
  proof (cases "DocID x = k")
    case False
    then have "newest (xs @ [x]) k = newest xs k" by (simp add: step split: option.split)
    with snoc False show ?thesis by auto
  next
    case True
    show ?thesis
    proof (cases "newest xs k")
      case None
      then have "newest (xs @ [x]) k = Some x" by (simp add: step True)
      with snoc None True show ?thesis by auto
    next
      case (Some r)
      then have "newest (xs @ [x]) k = Some (if ID r < ID x then x else r)" by (simp add: step True)
      with snoc Some True show ?thesis by (force split: if_splits)
    qed
  qed
qed

lemma newest_last_of:
  assumes fin: "finite (dom L)" and ns: "set ns = dom L" and rows: "rows = map (\<lambda>n. row_of n (the (L n))) ns"
  shows "newest rows k = map_option (\<lambda>n. row_of n (the (L n))) (last_of L k)"
proof (cases "newest rows k")
  case None
  have "L n \<noteq> Some (k, ov)" for n ov
  proof
    assume n: "L n = Some (k, ov)"
    then have "row_of n (k, ov) \<in> set rows" using ns by (force simp: rows)
    with None newest_spec [of rows k] show False by (force simp: row_of_def)
  qed
  with None show ?thesis by (simp add: last_of_None [THEN iffD2])
next
  case (Some r)
  with newest_spec [of rows k] have r: "r \<in> set rows" "DocID r = k" "\<forall>r'\<in>set rows. DocID r' = k \<longrightarrow> ID r' \<le> ID r"
    by auto
  then obtain n where n: "n \<in> dom L" "r = row_of n (the (L n))" using ns by (auto simp: rows)
  have "m \<le> n" if "L m = Some (k, ov)" for m ov
  proof -
    from that have "row_of m (k, ov) \<in> set rows" using ns by (force simp: rows)
    with r(3) n(2) show ?thesis by (force simp: row_of_def)
  qed
  moreover have "\<exists>ov. L n = Some (k, ov)" using n r(2) by (auto simp: row_of_def)
  ultimately have "last_of L k = Some n" using fin by (simp add: last_of_Some)
  with Some n show ?thesis by simp
qed

section \<open>The log of a batch\<close>

fun add_logs :: "logs \<Rightarrow> int \<Rightarrow> entry list \<Rightarrow> logs" where
  "add_logs L i [] = L"
| "add_logs L i (e # es) = add_logs (L(i + 1 \<mapsto> e)) (i + 1) es"

fun log_entries :: "entry list \<Rightarrow> int \<times> (int \<rightharpoonup> int) \<times> wop list \<Rightarrow> int \<times> (int \<rightharpoonup> int) \<times> wop list" where
  "log_entries [] st = st"
| "log_entries (e # es) (latest, ts, ops) =
     log_entries es (latest + 1, ts(fst e \<mapsto> latest + 1), ops @ [WUpdate (log_key (latest + 1)) (log_fields e)])"

definition batch_entries :: "int list \<Rightarrow> float32 list list \<Rightarrow> int list \<Rightarrow> entry list" where
  "batch_entries addIDs vectors delIDs =
     map (\<lambda>k. (k, None)) delIDs @ map (\<lambda>(k, v). (k, Some v)) (zip addIDs vectors)"

lemma log_entries_append: "log_entries (xs @ ys) st = log_entries ys (log_entries xs st)"
  by (induction xs st rule: log_entries.induct) simp_all

lemma log_dels_entries: "log_dels ks st = log_entries (map (\<lambda>k. (k, None)) ks) st"
  by (induction ks st rule: log_dels.induct) (simp_all add: Let_def log_fields_def)

lemma log_adds_entries: "log_adds kvs st = log_entries (map (\<lambda>(k, v). (k, Some v)) kvs) st"
  by (induction kvs st rule: log_adds.induct) (simp_all add: Let_def log_fields_def)

lemma log_batch:
  "log_adds (zip addIDs vectors) (log_dels delIDs st) = log_entries (batch_entries addIDs vectors delIDs) st"
  by (simp add: batch_entries_def log_entries_append log_dels_entries log_adds_entries)

lemma add_logs_ok:
  assumes "logs_ok L" and "\<forall>n\<in>dom L. n \<le> i" and "\<forall>e\<in>set es. in64 (fst e)" and "0 \<le> i" and "i + int (length es) < 2 ^ 63"
  shows "logs_ok (add_logs L i es) \<and> (\<forall>n\<in>dom (add_logs L i es). n \<le> i + int (length es))
     \<and> visible (add_logs L i es) D = put_all (visible L D) es \<and> until (add_logs L i es) i = until L i"
  using assms
proof (induction es arbitrary: L i)
  case Nil
  then show ?case by (simp add: put_all_def)
next
  case (Cons e es)
  let ?L = "L(i + 1 \<mapsto> e)"
  have lt: "\<forall>m\<in>dom L. m < i + 1" using Cons.prems(2) by force
  have fin: "finite (dom L)" using Cons.prems(1) by (simp add: logs_ok_def)
  have "logs_ok ?L"
    using Cons.prems by (cases e) (simp add: logs_ok_def in64_def)
  then have IH: "logs_ok (add_logs ?L (i + 1) es) \<and> (\<forall>n\<in>dom (add_logs ?L (i + 1) es). n \<le> i + 1 + int (length es))
     \<and> visible (add_logs ?L (i + 1) es) D = put_all (visible ?L D) es
     \<and> until (add_logs ?L (i + 1) es) (i + 1) = until ?L (i + 1)"
    using Cons.prems by (intro Cons.IH) force+
  have "visible ?L D = (visible L D)(fst e := snd e)"
    using visible_append [OF fin lt, of "fst e" "snd e"] by simp
  moreover have "until (add_logs ?L (i + 1) es) i = until L i"
  proof
    fix n
    have "until (add_logs ?L (i + 1) es) (i + 1) n = until ?L (i + 1) n" using IH by simp
    then show "until (add_logs ?L (i + 1) es) i n = until L i n"
      by (auto simp: until_beyond_at split: if_splits)
  qed
  ultimately show ?case using IH by (simp add: put_all_def algebra_simps)
qed

lemma log_entries_spec:
  assumes "log_entries es (i, ts, ops) = (i', ts', ops')"
    and "foldl apply_wop v ops = encode L D h l" and "logs_ok L" and "\<forall>n\<in>dom L. n \<le> i"
    and "0 \<le> i" and "i + int (length es) < 2 ^ 63"  and "\<forall>e\<in>set es. in64 (fst e)"
    and "\<forall>k n. ts k = Some n \<longrightarrow> last_of L k = Some n"
  shows "i' = i + int (length es) \<and> foldl apply_wop v ops' = encode (add_logs L i es) D h l
    \<and> (\<forall>k n. ts' k = Some n \<longrightarrow> last_of (add_logs L i es) k = Some n)
    \<and> (\<forall>k. k \<notin> fst ` set es \<longrightarrow> ts' k = ts k \<and> last_of (add_logs L i es) k = last_of L k)
    \<and> (\<forall>k\<in>fst ` set es. ts' k \<noteq> None)
    \<and> (\<forall>k. ts k \<noteq> None \<longrightarrow> ts' k \<noteq> None)"
  using assms
proof (induction es arbitrary: i ts ops L)
  case (Cons e es)
  let ?L = "L(i + 1 \<mapsto> e)" and ?ts = "ts(fst e \<mapsto> i + 1)"
  have lt: "\<forall>m\<in>dom L. m < i + 1" using Cons.prems(4) by force
  have fin: "finite (dom L)" using Cons.prems(3) by (simp add: logs_ok_def)
  have in64: "in64 (i + 1)" using Cons.prems(5,6) by (simp add: in64_def)
  have last: "last_of ?L k = (if k = fst e then Some (i + 1) else last_of L k)" for k
    using last_of_append [OF fin lt, of "fst e" "snd e" k] by simp
  have "i' = i + 1 + int (length es) \<and> foldl apply_wop v ops' = encode (add_logs ?L (i + 1) es) D h l
    \<and> (\<forall>k n. ts' k = Some n \<longrightarrow> last_of (add_logs ?L (i + 1) es) k = Some n)
    \<and> (\<forall>k. k \<notin> fst ` set es \<longrightarrow> ts' k = ?ts k \<and> last_of (add_logs ?L (i + 1) es) k = last_of ?L k)
    \<and> (\<forall>k\<in>fst ` set es. ts' k \<noteq> None) \<and> (\<forall>k. ?ts k \<noteq> None \<longrightarrow> ts' k \<noteq> None)"
  proof (rule Cons.IH)
    show "log_entries es (i + 1, ?ts, ops @ [WUpdate (log_key (i + 1)) (log_fields e)]) = (i', ts', ops')"
      using Cons.prems(1) by simp
    show "foldl apply_wop v (ops @ [WUpdate (log_key (i + 1)) (log_fields e)]) = encode ?L D h l"
      using Cons.prems(2) encode_log [OF in64] by simp
    show "logs_ok ?L" using Cons.prems(3,7) in64 by (cases e) (simp add: logs_ok_def)
    show "\<forall>n\<in>dom ?L. n \<le> i + 1" using lt by (simp add: less_imp_le ball_Un)
    show "\<forall>k n. ?ts k = Some n \<longrightarrow> last_of ?L k = Some n" using Cons.prems(8) last by simp
  qed (use Cons.prems in simp_all)
  then show ?case using last by auto
qed auto

end
