(* ===== verification/Hnsw_Steps.thy ===== *)
theory Hnsw_Steps
  imports Hnsw_View
begin

text \<open>
  The segment as a state machine: batches, the four parts of the index worker, and restarts,
  in any order. The invariant relates the memory of the segment to its store, and the view to
  the map that the batches build up.
\<close>

section \<open>Documents and logs under the worker's batches\<close>

fun doc_op :: "entry \<Rightarrow> wop" where
  "doc_op (k, None) = WDelete (doc_key k)"
| "doc_op (k, Some v) = WUpdate (doc_key k) (doc_fields v)"

lemma encode_doc_ops:
  "\<forall>e\<in>set es. in64 (fst e) \<Longrightarrow> foldl apply_wop (encode L D h l) (map doc_op es) = encode L (put_all D es) h l"
proof (induction es arbitrary: D)
  case Nil
  then show ?case by (simp add: put_all_def)
next
  case (Cons e es)
  obtain k ov where e: "e = (k, ov)" by (cases e)
  have "apply_wop (encode L D h l) (doc_op e) = encode L (D(k := ov)) h l"
    using Cons.prems by (cases ov) (simp_all add: e encode_doc encode_undoc)
  with Cons.IH [of "D(k := ov)"] Cons.prems show ?case
    by (simp add: put_all_def e del: fun_upd_apply)
qed

lemma put_all_keys: "put_all D (map (\<lambda>k. (k, f k)) ks) k = (if k \<in> set ks then f k else D k)"
proof -
  have "put_all D (map (\<lambda>k. (k, f k)) ks) = (\<lambda>k. if k \<in> set ks then f k else D k)" for D
    by (induction ks arbitrary: D) (auto simp: put_all_def fun_eq_iff)
  then show ?thesis by simp
qed

lemma put_all_touched: "k \<in> fst ` set es \<Longrightarrow> put_all m es k = put_all m' es k"
proof (induction es arbitrary: m m')
  case (Cons e es)
  show ?case
  proof (cases "k \<in> fst ` set es")
    case True
    with Cons.IH show ?thesis by (simp add: put_all_def)
  next
    case False
    have "put_all m es k = m k" if "k \<notin> fst ` set es" for m and es :: "entry list"
      using that by (induction es arbitrary: m) (auto simp: put_all_def)
    note this [OF False]
    moreover have "k = fst e" using Cons.prems False by simp
    ultimately show ?thesis by (simp add: put_all_def)
  qed
qed simp

lemma put_all_untouched: "k \<notin> fst ` set es \<Longrightarrow> put_all m es k = m k"
  by (induction es arbitrary: m) (auto simp: put_all_def)

lemma encode_unlogs:
  "\<forall>n\<in>set ns. in64 n \<Longrightarrow>
   foldl apply_wop (encode L D h l) (map (\<lambda>n. WDelete (log_key n)) ns) = encode (L |` (- set ns)) D h l"
proof (induction ns arbitrary: L)
  case (Cons n ns)
  have "(L(n := None)) |` (- set ns) = L |` (- set (n # ns))"
    by (auto simp: restrict_map_def)
  with Cons.IH [of "L(n := None)"] Cons.prems show ?case
    by (simp add: encode_unlog del: fun_upd_apply)
qed (simp add: restrict_map_def)

section \<open>The invariant\<close>

definition usearch_ok :: "'x usearch \<Rightarrow> ('x \<Rightarrow> int set) \<Rightarrow> bool" where
  "usearch_ok us keys \<longleftrightarrow>
     (\<forall>x. us_new us = Inr x \<longrightarrow> keys x = {})
     \<and> (\<forall>x n x'. us_reserve us x n = Inr x' \<longrightarrow> keys x' = keys x)
     \<and> (\<forall>x k v x'. us_add us x k v = Inr x' \<longrightarrow> keys x' = insert k (keys x))
     \<and> (\<forall>x k b. us_contains us x k = Inr b \<longrightarrow> b = (k \<in> keys x))"

definition has :: "('x \<Rightarrow> int set) \<Rightarrow> 'x option \<Rightarrow> int \<Rightarrow> bool" where
  "has keys i k \<longleftrightarrow> (case i of None \<Rightarrow> False | Some x \<Rightarrow> k \<in> keys x)"

definition default0 :: "int option \<Rightarrow> int" where
  "default0 x = (case x of None \<Rightarrow> 0 | Some n \<Rightarrow> n)"

text \<open>The stored log and documents.\<close>

definition store_inv :: "('w \<Rightarrow> (string \<rightharpoonup> fields)) \<Rightarrow> ('w, 'x) hnsw_seg \<Rightarrow> logs \<Rightarrow> (int \<rightharpoonup> float32 list)
    \<Rightarrow> int option \<Rightarrow> int option \<Rightarrow> bool" where
  "store_inv view seg L D h l \<longleftrightarrow>
     view (writer seg) = encode L D h l \<and> logs_ok L \<and> docs_ok D
     \<and> (\<forall>n\<in>dom L. n \<le> latestLogID seg) \<and> 0 \<le> latestLogID seg \<and> latestLogID seg < 2 ^ 63
     \<and> default0 l = latestLogID seg \<and> in64 (default0 h)
     \<and> (\<forall>n k v. L n = Some (k, Some v) \<longrightarrow> length v = dimensions seg)
     \<and> (\<forall>k v. D k = Some v \<longrightarrow> length v = dimensions seg)"

text \<open>The memory: a document with a timestamp is in the cache as the log has it, one without is in
  the stored documents as the log leaves it, and there the index knows it exactly when the
  documents have it; so does the index file, for a document without a log.\<close>

definition memory_inv :: "('x \<Rightarrow> int set) \<Rightarrow> ('w, 'x) hnsw_seg \<Rightarrow> logs \<Rightarrow> (int \<rightharpoonup> float32 list) \<Rightarrow> bool" where
  "memory_inv keys seg L D \<longleftrightarrow>
     cache_ok (dimensions seg) (cache seg)
     \<and> (\<forall>k. docTS seg k \<noteq> None \<longrightarrow> cache_map (dimensions seg) (cache seg) k = visible L D k)
     \<and> (\<forall>k. docTS seg k = None \<longrightarrow> cache_map (dimensions seg) (cache seg) k = None \<and> last_of L k = None)
     \<and> (\<forall>k n. last_of L k = Some n \<longrightarrow> docTS seg k = Some n)
     \<and> (\<forall>k. docTS seg k = None \<longrightarrow> (has keys (index seg) k \<longleftrightarrow> D k \<noteq> None))
     \<and> (\<forall>k. last_of L k = None \<longrightarrow> (has keys (hnsw_file seg) k \<longleftrightarrow> D k \<noteq> None))"

text \<open>Where the worker is.\<close>

datatype 'x phase = Idle | Applying int "wop list" | Applied int | Built int 'x
  | Cleaning int "int list" "wop list" 'x | Cleaned int "int list" 'x

definition ops_for :: "logs \<Rightarrow> int \<Rightarrow> wop list \<Rightarrow> bool" where
  "ops_for L i ops \<longleftrightarrow> (\<exists>ks. set ks = {k. last_of (until L i) k \<noteq> None}
     \<and> ops = map doc_op (map (\<lambda>k. (k, snd (the (until L i (the (last_of (until L i) k)))))) ks))"

definition applied :: "logs \<Rightarrow> (int \<rightharpoonup> float32 list) \<Rightarrow> int \<Rightarrow> bool" where
  "applied L D i \<longleftrightarrow> (\<forall>k n. last_of (until L i) k = Some n \<longrightarrow> D k = snd (the (until L i n)))"

definition clean_for :: "logs \<Rightarrow> int \<Rightarrow> int list \<Rightarrow> wop list \<Rightarrow> bool" where
  "clean_for L i docs ops \<longleftrightarrow> set docs = {k. last_of (until L i) k \<noteq> None}
     \<and> (\<exists>ns. set ns = dom (until L i)
       \<and> ops = map (\<lambda>n. WDelete (log_key n)) ns @ [WUpdate ''hnsw_log_id'' (id_fields i)])"

definition no_lag :: "('w, 'x) hnsw_seg \<Rightarrow> logs \<Rightarrow> bool" where
  "no_lag seg L \<longleftrightarrow> (\<forall>k n. docTS seg k = Some n \<longrightarrow> last_of L k = Some n)"

fun phase_inv :: "('x \<Rightarrow> int set) \<Rightarrow> ('w, 'x) hnsw_seg \<Rightarrow> logs \<Rightarrow> (int \<rightharpoonup> float32 list) \<Rightarrow> 'x phase \<Rightarrow> bool" where
  "phase_inv keys seg L D Idle \<longleftrightarrow> no_lag seg L"
| "phase_inv keys seg L D (Applying i ops) \<longleftrightarrow> no_lag seg L \<and> 0 \<le> i \<and> i \<le> latestLogID seg \<and> ops_for L i ops"
| "phase_inv keys seg L D (Applied i) \<longleftrightarrow> no_lag seg L \<and> 0 \<le> i \<and> i \<le> latestLogID seg \<and> applied L D i"
| "phase_inv keys seg L D (Built i x) \<longleftrightarrow> no_lag seg L \<and> 0 \<le> i \<and> i \<le> latestLogID seg \<and> applied L D i
     \<and> (\<forall>k. k \<in> keys x \<longleftrightarrow> D k \<noteq> None) \<and> hnsw_file seg = Some x"
| "phase_inv keys seg L D (Cleaning i docs ops x) \<longleftrightarrow> no_lag seg L \<and> 0 \<le> i \<and> i \<le> latestLogID seg \<and> applied L D i
     \<and> (\<forall>k. k \<in> keys x \<longleftrightarrow> D k \<noteq> None) \<and> hnsw_file seg = Some x \<and> clean_for L i docs ops"
| "phase_inv keys seg L D (Cleaned i docs x) \<longleftrightarrow> 0 \<le> i \<and> i \<le> latestLogID seg \<and> (\<forall>n\<in>dom L. i < n)
     \<and> (\<forall>k. k \<in> keys x \<longleftrightarrow> D k \<noteq> None)
     \<and> (\<forall>k t. docTS seg k = Some t \<and> last_of L k = None \<longrightarrow> k \<in> set docs \<and> t \<le> i)"

definition seg_inv :: "('w \<Rightarrow> (string \<rightharpoonup> fields)) \<Rightarrow> ('x \<Rightarrow> int set) \<Rightarrow> ('w, 'x) hnsw_seg \<Rightarrow> 'x phase
    \<Rightarrow> (int \<rightharpoonup> float32 list) \<Rightarrow> bool" where
  "seg_inv view keys seg ph m \<longleftrightarrow> (\<exists>L D h l. store_inv view seg L D h l \<and> memory_inv keys seg L D
     \<and> phase_inv keys seg L D ph \<and> m = visible L D \<and> finite (dom m))"

section \<open>Batches\<close>

lemma cache_entries:
  assumes "cache_ok d c" and "length addIDs = length vectors" and "\<forall>v\<in>set vectors. length v = d"
  shows "cache_ok d (foldl (\<lambda>c (k, v). updateCache d c k v) (foldl (deleteCache d) c delIDs) (zip addIDs vectors))
    \<and> cache_map d (foldl (\<lambda>c (k, v). updateCache d c k v) (foldl (deleteCache d) c delIDs) (zip addIDs vectors))
      = put_all (cache_map d c) (batch_entries addIDs vectors delIDs)"
proof -
  have dels: "cache_ok d (foldl (deleteCache d) c ks)
      \<and> cache_map d (foldl (deleteCache d) c ks) = put_all (cache_map d c) (map (\<lambda>k. (k, None)) ks)" for ks
    using assms(1)
  proof (induction ks arbitrary: c)
    case (Cons k ks)
    with Cons.IH [of "deleteCache d c k"] vc.del [OF Cons.prems, of k] show ?case
      by (simp add: put_all_def del: fun_upd_apply)
  qed (simp add: put_all_def)
  have upds: "cache_ok d (foldl (\<lambda>c (k, v). updateCache d c k v) c kvs)
      \<and> cache_map d (foldl (\<lambda>c (k, v). updateCache d c k v) c kvs) = put_all (cache_map d c) (map (\<lambda>(k, v). (k, Some v)) kvs)"
    if "cache_ok d c" "\<forall>v\<in>snd ` set kvs. length v = d" for c kvs
    using that
  proof (induction kvs arbitrary: c)
    case (Cons kv kvs)
    obtain k v where kv: "kv = (k, v)" by (cases kv)
    with Cons.IH [of "updateCache d c k v"] vc.upd [OF Cons.prems(1), of v k] Cons.prems(2) show ?case
      by (simp add: put_all_def del: fun_upd_apply)
  qed (simp add: put_all_def)
  have "\<forall>v\<in>snd ` set (zip addIDs vectors). length v = d"
    using assms(3) by (auto dest: set_zip_rightD)
  with dels [of delIDs] upds [of "foldl (deleteCache d) c delIDs" "zip addIDs vectors"] show ?thesis
    by (simp add: batch_entries_def put_all_def)
qed

lemma add_logs_at: "add_logs L i es n = Some e \<Longrightarrow> L n = Some e \<or> e \<in> set es \<and> i < n"
proof (induction es arbitrary: L i)
  case (Cons x es)
  have "add_logs (L(i + 1 \<mapsto> x)) (i + 1) es n = Some e" using Cons.prems by simp
  from Cons.IH [OF this] show ?case by (auto split: if_splits)
qed simp

lemma until_until: "j \<le> i \<Longrightarrow> until L i = until L' i \<Longrightarrow> until L j = until L' j"
proof -
  assume j: "j \<le> i" and eq: "until L i = until L' i"
  have "until M j = until (until M i) j" for M
    using j by (auto simp: until_def restrict_map_def)
  with eq show "until L j = until L' j" by metis
qed

text \<open>What a batch does to the log, the timestamps and the cache.\<close>

definition logged :: "logs \<Rightarrow> int \<Rightarrow> entry list \<Rightarrow> (int \<rightharpoonup> int) \<Rightarrow> logs \<Rightarrow> (int \<rightharpoonup> int) \<Rightarrow> bool" where
  "logged L i es ts L' ts' \<longleftrightarrow>
     (\<forall>n e. L' n = Some e \<longrightarrow> L n = Some e \<or> e \<in> set es \<and> i < n)
     \<and> until L' i = until L i
     \<and> (\<forall>k\<in>fst ` set es. ts' k \<noteq> None \<and> last_of L' k = ts' k)
     \<and> (\<forall>k. k \<notin> fst ` set es \<longrightarrow> ts' k = ts k \<and> last_of L' k = last_of L k)"

lemma logged_at: "logged L i es ts L' ts' \<Longrightarrow> L' n = Some e \<Longrightarrow> L n = Some e \<or> e \<in> set es \<and> i < n"
  unfolding logged_def by blast

lemma logged_cases:
  assumes "logged L i es ts L' ts'"
  obtains "k \<in> fst ` set es" "ts' k \<noteq> None" "last_of L' k = ts' k"
  | "k \<notin> fst ` set es" "ts' k = ts k" "last_of L' k = last_of L k"
  using assms unfolding logged_def by metis

lemma logged_until: "logged L i es ts L' ts' \<Longrightarrow> j \<le> i \<Longrightarrow> until L' j = until L j"
  by (elim until_until) (unfold logged_def, elim conjE)

lemma memory_logged:
  assumes mem: "memory_inv keys seg L D" and lg: "logged L i es (docTS seg) L' ts'"
    and c: "cache_ok (dimensions seg) c" "cache_map (dimensions seg) c = put_all (cache_map (dimensions seg) (cache seg)) es"
    and vis: "visible L' D = put_all (visible L D) es"
  shows "memory_inv keys (seg\<lparr>writer := w, latestLogID := i', cache := c, docTS := ts'\<rparr>) L' D"
proof -
  have A: "ts' k \<noteq> None \<Longrightarrow> cache_map (dimensions seg) c k = visible L' D k" for k
    using lg
  proof (cases rule: logged_cases [of _ _ _ _ _ _ k])
    case 1
    then show ?thesis unfolding c vis by (intro put_all_touched)
  next
    case 2
    moreover assume "ts' k \<noteq> None"
    ultimately show ?thesis using mem by (simp add: c vis put_all_untouched memory_inv_def)
  qed
  have B: "ts' k = None \<Longrightarrow> docTS seg k = None \<and> cache_map (dimensions seg) c k = None \<and> last_of L' k = None" for k
    using lg
  proof (cases rule: logged_cases [of _ _ _ _ _ _ k])
    case 2
    moreover assume "ts' k = None"
    ultimately show ?thesis using mem by (simp add: c put_all_untouched memory_inv_def)
  qed simp
  have C: "last_of L' k = Some n \<Longrightarrow> ts' k = Some n" for k n
    using lg mem by (cases rule: logged_cases [of _ _ _ _ _ _ k]) (simp_all add: memory_inv_def)
  have E: "last_of L' k = None \<Longrightarrow> last_of L k = None" for k
    using lg by (cases rule: logged_cases [of _ _ _ _ _ _ k]) simp_all
  show ?thesis
    using A B C E c(1) mem unfolding memory_inv_def by simp
qed

lemma phase_logged:
  assumes ph: "phase_inv keys seg L D ph" and lg: "logged L (latestLogID seg) es (docTS seg) L' ts'"
    and i': "latestLogID seg \<le> i'"
  shows "phase_inv keys (seg\<lparr>writer := w, latestLogID := i', cache := c, docTS := ts'\<rparr>) L' D ph"
proof -
  let ?seg = "seg\<lparr>writer := w, latestLogID := i', cache := c, docTS := ts'\<rparr>"
  have lag: "no_lag ?seg L'" if "no_lag seg L"
  proof (unfold no_lag_def, intro allI impI)
    fix k n assume "docTS ?seg k = Some n"
    with lg that show "last_of L' k = Some n"
      by (cases rule: logged_cases [of _ _ _ _ _ _ k]) (simp_all add: no_lag_def)
  qed
  have un: "until L' j = until L j" if "j \<le> latestLogID seg" for j using logged_until [OF lg that] .
  show ?thesis
  proof (cases ph)
    case (Cleaned j docs x)
    have "k \<in> set docs \<and> t \<le> j" if "ts' k = Some t" "last_of L' k = None" for k t
      using lg that ph unfolding Cleaned by (cases rule: logged_cases [of _ _ _ _ _ _ k]) simp_all
    moreover have "j < n" if "n \<in> dom L'" for n
    proof -
      from that obtain e where "L' n = Some e" by blast
      from logged_at [OF lg this] ph show ?thesis unfolding Cleaned by auto
    qed
    ultimately show ?thesis using ph i' unfolding Cleaned by auto
  qed (use ph lag un i' in \<open>simp_all add: ops_for_def applied_def clean_for_def\<close>)
qed

lemma finite_put_all: "finite (dom m) \<Longrightarrow> finite (dom (put_all m es))"
proof (induction es arbitrary: m)
  case (Cons e es)
  have "finite (dom (m(fst e := snd e)))" using Cons.prems by simp
  from Cons.IH [OF this] show ?case by (simp add: put_all_def del: fun_upd_apply)
qed (simp add: put_all_def)

lemma batch_logged:
  assumes st: "store_inv view seg L D h l"
    and es: "\<forall>e\<in>set es. in64 (fst e)" "latestLogID seg + int (length es) < 2 ^ 63"
    and run: "log_entries es (latestLogID seg, Map.empty, []) = (i', ts', ops)"
  defines "L' \<equiv> add_logs L (latestLogID seg) es"
  shows "i' = latestLogID seg + int (length es) \<and> foldl apply_wop (view (writer seg)) ops = encode L' D h l
    \<and> logs_ok L' \<and> (\<forall>n\<in>dom L'. n \<le> i') \<and> visible L' D = put_all (visible L D) es
    \<and> logged L (latestLogID seg) es (docTS seg) L' (docTS seg ++ ts')"
proof -
  note st' = st [unfolded store_inv_def]
  have view: "foldl apply_wop (view (writer seg)) [] = encode L D h l" using st' by simp
  have ok: "logs_ok L" "\<forall>n\<in>dom L. n \<le> latestLogID seg" "0 \<le> latestLogID seg" using st' by simp_all
  have ts0: "\<forall>k n. Map.empty k = Some n \<longrightarrow> last_of L k = Some n" by simp
  note a = add_logs_ok [OF ok(1,2) es(1) ok(3) es(2), of D, folded L'_def]
  note b = log_entries_spec [OF run view ok(1,2,3) es(2,1) ts0, folded L'_def]
  have "logged L (latestLogID seg) es (docTS seg) L' (docTS seg ++ ts')"
    unfolding logged_def
  proof (intro conjI ballI allI impI)
    show "L n = Some e \<or> e \<in> set es \<and> latestLogID seg < n" if "L' n = Some e" for n e
      using add_logs_at that unfolding L'_def .
    show "until L' (latestLogID seg) = until L (latestLogID seg)" using a by (elim conjE)
    fix k assume "k \<in> fst ` set es"
    with b obtain n where n: "ts' k = Some n" by blast
    with b have "last_of L' k = Some n" by blast
    with n show "(docTS seg ++ ts') k \<noteq> None" "last_of L' k = (docTS seg ++ ts') k" by simp_all
  next
    fix k assume "k \<notin> fst ` set es"
    with b have "ts' k = None" "last_of L' k = last_of L k" by (blast, blast)
    then show "(docTS seg ++ ts') k = docTS seg k" "last_of L' k = last_of L k"
      by (simp_all add: map_add_def)
  qed
  moreover have "i' = latestLogID seg + int (length es)" using b by (elim conjE)
  moreover have "foldl apply_wop (view (writer seg)) ops = encode L' D h l" using b by (elim conjE)
  ultimately show ?thesis using a by (elim conjE) (intro conjI, simp_all)
qed

lemma Batch_inv:
  assumes ok: "bluge_ok api view" and inv: "seg_inv view keys seg ph m"
    and run: "Batch api us ko threshold wait addIDs vectors delIDs seg = Some (Inr delta, seg')"
    and ids: "\<forall>k\<in>set (delIDs @ addIDs). in64 k"
    and room: "latestLogID seg + int (length delIDs + length addIDs) < 2 ^ 63"
  shows "seg_inv view keys seg' ph (put_all m (batch_entries addIDs vectors delIDs))"
proof -
  define es where "es = batch_entries addIDs vectors delIDs"
  obtain latest ts ops where lg: "log_entries es (latestLogID seg, Map.empty, []) = (latest, ts, ops)"
    by (cases "log_entries es (latestLogID seg, Map.empty, [])")
  have len: "length addIDs = length vectors" and dims: "\<forall>v\<in>set vectors. length v = dimensions seg"
    using run by (auto simp: Batch_def split: if_splits)
  let ?ops = "ops @ [WUpdate ''latest_log_id'' [(''log_id'', bytes_of (format_int latest))]]"
  let ?c = "foldl (\<lambda>c (k, v). updateCache (dimensions seg) c k v) (foldl (deleteCache (dimensions seg)) (cache seg) delIDs) (zip addIDs vectors)"
  obtain w where w: "bl_batch api (writer seg) ?ops = Inr w"
    and seg': "seg' = seg\<lparr>writer := w, latestLogID := latest, cache := ?c, docTS := docTS seg ++ ts\<rparr>"
    using run len dims lg unfolding es_def
    by (auto simp: Batch_def log_batch Let_def split: if_splits sum.splits)
  obtain L D h l where inv': "store_inv view seg L D h l" "memory_inv keys seg L D" "phase_inv keys seg L D ph"
    "m = visible L D" "finite (dom m)" using inv unfolding seg_inv_def by blast
  have es: "\<forall>e\<in>set es. in64 (fst e)" "latestLogID seg + int (length es) < 2 ^ 63"
    using ids room len by (auto simp: es_def batch_entries_def dest: set_zip_leftD)
  have vecs: "length v = dimensions seg" if "(k, Some v) \<in> set es" for k v
    using that dims by (auto simp: es_def batch_entries_def dest: set_zip_rightD)
  define L' where "L' = add_logs L (latestLogID seg) es"
  note b = batch_logged [OF inv'(1) es lg, folded L'_def]
  have lgd: "logged L (latestLogID seg) es (docTS seg) L' (docTS seg ++ ts)" and vis: "visible L' D = put_all (visible L D) es"
    and latest: "latest = latestLogID seg + int (length es)" using b by blast+
  have "view w = encode L' D h (Some latest)"
    unfolding bluge_batch [OF ok w] using b by (simp add: encode_ids(2) id_fields_def [symmetric] del: fun_upd_apply)
  moreover have "length v = dimensions seg" if "L' n = Some (k, Some v)" for n k v
    using logged_at [OF lgd that] vecs inv'(1) unfolding store_inv_def by blast
  ultimately have "store_inv view seg' L' D h (Some latest)"
    using inv'(1) b es(2) unfolding seg' store_inv_def by (auto simp: default0_def)
  moreover have "cache_ok (dimensions seg) (cache seg)" using inv'(2) unfolding memory_inv_def by blast
  note ce = cache_entries [OF this len dims, of delIDs, folded es_def]
  have "memory_inv keys seg' L' D"
    unfolding seg' by (rule memory_logged [OF inv'(2) lgd _ _ vis]) (use ce in \<open>simp_all\<close>)
  moreover have "phase_inv keys seg' L' D ph"
    unfolding seg' by (rule phase_logged [OF inv'(3) lgd]) (simp add: latest)
  ultimately show ?thesis
    unfolding seg_inv_def es_def [symmetric] using vis inv'(4,5) finite_put_all by metis
qed

lemma Batch_error_keeps:
  "Batch api us ko threshold wait addIDs vectors delIDs seg = Some (Inl e, seg') \<Longrightarrow> seg' = seg"
  by (auto simp: Batch_def Let_def split: if_splits sum.splits prod.splits)

subsection \<open>The count\<close>

lemma member_in_memory:
  assumes mem: "memory_inv keys seg L D"
  shows "docIDIndex (cache seg) k \<noteq> None \<Longrightarrow> visible L D k \<noteq> None"
    and "docIDIndex (cache seg) k = None \<Longrightarrow> docTS seg k \<noteq> None \<Longrightarrow> visible L D k = None"
    and "docTS seg k = None \<Longrightarrow> (visible L D k \<noteq> None \<longleftrightarrow> has keys (index seg) k)"
proof -
  have c: "cache_map (dimensions seg) (cache seg) k \<noteq> None \<longleftrightarrow> docIDIndex (cache seg) k \<noteq> None"
    by (simp add: cache_map_def)
  have i: "docTS seg k \<noteq> None \<Longrightarrow> cache_map (dimensions seg) (cache seg) k = visible L D k"
    "docTS seg k = None \<Longrightarrow> cache_map (dimensions seg) (cache seg) k = None \<and> last_of L k = None"
    "docTS seg k = None \<Longrightarrow> (has keys (index seg) k \<longleftrightarrow> D k \<noteq> None)"
    using mem unfolding memory_inv_def by blast+
  show "docIDIndex (cache seg) k \<noteq> None \<Longrightarrow> visible L D k \<noteq> None"
    "docIDIndex (cache seg) k = None \<Longrightarrow> docTS seg k \<noteq> None \<Longrightarrow> visible L D k = None"
    using c i(1,2) by metis+
  show "docTS seg k = None \<Longrightarrow> (visible L D k \<noteq> None \<longleftrightarrow> has keys (index seg) k)"
    using i(2,3) by (simp add: visible_def)
qed

definition change :: "(int \<rightharpoonup> float32 list) \<Rightarrow> (int \<rightharpoonup> int) \<Rightarrow> int \<Rightarrow> int" where
  "change m dm k = (if 0 < the (dm k) then of_bool (m k = None) else - of_bool (m k \<noteq> None))"

lemma count_loop_sum:
  assumes us: "usearch_ok us keys" and mem: "memory_inv keys seg L D"
    and dm: "\<forall>k\<in>set ks. dm k = Some 1 \<or> dm k = Some (- 1)"
    and run: "count_loop us seg dm ks delta = Inr n"
  shows "n = delta + (\<Sum>k\<leftarrow>ks. change (visible L D) dm k)"
  using dm run
proof (induction ks arbitrary: delta)
  case (Cons k ks)
  have "\<exists>delta'. count_loop us seg dm ks delta' = Inr n \<and> delta' = delta + change (visible L D) dm k"
  proof (cases "docIDIndex (cache seg) k \<noteq> None")
    case True
    with member_in_memory(1) [OF mem True] Cons.prems show ?thesis by (auto simp: Let_def change_def)
  next
    case c: False
    show ?thesis
    proof (cases "docTS seg k \<noteq> None")
      case True
      with c member_in_memory(2) [OF mem _ True] Cons.prems show ?thesis by (auto simp: Let_def change_def)
    next
      case False
      then have v: "visible L D k \<noteq> None \<longleftrightarrow> has keys (index seg) k" using member_in_memory(3) [OF mem] by blast
      show ?thesis
      proof (cases "index seg")
        case None
        with c False v Cons.prems show ?thesis by (auto simp: Let_def change_def has_def)
      next
        case (Some x)
        then obtain b where b: "us_contains us x k = Inr b"
          using c False Cons.prems by (auto simp: Let_def split: sum.splits)
        then have "b = (k \<in> keys x)" using us unfolding usearch_ok_def by blast
        with b Some c False v Cons.prems show ?thesis by (auto simp: Let_def change_def has_def split: if_splits)
      qed
    qed
  qed
  then obtain delta' where "count_loop us seg dm ks delta' = Inr n" "delta' = delta + change (visible L D) dm k" by blast
  with Cons.IH [of delta'] Cons.prems(1) show ?case by simp
qed simp

lemma delta_map_at: "delta_map addIDs delIDs k = (if k \<in> set addIDs then Some 1 else if k \<in> set delIDs then Some (- 1) else None)"
proof -
  have f: "foldl (\<lambda>m k. m(k \<mapsto> c)) m ks k = (if k \<in> set ks then Some c else m k)" for m :: "int \<rightharpoonup> int" and c ks
    by (induction ks arbitrary: m) auto
  show ?thesis unfolding delta_map_def f by simp
qed

lemma put_all_batch:
  assumes "length addIDs = length vectors"
  shows "put_all m (batch_entries addIDs vectors delIDs) k \<noteq> None \<longleftrightarrow>
    k \<in> set addIDs \<or> k \<notin> set delIDs \<and> m k \<noteq> None"
proof -
  have app: "put_all m (xs @ ys) = put_all (put_all m xs) ys" for m xs ys by (simp add: put_all_def)
  have adds: "put_all m (map (\<lambda>(k, v). (k, Some v)) kvs) k \<noteq> None \<longleftrightarrow> k \<in> fst ` set kvs \<or> m k \<noteq> None" for m kvs
    by (induction kvs arbitrary: m) (auto simp: put_all_def)
  have dels: "put_all m (map (\<lambda>k. (k, None)) ks) k = (if k \<in> set ks then None else m k)" for ks
    using put_all_keys [of m "\<lambda>_. None" ks k] .
  have "fst ` set (zip addIDs vectors) = set addIDs"
    using assms by (metis list.set_map map_fst_zip)
  then show ?thesis unfolding batch_entries_def app adds dels by auto
qed

lemma card_change:
  assumes "finite A" "finite A'" "finite S" "A - S = A' - S"
  shows "(\<Sum>k\<in>S. of_bool (k \<in> A') - of_bool (k \<in> A)) = int (card A') - int (card A)"
proof -
  have "(\<Sum>k\<in>S. of_bool (k \<in> B) :: int) = int (card B) - int (card (B - S))" if "finite B" for B
  proof -
    have "card B = card (S \<inter> B) + card (B - S)"
      using card_Un_disjoint [of "S \<inter> B" "B - S"] that assms(3) by (metis Diff_disjoint Int_Diff Int_commute
        Un_Diff_Int Un_commute finite_Diff finite_Int inf_bot_right)
    then show ?thesis by (simp add: of_bool_def sum.If_cases [OF assms(3)])
  qed
  note this [OF assms(2)] this [OF assms(1)]
  then show ?thesis using assms(4) by (simp add: sum_subtractf)
qed

lemma countDelta_card:
  assumes us: "usearch_ok us keys" and mem: "memory_inv keys seg L D" and ko: "\<forall>xs. mset (ko xs) = mset xs"
    and fin: "finite (dom (visible L D))" and len: "length addIDs = length vectors"
    and run: "countDelta us ko seg addIDs delIDs = Inr n"
  shows "n = int (card (dom (put_all (visible L D) (batch_entries addIDs vectors delIDs)))) - int (card (dom (visible L D)))"
proof -
  let ?ks = "remdups (delIDs @ addIDs)" and ?m = "visible L D"
  let ?m' = "put_all ?m (batch_entries addIDs vectors delIDs)" and ?dm = "delta_map addIDs delIDs"
  have ks: "mset (ko ?ks) = mset ?ks" using ko by blast
  then have set: "set (ko ?ks) = set delIDs \<union> set addIDs" by (metis set_mset_mset set_remdups set_append)
  have "n = 0 + (\<Sum>k\<leftarrow>ko ?ks. change ?m ?dm k)"
    by (rule count_loop_sum [OF us mem _ run [unfolded countDelta_def]]) (auto simp: set delta_map_at)
  also have "\<dots> = (\<Sum>k\<leftarrow>?ks. change ?m ?dm k)"
    using ks by (simp flip: sum_mset_sum_list)
  also have "\<dots> = (\<Sum>k\<in>set delIDs \<union> set addIDs. change ?m ?dm k)"
    by (subst sum_list_distinct_conv_sum_set) simp_all
  also have "\<dots> = (\<Sum>k\<in>set delIDs \<union> set addIDs. of_bool (k \<in> dom ?m') - of_bool (k \<in> dom ?m))"
  proof (rule sum.cong)
    fix k assume "k \<in> set delIDs \<union> set addIDs"
    then show "change ?m ?dm k = of_bool (k \<in> dom ?m') - of_bool (k \<in> dom ?m)"
      unfolding domIff put_all_batch [OF len] change_def delta_map_at by auto
  qed simp
  also have "\<dots> = int (card (dom ?m')) - int (card (dom ?m))"
  proof (rule card_change [OF fin finite_put_all [OF fin]])
    show "dom ?m - (set delIDs \<union> set addIDs) = dom ?m' - (set delIDs \<union> set addIDs)"
      using put_all_batch [OF len, of ?m delIDs] by (auto simp: dom_def)
  qed simp
  finally show ?thesis .
qed

section \<open>The worker\<close>

lemma finite_until: "finite (dom L) \<Longrightarrow> finite (dom (until L i))"
  by (rule finite_subset [of _ "dom L"]) (auto simp: until_beyond_at split: if_splits)

lemma dom_until: "dom (until L i) = {n \<in> dom L. n \<le> i}"
  by (auto simp: until_beyond_at split: if_splits)

lemma rows_until:
  assumes ns: "set ns = dom L" and rows: "rows = map (\<lambda>n. row_of n (the (L n))) ns"
  shows "filter (\<lambda>row. \<not> i < ID row) rows = map (\<lambda>n. row_of n (the (until L i n))) (filter (\<lambda>n. n \<le> i) ns)"
    and "set (filter (\<lambda>n. n \<le> i) ns) = dom (until L i)"
  using ns by (auto simp: rows filter_map o_def row_of_def not_less until_beyond_at dom_until intro!: map_cong)

lemma docs_of_rows:
  assumes fin: "finite (dom L)" and ns: "set ns = dom L" and rows: "rows = map (\<lambda>n. row_of n (the (L n))) ns"
  shows "DocID ` set rows = {k. last_of L k \<noteq> None}"
proof (intro set_eqI iffI)
  fix k assume "k \<in> DocID ` set rows"
  then obtain n e where "L n = Some e" "k = fst e" using ns by (auto simp: rows row_of_def)
  then have "last_of L k \<noteq> None" unfolding last_of_None by (metis prod.collapse)
  then show "k \<in> {k. last_of L k \<noteq> None}" by simp
next
  fix k assume "k \<in> {k. last_of L k \<noteq> None}"
  then have "\<not> (\<forall>n ov. L n \<noteq> Some (k, ov))" by (simp only: mem_Collect_eq last_of_None simp_thms)
  then obtain n ov where "L n = Some (k, ov)" by blast
  then have "DocID (row_of n (the (L n))) = k" "n \<in> set ns" using ns by (auto simp: row_of_def)
  then show "k \<in> DocID ` set rows" unfolding rows by force
qed

lemma apply_ops_for:
  assumes fin: "finite (dom L)" and ns: "set ns = dom L" and rows: "rows = map (\<lambda>n. row_of n (the (L n))) ns"
    and ko: "\<forall>xs. mset (ko xs) = mset xs"
  shows "ops_for L i (apply_ops ko i rows)"
proof -
  let ?U = "until L i" and ?rows = "filter (\<lambda>row. \<not> i < ID row) rows"
  let ?ks = "ko (remdups (map DocID ?rows))"
  note fU = finite_until [OF fin, of i] and r = rows_until [OF ns rows, of i]
  have ks: "set ?ks = {k. last_of ?U k \<noteq> None}"
    using docs_of_rows [OF fU r(2,1)] ko by (metis list.set_map set_mset_mset set_remdups)
  have "apply_ops ko i rows = map doc_op (map (\<lambda>k. (k, snd (the (?U (the (last_of ?U k)))))) ?ks)"
    unfolding apply_ops_def Let_def map_map
  proof (rule map_cong [OF refl])
    fix k assume "k \<in> set ?ks"
    with ks obtain n where n: "last_of ?U k = Some n" by auto
    note at = last_of_at [OF fU n]
    have new: "newest ?rows k = Some (row_of n (the (?U n)))" unfolding newest_last_of [OF fU r(2,1)] n by simp
    show "(if DocDel (the (newest ?rows k)) then WDelete (doc_key (DocID (the (newest ?rows k))))
        else WUpdate (doc_key (DocID (the (newest ?rows k)))) [(''vector'', VectorToBytes (Vector (the (newest ?rows k))))])
      = (doc_op \<circ> (\<lambda>k. (k, snd (the (?U (the (last_of ?U k))))))) k"
      unfolding new o_apply n option.sel using at by (cases "snd (the (?U n))") (auto simp: row_of_def doc_fields_def)
  qed
  with ks show ?thesis unfolding ops_for_def by blast
qed

lemma applyLogs_read_inv:
  assumes ok: "bluge_ok api view" and inv: "seg_inv view keys seg Idle m"
    and ko: "\<forall>xs. mset (ko xs) = mset xs" and run: "applyLogs_read api ko seg = Inr (i, ops)"
  shows "seg_inv view keys seg (Applying i ops) m"
proof -
  obtain rows where rows: "readHNSWLogRows api (writer seg) = Inr rows" and i: "i = latestLogID seg"
    and ops: "ops = apply_ops ko i rows"
    using run by (auto simp: applyLogs_read_def split: sum.splits)
  obtain L D h l where inv': "store_inv view seg L D h l" "memory_inv keys seg L D" "no_lag seg L"
    "m = visible L D" "finite (dom m)" using inv unfolding seg_inv_def by auto
  note st = inv'(1) [unfolded store_inv_def]
  from st have v: "view (writer seg) = encode L D h l" and L: "logs_ok L" by blast+
  obtain ns where ns: "set ns = dom L" "rows = map (\<lambda>n. row_of n (the (L n))) ns"
    using read_logs [OF ok v L rows] by blast
  have "finite (dom L)" using L unfolding logs_ok_def by blast
  from apply_ops_for [OF this ns ko] have "ops_for L i ops" unfolding ops .
  then show ?thesis using inv' st unfolding seg_inv_def i by (metis phase_inv.simps(2) order_refl)
qed

lemma last_of_until_None: "last_of L k = None \<Longrightarrow> last_of (until L i) k = None"
  unfolding last_of_None by (simp add: until_beyond_at)

lemma until_last_at:
  assumes "finite (dom L)" and n: "last_of (until L i) k = Some n"
  shows "L n = Some (k, snd (the (until L i n)))"
  using last_of_at [OF finite_until [OF assms(1)] n] by (simp add: until_beyond_at split: if_splits)

lemma ops_for_D:
  assumes L: "logs_ok L" and ops: "ops_for L i ops"
  obtains D' where "foldl apply_wop (encode L D h l) ops = encode L D' h l"
    "\<And>k. D' k = (case last_of (until L i) k of None \<Rightarrow> D k | Some n \<Rightarrow> snd (the (until L i n)))"
    "\<And>k v. D' k = Some v \<Longrightarrow> D k = Some v \<or> (\<exists>n. L n = Some (k, Some v))"
proof -
  let ?U = "until L i"
  have fin: "finite (dom L)" using L unfolding logs_ok_def by blast
  obtain ks where ks: "set ks = {k. last_of ?U k \<noteq> None}"
    and ops': "ops = map doc_op (map (\<lambda>k. (k, snd (the (?U (the (last_of ?U k)))))) ks)"
    using ops unfolding ops_for_def by blast
  let ?es = "map (\<lambda>k. (k, snd (the (?U (the (last_of ?U k)))))) ks"
  have "in64 k" if k: "k \<in> set ks" for k
  proof -
    obtain n where n: "last_of ?U k = Some n" using ks k by auto
    from until_last_at [OF fin n] L show ?thesis unfolding logs_ok_def by blast
  qed
  then have "foldl apply_wop (encode L D h l) ops = encode L (put_all D ?es) h l"
    unfolding ops' by (intro encode_doc_ops) simp
  moreover have at: "put_all D ?es k = (case last_of ?U k of None \<Rightarrow> D k | Some n \<Rightarrow> snd (the (?U n)))" for k
    unfolding put_all_keys using ks by (cases "last_of ?U k") auto
  moreover have "D k = Some v \<or> (\<exists>n. L n = Some (k, Some v))" if "put_all D ?es k = Some v" for k v
    using that until_last_at [OF fin, of i k] unfolding at by (cases "last_of ?U k") auto
  ultimately show thesis by (rule that)
qed

lemma applyLogs_write_inv:
  assumes ok: "bluge_ok api view" and inv: "seg_inv view keys seg (Applying i ops) m"
    and run: "applyLogs_write api ops seg = Inr seg'"
  shows "seg_inv view keys seg' (Applied i) m"
proof -
  obtain w where w: "bl_batch api (writer seg) ops = Inr w" and seg': "seg' = seg\<lparr>writer := w\<rparr>"
    using run by (auto simp: applyLogs_write_def split: sum.splits)
  obtain L D h l where inv': "store_inv view seg L D h l" "memory_inv keys seg L D" "phase_inv keys seg L D (Applying i ops)"
    "m = visible L D" "finite (dom m)" using inv unfolding seg_inv_def by auto
  note st = inv'(1) [unfolded store_inv_def]
  from st have v: "view (writer seg) = encode L D h l" and L: "logs_ok L" by blast+
  obtain D' where D': "foldl apply_wop (encode L D h l) ops = encode L D' h l"
    "\<And>k. D' k = (case last_of (until L i) k of None \<Rightarrow> D k | Some n \<Rightarrow> snd (the (until L i n)))"
    "\<And>k v. D' k = Some v \<Longrightarrow> D k = Some v \<or> (\<exists>n. L n = Some (k, Some v))"
  proof (rule ops_for_D [OF L, of i ops D h l])
    show "ops_for L i ops" using inv'(3) by simp
  qed (rule that)
  have same: "D' k = D k" if "last_of L k = None" for k
    using last_of_until_None [OF that] by (simp add: D'(2))
  have "in64 k" if "D' k = Some v" for k v
    using D'(3) [OF that] L st unfolding docs_ok_def logs_ok_def by (metis domI)
  then have "docs_ok D'" unfolding docs_ok_def by auto
  moreover have "length v = dimensions seg" if "D' k = Some v" for k v using D'(3) [OF that] st by blast
  moreover have "view w = encode L D' h l" using bluge_batch [OF ok w] v D'(1) by simp
  ultimately have "store_inv view seg' L D' h l"
    using st unfolding seg' store_inv_def by simp
  moreover have "visible L D' k = visible L D k" for k
    using same by (cases "last_of L k") (simp_all add: visible_def)
  then have vis: "visible L D' = visible L D" by blast
  then have "memory_inv keys seg' L D'"
    using inv'(2) same unfolding seg' memory_inv_def by simp
  moreover have "applied L D' i" unfolding applied_def by (simp add: D'(2))
  then have "phase_inv keys seg' L D' (Applied i)" using inv'(3) unfolding seg' by (simp add: no_lag_def)
  ultimately show ?thesis using vis inv'(4,5) unfolding seg_inv_def by metis
qed

lemma add_all_keys:
  assumes us: "usearch_ok us keys"
  shows "add_all us x rows = Inr x' \<Longrightarrow> keys x' = keys x \<union> fst ` set rows"
proof (induction rows arbitrary: x)
  case (Cons r rows)
  obtain k v where r: "r = (k, v)" by (cases r)
  with Cons.prems obtain x1 where x1: "us_add us x k v = Inr x1" "add_all us x1 rows = Inr x'"
    by (auto split: sum.splits)
  from x1(1) us have "keys x1 = insert k (keys x)" unfolding usearch_ok_def by blast
  with Cons.IH [OF x1(2)] show ?case by (simp add: r)
qed simp

lemma buildHNSW_inv:
  assumes ok: "bluge_ok api view" and us: "usearch_ok us keys" and inv: "seg_inv view keys seg (Applied i) m"
    and run: "buildHNSW api us io seg = Inr (x, seg')"
  shows "seg_inv view keys seg' (Built i x) m"
proof -
  obtain x0 x1 n rows where x: "us_new us = Inr x0" "us_reserve us x0 n = Inr x1"
    "readHNSWDocRows api (writer seg) = Inr rows" "add_all us x1 rows = Inr x"
    and seg': "seg' = seg\<lparr>hnsw_file := Some x\<rparr>"
    using run by (auto simp: buildHNSW_def split: sum.splits option.splits)
  obtain L D h l where inv': "store_inv view seg L D h l" "memory_inv keys seg L D" "phase_inv keys seg L D (Applied i)"
    "m = visible L D" "finite (dom m)" using inv unfolding seg_inv_def by auto
  note st = inv'(1) [unfolded store_inv_def]
  from st have v: "view (writer seg) = encode L D h l" and D: "docs_ok D" by blast+
  obtain ks where "set ks = dom D" "rows = map (\<lambda>k. (k, the (D k))) ks"
    using read_docs [OF ok v D x(3)] by blast
  moreover have "keys x1 = {}" using us x(1,2) unfolding usearch_ok_def by metis
  ultimately have "keys x = dom D" using add_all_keys [OF us x(4)] by (simp add: image_image)
  then have k: "k \<in> keys x \<longleftrightarrow> D k \<noteq> None" for k by auto
  have "store_inv view seg' L D h l" using st unfolding seg' store_inv_def by simp
  moreover have "memory_inv keys seg' L D" using inv'(2) k unfolding seg' memory_inv_def by (simp add: has_def)
  moreover have "phase_inv keys seg' L D (Built i x)" using inv'(3) k unfolding seg' by (simp add: no_lag_def)
  ultimately show ?thesis using inv'(4,5) unfolding seg_inv_def by blast
qed

lemma restrict_beyond: "set ns = dom (until L i) \<Longrightarrow> L |` (- set ns) = beyond L i"
  by (rule ext) (auto simp: restrict_map_def dom_until until_beyond_at)

lemma beyond_at: "beyond L i n = Some e \<Longrightarrow> L n = Some e \<and> i < n"
  by (simp add: until_beyond_at split: if_splits)

lemma logs_ok_beyond: "logs_ok L \<Longrightarrow> logs_ok (beyond L i)"
proof -
  assume L: "logs_ok L"
  have "dom (beyond L i) \<subseteq> dom L" by (auto simp: until_beyond_at split: if_splits)
  with L have "finite (dom (beyond L i))" unfolding logs_ok_def by (metis finite_subset)
  moreover have "in64 n \<and> in64 k" if "beyond L i n = Some (k, ov)" for n k ov
    using beyond_at [OF that] L unfolding logs_ok_def by blast
  ultimately show ?thesis unfolding logs_ok_def by blast
qed

lemma store_beyond:
  assumes st: "store_inv view seg L D h l" and i: "0 \<le> i" "i \<le> latestLogID seg"
    and w: "view w = encode (beyond L i) D (Some i) l"
  shows "store_inv view (seg\<lparr>writer := w\<rparr>) (beyond L i) D (Some i) l"
proof -
  note st' = st [unfolded store_inv_def]
  have "n \<le> latestLogID seg" if "n \<in> dom (beyond L i)" for n
    using that st' by (auto simp: until_beyond_at split: if_splits)
  moreover have "length v = dimensions seg" if "beyond L i n = Some (k, Some v)" for n k v
    using beyond_at [OF that] st' by blast
  moreover have "in64 (default0 (Some i))" using i st' by (simp add: default0_def in64_def)
  ultimately show ?thesis using st' w logs_ok_beyond unfolding store_inv_def by simp
qed

lemma cleanLogs_read_inv:
  assumes ok: "bluge_ok api view" and inv: "seg_inv view keys seg (Built i x) m"
    and run: "cleanLogs_read api i seg = Inr (docs, ops)"
  shows "seg_inv view keys seg (Cleaning i docs ops x) m"
proof -
  obtain rows where rows: "readHNSWLogRows api (writer seg) = Inr rows"
    using run by (auto simp: cleanLogs_read_def split: sum.splits)
  define rows' where "rows' = filter (\<lambda>row. \<not> i < ID row) rows"
  have docs: "docs = remdups (map DocID rows')"
    and ops: "ops = map (\<lambda>row. WDelete (log_key (ID row))) rows' @ [WUpdate ''hnsw_log_id'' (id_fields i)]"
    using run rows unfolding rows'_def by (simp_all add: cleanLogs_read_def Let_def id_fields_def)
  obtain L D h l where inv': "store_inv view seg L D h l" "memory_inv keys seg L D" "phase_inv keys seg L D (Built i x)"
    "m = visible L D" "finite (dom m)" using inv unfolding seg_inv_def by auto
  from inv'(1) have v: "view (writer seg) = encode L D h l" and L: "logs_ok L" unfolding store_inv_def by blast+
  then have fin: "finite (dom L)" unfolding logs_ok_def by blast
  obtain ns where ns: "set ns = dom L" "rows = map (\<lambda>n. row_of n (the (L n))) ns"
    using read_logs [OF ok v L rows] by blast
  define ns' where "ns' = filter (\<lambda>n. n \<le> i) ns"
  note r = rows_until [OF ns, of i, folded rows'_def ns'_def]
  have "ops = map (\<lambda>n. WDelete (log_key n)) ns' @ [WUpdate ''hnsw_log_id'' (id_fields i)]"
    unfolding ops r(1) by (simp add: row_of_def)
  moreover have "set docs = {k. last_of (until L i) k \<noteq> None}"
    using docs_of_rows [OF finite_until [OF fin] r(2,1)] by (simp add: docs)
  ultimately have "clean_for L i docs ops" using r(2) unfolding clean_for_def by blast
  with inv'(3) have "phase_inv keys seg L D (Cleaning i docs ops x)" by simp
  with inv' show ?thesis unfolding seg_inv_def by blast
qed

lemma cleanLogs_write_inv:
  assumes ok: "bluge_ok api view" and inv: "seg_inv view keys seg (Cleaning i docs ops x) m"
    and run: "cleanLogs_write api ops seg = Inr seg'"
  shows "seg_inv view keys seg' (Cleaned i docs x) m"
proof -
  obtain w where w: "bl_batch api (writer seg) ops = Inr w" and seg': "seg' = seg\<lparr>writer := w\<rparr>"
    using run by (auto simp: cleanLogs_write_def split: sum.splits)
  obtain L D h l where inv': "store_inv view seg L D h l" "memory_inv keys seg L D"
    "phase_inv keys seg L D (Cleaning i docs ops x)" "m = visible L D" "finite (dom m)"
    using inv unfolding seg_inv_def by auto
  note ph = inv'(3) [unfolded phase_inv.simps]
  from inv'(1) have v: "view (writer seg) = encode L D h l" and L: "logs_ok L" unfolding store_inv_def by blast+
  then have fin: "finite (dom L)" unfolding logs_ok_def by blast
  obtain ns where ns: "set ns = dom (until L i)" and docs: "set docs = {k. last_of (until L i) k \<noteq> None}"
    and ops: "ops = map (\<lambda>n. WDelete (log_key n)) ns @ [WUpdate ''hnsw_log_id'' (id_fields i)]"
    using ph unfolding clean_for_def by blast
  have "\<forall>n\<in>set ns. in64 n" using L unfolding ns dom_until logs_ok_def by fastforce
  then have w': "view w = encode (beyond L i) D (Some i) l"
    unfolding bluge_batch [OF ok w] ops v foldl_append
    by (simp add: encode_unlogs restrict_beyond [OF ns] encode_ids del: fun_upd_apply)
  have "store_inv view seg' (beyond L i) D (Some i) l"
    unfolding seg' by (rule store_beyond [OF inv'(1) _ _ w']) (use ph in blast)+
  moreover have vis: "visible (beyond L i) D = visible L D"
    by (rule visible_beyond [OF fin]) (use ph until_beyond_at(1) in \<open>auto simp: applied_def dest: until_last_at [OF fin]\<close>)
  then have "memory_inv keys seg' (beyond L i) D"
    using inv'(2) ph unfolding seg' memory_inv_def by (auto simp: last_of_beyond [OF fin] has_def split: option.splits if_splits)
  moreover have "k \<in> set docs \<and> t \<le> i" if "docTS seg k = Some t" "last_of (beyond L i) k = None" for k t
  proof -
    have last: "last_of L k = Some t" using that(1) ph unfolding no_lag_def by blast
    with that(2) have "t \<le> i" by (simp add: last_of_beyond [OF fin] split: if_splits)
    with last_of_until [OF fin last] show ?thesis by (simp add: docs)
  qed
  then have "phase_inv keys seg' (beyond L i) D (Cleaned i docs x)"
    using ph beyond_at unfolding seg' by (auto simp: dom_def)
  ultimately show ?thesis using vis inv'(4,5) unfolding seg_inv_def by metis
qed

lemma clean_doc_step:
  "clean_doc i d (c, ts) a = (if default0 (ts a) \<le> i then (deleteCache d c a, ts(a := None)) else (c, ts))"
  by (simp add: clean_doc_def default0_def)

lemma clean_docs:
  assumes "cache_ok d c" and "foldl (clean_doc i d) (c, ts) docs = (c', ts')" and "0 \<le> i"
  shows "cache_ok d c' \<and> ts' k = (if k \<in> set docs \<and> default0 (ts k) \<le> i then None else ts k)
    \<and> cache_map d c' k = (if k \<in> set docs \<and> default0 (ts k) \<le> i then None else cache_map d c k)"
  using assms(1,2)
proof (induction docs arbitrary: c ts)
  case (Cons a docs)
  show ?case
  proof (cases "default0 (ts a) \<le> i")
    case True
    have c1: "cache_ok d (deleteCache d c a)" "cache_map d (deleteCache d c a) = (cache_map d c)(a := None)"
      using vc.del [OF Cons.prems(1), of a] by simp_all
    have "foldl (clean_doc i d) (deleteCache d c a, ts(a := None)) docs = (c', ts')"
      using Cons.prems(2) True by (simp add: clean_doc_step del: fun_upd_apply)
    from Cons.IH [OF c1(1) this] c1(2) True show ?thesis using assms(3) by (auto simp: default0_def)
  next
    case False
    then have "foldl (clean_doc i d) (c, ts) docs = (c', ts')"
      using Cons.prems(2) by (simp add: clean_doc_step)
    from Cons.IH [OF Cons.prems(1) this] False show ?thesis by auto
  qed
qed simp

lemma cleanLogs_memory_inv:
  assumes inv: "seg_inv view keys seg (Cleaned i docs x) m" and docs: "set docs' = set docs"
  shows "seg_inv view keys (cleanLogs_memory i docs' x seg) Idle m"
proof -
  obtain L D h l where inv': "store_inv view seg L D h l" "memory_inv keys seg L D" "phase_inv keys seg L D (Cleaned i docs x)"
    "m = visible L D" "finite (dom m)" using inv unfolding seg_inv_def by auto
  note mem = inv'(2) [unfolded memory_inv_def] and ph = inv'(3) [unfolded phase_inv.simps]
  obtain c ts where cts: "foldl (clean_doc i (dimensions seg)) (cache seg, docTS seg) docs' = (c, ts)"
    by (cases "foldl (clean_doc i (dimensions seg)) (cache seg, docTS seg) docs'")
  let ?seg = "seg\<lparr>hnswLogID := i, cache := c, docTS := ts, index := Some x\<rparr>"
  have eq: "cleanLogs_memory i docs' x seg = ?seg" by (simp add: cleanLogs_memory_def cts)
  have i: "0 \<le> i" and c: "cache_ok (dimensions seg) (cache seg)" using ph mem by blast+
  define gone where "gone k = (k \<in> set docs \<and> default0 (docTS seg k) \<le> i)" for k
  note cd = clean_docs [OF c cts i, unfolded docs, folded gone_def]
  have fin: "finite (dom L)" using inv'(1) unfolding store_inv_def logs_ok_def by blast
  have live: "\<not> gone k \<and> docTS seg k = Some n" if "last_of L k = Some n" for k n
  proof -
    have "docTS seg k = Some n" using mem that by blast
    moreover have "i < n" using ph that last_of_Some [OF fin] by blast
    ultimately show ?thesis by (simp add: gone_def default0_def)
  qed
  have dead: "gone k" if "docTS seg k = Some t" "last_of L k = None" for k t
    using ph that by (simp add: gone_def default0_def)
  have none: "last_of L k = None" if "ts k = None" for k
  proof (rule ccontr)
    assume "last_of L k \<noteq> None"
    then obtain n where "last_of L k = Some n" by blast
    from live [OF this] cd [of k] that show False by simp
  qed
  have "memory_inv keys ?seg L D"
    unfolding memory_inv_def
  proof (intro conjI allI impI, goal_cases)
    case (2 k)
    with cd [of k] mem show ?case by (auto split: if_splits)
  next
    case (3 k)
    with cd [of k] mem show ?case by (auto split: if_splits)
  next
    case (4 k)
    with none show ?case by simp
  next
    case (5 k n)
    with live cd [of k] show ?case by simp
  next
    case (6 k)
    with ph show ?case by (simp add: has_def)
  next
    case (7 k)
    with mem show ?case by simp
  qed (use cd in simp)
  moreover have "no_lag ?seg L"
    unfolding no_lag_def
  proof (intro allI impI)
    fix k t assume "docTS ?seg k = Some t"
    with cd [of k] have "docTS seg k = Some t" "\<not> gone k" by (auto split: if_splits)
    with dead [of k t] live [of k] show "last_of L k = Some t" by (cases "last_of L k") auto
  qed
  moreover have "store_inv view ?seg L D h l" using inv'(1) unfolding store_inv_def by simp
  ultimately show ?thesis unfolding eq seg_inv_def using inv'(4,5) by (metis phase_inv.simps(1))
qed

section \<open>Loading\<close>

lemma load_rows:
  assumes "cache_ok d c" and "foldl (load_row d logs) (c, ts) ks = (c', ts')"
    and "\<forall>k\<in>set ks. \<exists>n e. logs k = Some (row_of n e) \<and> fst e = k \<and> (\<forall>v. snd e = Some v \<longrightarrow> length v = d)"
  shows "cache_ok d c' \<and> ts' k = (if k \<in> set ks then map_option ID (logs k) else ts k)
    \<and> cache_map d c' k = (if k \<in> set ks
        then (if DocDel (the (logs k)) then None else Some (Vector (the (logs k)))) else cache_map d c k)"
  using assms
proof (induction ks arbitrary: c ts)
  case (Cons a ks)
  from Cons.prems(3) obtain n ov where a: "logs a = Some (row_of n (a, ov))" "\<forall>v. ov = Some v \<longrightarrow> length v = d"
    by (metis list.set_intros(1) prod.collapse snd_conv)
  let ?c = "if ov = None then deleteCache d c a else updateCache d c a (the ov)"
  have step: "load_row d logs (c, ts) a = (?c, ts(a \<mapsto> n))"
    by (cases ov) (simp_all add: load_row_def a row_of_def)
  have c: "cache_ok d ?c" "cache_map d ?c = (cache_map d c)(a := ov)"
    using vc.del [OF Cons.prems(1), of a] vc.upd [OF Cons.prems(1), of "the ov" a] a(2) by (cases ov; simp)+
  have "foldl (load_row d logs) (?c, ts(a \<mapsto> n)) ks = (c', ts')"
    using Cons.prems(2) step by (simp del: fun_upd_apply)
  note IH = Cons.IH [OF c(1) this]
  have "\<forall>k\<in>set ks. \<exists>n e. logs k = Some (row_of n e) \<and> fst e = k \<and> (\<forall>v. snd e = Some v \<longrightarrow> length v = d)"
    using Cons.prems(3) by simp
  from IH [OF this, unfolded c(2)] show ?case by (cases ov) (auto simp: a row_of_def)
qed simp

definition fresh :: "('w, 'x) hnsw_seg \<Rightarrow> ('w, 'x) hnsw_seg" where
  "fresh seg = (newHNSWSegment (writer seg) (dimensions seg))\<lparr>hnsw_file := hnsw_file seg\<rparr>"

lemma loadLogs_ok:
  assumes ok: "bluge_ok api view" and v: "view (writer seg) = encode L D h l" and L: "logs_ok L"
    and dims: "\<forall>n k v. L n = Some (k, Some v) \<longrightarrow> length v = dimensions seg"
    and empty: "cache seg = cache_empty" "docTS seg = Map.empty"
    and ko: "\<forall>xs. mset (ko xs) = mset xs" and run: "loadLogs api ko seg = Inr seg'"
  obtains c where "seg' = seg\<lparr>cache := c, docTS := last_of L\<rparr>" "cache_ok (dimensions seg) c"
    "\<And>k. cache_map (dimensions seg) c k = (case last_of L k of None \<Rightarrow> None | Some n \<Rightarrow> snd (the (L n)))"
proof -
  have fin: "finite (dom L)" using L unfolding logs_ok_def by blast
  let ?d = "dimensions seg"
  obtain rows where rows: "readHNSWLogRows api (writer seg) = Inr rows"
    using run by (auto simp: loadLogs_def split: sum.splits)
  obtain ns where ns: "set ns = dom L" "rows = map (\<lambda>n. row_of n (the (L n))) ns"
    using read_logs [OF ok v L rows] by blast
  let ?ks = "ko (remdups (map DocID rows))"
  have ks: "set ?ks = {k. last_of L k \<noteq> None}"
    using docs_of_rows [OF fin ns] ko by (metis list.set_map set_mset_mset set_remdups)
  obtain c ts where cts: "foldl (load_row ?d (newest rows)) (cache_empty, Map.empty) ?ks = (c, ts)"
    by (cases "foldl (load_row ?d (newest rows)) (cache_empty, Map.empty) ?ks")
  have seg': "seg' = seg\<lparr>cache := c, docTS := ts\<rparr>"
    using run rows cts empty by (simp add: loadLogs_def)
  have new: "newest rows k = Some (row_of n (k, snd (the (L n))))" "L n = Some (k, snd (the (L n)))"
    if "last_of L k = Some n" for k n
    using newest_last_of [OF fin ns, of k] last_of_at [OF fin that] that by (metis option.map(2) option.sel)+
  have "\<forall>k\<in>set ?ks. \<exists>n e. newest rows k = Some (row_of n e) \<and> fst e = k \<and> (\<forall>v. snd e = Some v \<longrightarrow> length v = ?d)"
  proof
    fix k assume "k \<in> set ?ks"
    then obtain n where n: "last_of L k = Some n" using ks by auto
    have "\<forall>v. snd (the (L n)) = Some v \<longrightarrow> length v = ?d" using dims new(2) [OF n] by metis
    with new(1) [OF n] show "\<exists>n e. newest rows k = Some (row_of n e) \<and> fst e = k \<and> (\<forall>v. snd e = Some v \<longrightarrow> length v = ?d)"
      by fastforce
  qed
  note lr = load_rows [OF cache_empty_ok(1) cts this]
  have at: "ts k = last_of L k \<and> cache_map ?d c k = (case last_of L k of None \<Rightarrow> None | Some n \<Rightarrow> snd (the (L n)))" for k
  proof (cases "last_of L k")
    case None
    then show ?thesis using lr [of k] ks cache_empty_ok(2) by simp
  next
    case (Some n)
    then show ?thesis using lr [of k] ks new(1) [OF Some] by (cases "snd (the (L n))") (simp_all add: row_of_def)
  qed
  then have "ts = last_of L" by blast
  with at lr show thesis using that [of c] by (simp add: seg')
qed

end
