(* ===== verification/Hnsw_Search.thy ===== *)
theory Hnsw_Search
  imports Hnsw_Steps
begin

text \<open>
  Searching the HNSW segment, \<^verbatim>\<open>pkg/core/hnsw_segment.go\<close>: the vectors of the log are searched
  exactly in the cache, the others through the index or by their ids in the store, and the two
  results are merged by distance. The lemmas show that the two halves cover the view of the
  segment and that merging keeps the nearest.
\<close>

section \<open>Comparing float32 values\<close>

text \<open>A float32 by its bits: a NaN compares with nothing, the others by sign and magnitude.\<close>

definition float32_nan :: "float32 \<Rightarrow> bool" where
  "float32_nan x \<longleftrightarrow> 0x7F800000 < unat x mod 2 ^ 31"

definition float32_rank :: "float32 \<Rightarrow> int" where
  "float32_rank x = (if unat x < 2 ^ 31 then int (unat x) else - int (unat x mod 2 ^ 31))"

definition float32_lt :: "float32 \<Rightarrow> float32 \<Rightarrow> bool" where
  "float32_lt x y \<longleftrightarrow> \<not> float32_nan x \<and> \<not> float32_nan y \<and> float32_rank x < float32_rank y"

section \<open>Model\<close>

text \<open>
  \<open>exact\<close> is \<^verbatim>\<open>usearch.ExactSearch\<close> on the packed vectors, the query, their number and the limit: the
  positions found and their distances. \<open>None\<close> is a panic: a division by zero dimensions, or a
  position out of range.
\<close>

type_synonym exact_fun = "float32 list \<Rightarrow> float32 list \<Rightarrow> nat \<Rightarrow> nat \<Rightarrow> error + (nat list \<times> float32 list)"
type_synonym hits = "(int \<times> float32) list"

definition ExactSearch :: "exact_fun \<Rightarrow> int list \<Rightarrow> float32 list \<Rightarrow> float32 list \<Rightarrow> nat \<Rightarrow> int \<Rightarrow> (error + hits) option" where
  "ExactSearch exact ids vectors query dims k =
     (if dims = 0 then None
      else let cnt = length vectors div dims;
               limit = unat (word_of_int (min k (int cnt)) :: uint64)
        in if limit = 0 then Some (Inr [])
           else case exact vectors query cnt limit of
               Inl e \<Rightarrow> Some (Inl e)
             | Inr (keys, distances) \<Rightarrow>
                 (case those (map (slice_get ids) keys) of
                    None \<Rightarrow> None
                  | Some found \<Rightarrow> Some (Inr (zip found distances))))"

definition wrap_err :: "string \<Rightarrow> (error + 'a) option \<Rightarrow> (error + 'a) option" where
  "wrap_err msg r = map_option (\<lambda>r. case r of Inl e \<Rightarrow> Inl (wrap msg e) | Inr x \<Rightarrow> Inr x) r"

definition searchCache :: "exact_fun \<Rightarrow> float32 list \<Rightarrow> int \<Rightarrow> ('w, 'x) hnsw_seg \<Rightarrow> (error + hits) option" where
  "searchCache exact query k seg = wrap_err ''failed to exact search''
     (ExactSearch exact (docIDs (cache seg)) (docVectors (cache seg)) query (dimensions seg) k)"

fun cached_of :: "nat \<Rightarrow> vcache \<Rightarrow> int list \<Rightarrow> (int \<times> float32 list) list" where
  "cached_of d c [] = []"
| "cached_of d c (k # rest) = (case docIDIndex c k of
     None \<Rightarrow> cached_of d c rest
   | Some i \<Rightarrow> (k, take d (drop (i * d) (docVectors c))) # cached_of d c rest)"

definition searchCacheByIDs :: "exact_fun \<Rightarrow> float32 list \<Rightarrow> int \<Rightarrow> int list \<Rightarrow> ('w, 'x) hnsw_seg \<Rightarrow> (error + hits) option" where
  "searchCacheByIDs exact query k filt seg =
     (let found = cached_of (dimensions seg) (cache seg) filt in
      wrap_err ''failed to exact search''
        (ExactSearch exact (map fst found) (concat (map snd found)) query (dimensions seg) k))"

text \<open>The error of the iteration over the stored documents is not looked at.\<close>

definition searchDocsByIDs :: "exact_fun \<Rightarrow> 'w bluge \<Rightarrow> float32 list \<Rightarrow> int \<Rightarrow> int list \<Rightarrow> ('w, 'x) hnsw_seg
    \<Rightarrow> (error + hits) option" where
  "searchDocsByIDs exact api query k filt seg =
     (let rows = filter (\<lambda>row. docTS seg (fst row) = None) (fst (readHNSWDocRowsByIDs api (writer seg) filt))
      in wrap_err ''failed to exact search''
           (ExactSearch exact (map fst rows) (concat (map snd rows)) query (dimensions seg) k))"

definition searchHNSW :: "exact_fun \<Rightarrow> 'w bluge \<Rightarrow> 'x usearch \<Rightarrow> float32 list \<Rightarrow> int \<Rightarrow> ('w, 'x) hnsw_seg
    \<Rightarrow> (error + hits) option" where
  "searchHNSW exact api us query k seg =
     (case index seg of
        None \<Rightarrow> Some (Inr [])
      | Some x \<Rightarrow>
          (case us_search us x query (nat (k + int (card (dom (docTS seg))))) of
             Inl e \<Rightarrow> Some (Inl (wrap ''failed to search'' e))
           | Inr keys \<Rightarrow>
               wrap_err ''failed to search docs by IDs''
                 (map_option (map_sum id (take (nat k)))
                   (searchDocsByIDs exact api query k (filter (\<lambda>key. docTS seg key = None) keys) seg))))"

fun merge_hits :: "hits \<Rightarrow> hits \<Rightarrow> hits" where
  "merge_hits [] ys = ys"
| "merge_hits (x # xs) [] = x # xs"
| "merge_hits (x # xs) (y # ys) =
     (if float32_lt (snd x) (snd y) then x # merge_hits xs (y # ys) else y # merge_hits (x # xs) ys)"

definition merged :: "int \<Rightarrow> (error + hits) option \<Rightarrow> string \<Rightarrow> (error + hits) option \<Rightarrow> string \<Rightarrow> (error + hits) option" where
  "merged k r1 msg1 r2 msg2 =
     (case wrap_err msg1 r1 of
        None \<Rightarrow> None
      | Some (Inl e) \<Rightarrow> Some (Inl e)
      | Some (Inr hits1) \<Rightarrow>
          (case wrap_err msg2 r2 of
             None \<Rightarrow> None
           | Some (Inl e) \<Rightarrow> Some (Inl e)
           | Some (Inr hits2) \<Rightarrow> Some (Inr (take (nat k) (merge_hits hits1 hits2)))))"

definition Search :: "exact_fun \<Rightarrow> 'w bluge \<Rightarrow> 'x usearch \<Rightarrow> float32 list \<Rightarrow> int \<Rightarrow> ('w, 'x) hnsw_seg
    \<Rightarrow> (error + hits) option" where
  "Search exact api us query k seg =
     (if length query \<noteq> dimensions seg then Some (Inl ''wrong dimension for vector'')
      else let k = max k 0 in
        merged k (searchCache exact query k seg) ''failed to search cache''
          (searchHNSW exact api us query k seg) ''failed to search hnsw'')"

definition SearchByIDs :: "exact_fun \<Rightarrow> 'w bluge \<Rightarrow> float32 list \<Rightarrow> int \<Rightarrow> int list \<Rightarrow> ('w, 'x) hnsw_seg
    \<Rightarrow> (error + hits) option" where
  "SearchByIDs exact api query k filt seg =
     (if length query \<noteq> dimensions seg then Some (Inl ''wrong dimension for vector'')
      else let k = max k 0 in
        merged k (searchCacheByIDs exact query k filt seg) ''failed to search cache''
          (searchDocsByIDs exact api query k filt seg) ''failed to search docs by IDs'')"

section \<open>The nearest of a set of vectors\<close>

text \<open>What is relied on of the exact search: positions without repetition, as many as asked for, in
  the order of their distances, and no vector left out is nearer than one returned.\<close>

definition exact_ok :: "exact_fun \<Rightarrow> (float32 list \<Rightarrow> float32 list \<Rightarrow> float32) \<Rightarrow> nat \<Rightarrow> bool" where
  "exact_ok exact dist d \<longleftrightarrow> (\<forall>vs q limit keys ds.
     (\<forall>v\<in>set vs. length v = d) \<and> limit \<le> length vs \<and> exact (concat vs) q (length vs) limit = Inr (keys, ds) \<longrightarrow>
       distinct keys \<and> length keys = limit \<and> (\<forall>i\<in>set keys. i < length vs)
       \<and> ds = map (\<lambda>i. dist q (vs ! i)) keys \<and> sorted (map float32_rank ds)
       \<and> (\<forall>i<length vs. i \<notin> set keys \<longrightarrow> (\<forall>x\<in>set ds. float32_rank x \<le> float32_rank (dist q (vs ! i)))))"

definition nearest :: "(float32 list \<Rightarrow> float32) \<Rightarrow> nat \<Rightarrow> (int \<rightharpoonup> float32 list) \<Rightarrow> hits \<Rightarrow> bool" where
  "nearest dist n c r \<longleftrightarrow>
     distinct (map fst r) \<and> length r = min n (card (dom c))
     \<and> (\<forall>h\<in>set r. \<exists>v. c (fst h) = Some v \<and> snd h = dist v)
     \<and> sorted (map (float32_rank \<circ> snd) r)
     \<and> (\<forall>k v. c k = Some v \<and> k \<notin> fst ` set r \<longrightarrow> (\<forall>h\<in>set r. float32_rank (snd h) \<le> float32_rank (dist v)))"

lemma those_slice: "\<forall>i\<in>set is. i < length xs \<Longrightarrow> those (map (slice_get xs) is) = Some (map ((!) xs) is)"
  by (induction "is") (simp_all add: slice_get_def)

lemma limit_conv: "0 \<le> k \<Longrightarrow> k < 2 ^ 63 \<Longrightarrow> unat (word_of_int (min k (int n)) :: uint64) = min (nat k) n"
  by (auto simp: unat_eq_nat_uint uint_word_of_int_eq min_def take_bit_int_eq_self nat_le_iff)

lemma ExactSearch_limit:
  assumes d: "0 < d" and dims: "\<forall>r\<in>set rows. length (snd r) = d" and k: "0 \<le> k" "k < 2 ^ 63"
  shows "ExactSearch exact (map fst rows) (concat (map snd rows)) query d k =
    (if min (nat k) (length rows) = 0 then Some (Inr [])
     else case exact (concat (map snd rows)) query (length rows) (min (nat k) (length rows)) of
         Inl e \<Rightarrow> Some (Inl e)
       | Inr (keys, ds) \<Rightarrow> (case those (map (slice_get (map fst rows)) keys) of
           None \<Rightarrow> None | Some found \<Rightarrow> Some (Inr (zip found ds))))"
proof -
  have "length (concat (map snd rows)) = length rows * d"
    using dims by (induction rows) auto
  then have "length (concat (map snd rows)) div d = length rows" using d by simp
  then show ?thesis using d by (simp add: ExactSearch_def Let_def limit_conv [OF k])
qed

lemma map_of_nth: "distinct (map fst rows) \<Longrightarrow> i < length rows \<Longrightarrow> map_of rows (fst (rows ! i)) = Some (snd (rows ! i))"
  by (metis map_of_eq_Some_iff nth_mem prod.collapse)

lemma map_of_at: "map_of rows k = Some v \<Longrightarrow> \<exists>i<length rows. rows ! i = (k, v)"
  by (metis in_set_conv_nth map_of_SomeD)

definition picked :: "(float32 list \<Rightarrow> float32) \<Rightarrow> float32 list list \<Rightarrow> nat \<Rightarrow> nat list \<Rightarrow> float32 list \<Rightarrow> bool" where
  "picked dist vs limit keys ds \<longleftrightarrow>
     distinct keys \<and> length keys = limit \<and> (\<forall>i\<in>set keys. i < length vs)
     \<and> ds = map (\<lambda>i. dist (vs ! i)) keys \<and> sorted (map float32_rank ds)
     \<and> (\<forall>i<length vs. i \<notin> set keys \<longrightarrow> (\<forall>x\<in>set ds. float32_rank x \<le> float32_rank (dist (vs ! i))))"

lemma exact_okD:
  "exact_ok exact dist d \<Longrightarrow> \<forall>v\<in>set vs. length v = d \<Longrightarrow> limit \<le> length vs \<Longrightarrow>
   exact (concat vs) q (length vs) limit = Inr (keys, ds) \<Longrightarrow> picked (dist q) vs limit keys ds"
  unfolding exact_ok_def picked_def by blast

lemma card_dom_map_of: "distinct (map fst rows) \<Longrightarrow> card (dom (map_of rows)) = length rows"
  by (metis distinct_card dom_map_of_conv_image_fst length_map set_map)

lemma picked_nearest:
  assumes p: "picked dist (map snd rows) (min n (length rows)) keys ds" and rows: "distinct (map fst rows)"
  shows "those (map (slice_get (map fst rows)) keys) = Some (map ((!) (map fst rows)) keys)"
    and "nearest dist n (map_of rows) (zip (map ((!) (map fst rows)) keys) ds)"
proof -
  have e: "distinct keys" "length keys = min n (length rows)" "\<forall>i\<in>set keys. i < length rows"
    and ds: "ds = map (\<lambda>i. dist (snd (rows ! i))) keys" and srt: "sorted (map float32_rank ds)"
    and far: "\<And>i x. i < length rows \<Longrightarrow> i \<notin> set keys \<Longrightarrow> x \<in> set ds \<Longrightarrow> float32_rank x \<le> float32_rank (dist (snd (rows ! i)))"
    using p unfolding picked_def by auto
  let ?r = "map (\<lambda>i. (fst (rows ! i), dist (snd (rows ! i)))) keys"
  show "those (map (slice_get (map fst rows)) keys) = Some (map ((!) (map fst rows)) keys)"
    using e(3) by (intro those_slice) simp
  have r: "zip (map ((!) (map fst rows)) keys) ds = ?r"
    using e(3) unfolding ds zip_map_map by (simp add: zip_same_conv_map)
  have "x = y" if "x < length rows" "y < length rows" "fst (rows ! x) = fst (rows ! y)" for x y
    using nth_eq_iff_index_eq [OF rows, of x y] that by simp
  then have "distinct (map fst ?r)"
    using e(1,3) by (auto simp: distinct_map o_def inj_on_def)
  moreover have "length ?r = min n (card (dom (map_of rows)))"
    using e(2) card_dom_map_of [OF rows] by simp
  moreover have "\<exists>v. map_of rows (fst h) = Some v \<and> snd h = dist v" if "h \<in> set ?r" for h
    using that e(3) map_of_nth [OF rows] by auto
  moreover have "sorted (map (float32_rank \<circ> snd) ?r)" using srt unfolding ds by (simp add: o_def)
  moreover have "float32_rank (snd h) \<le> float32_rank (dist v)"
    if kv: "map_of rows k' = Some v" "k' \<notin> fst ` set ?r" and h: "h \<in> set ?r" for k' v h
  proof -
    obtain i where i: "i < length rows" "rows ! i = (k', v)" using map_of_at [OF kv(1)] by blast
    have "i \<notin> set keys" using kv(2) i(2) by force
    moreover have "snd h \<in> set ds" using h unfolding ds by auto
    ultimately show ?thesis using far [OF i(1)] i(2) by simp
  qed
  ultimately show "nearest dist n (map_of rows) (zip (map ((!) (map fst rows)) keys) ds)"
    unfolding nearest_def r by blast
qed

lemma ExactSearch_nearest:
  assumes ok: "exact_ok exact dist d" and d: "0 < d" and rows: "distinct (map fst rows)" "\<forall>r\<in>set rows. length (snd r) = d"
    and k: "0 \<le> k" "k < 2 ^ 63"
  obtains e where "ExactSearch exact (map fst rows) (concat (map snd rows)) query d k = Some (Inl e)"
  | r where "ExactSearch exact (map fst rows) (concat (map snd rows)) query d k = Some (Inr r)"
    "nearest (dist query) (nat k) (map_of rows) r"
proof (cases "min (nat k) (length rows) = 0")
  case True
  then have "nearest (dist query) (nat k) (map_of rows) []"
    using card_dom_map_of [OF rows(1)] by (auto simp: nearest_def)
  with True show thesis using that(2) unfolding ExactSearch_limit [OF d rows(2) k] by simp
next
  case False
  let ?n = "min (nat k) (length rows)" and ?vs = "map snd rows"
  show thesis
  proof (cases "exact (concat ?vs) query (length rows) ?n")
    case (Inl e)
    then show thesis using that(1) unfolding ExactSearch_limit [OF d rows(2) k] if_not_P [OF False] by simp
  next
    case (Inr p)
    obtain keys ds where p: "p = (keys, ds)" by (cases p)
    have "picked (dist query) ?vs ?n keys ds"
      by (rule exact_okD [OF ok]) (use Inr rows(2) p in auto)
    note pn = picked_nearest [OF this rows(1)]
    from Inr show thesis
      using that(2) [OF _ pn(2)] unfolding ExactSearch_limit [OF d rows(2) k] if_not_P [OF False] p by (simp add: pn(1))
  qed
qed

subsection \<open>Merging\<close>

lemma mset_merge_hits: "mset (merge_hits xs ys) = mset xs + mset ys"
  by (induction xs ys rule: merge_hits.induct) auto

lemma set_merge_hits: "set (merge_hits xs ys) = set xs \<union> set ys"
  using mset_merge_hits [of xs ys] by (metis set_mset_mset set_mset_union)

abbreviation rank_of :: "int \<times> float32 \<Rightarrow> int" where
  "rank_of h \<equiv> float32_rank (snd h)"

lemma sorted_merge_hits:
  assumes "sorted (map rank_of xs)" "sorted (map rank_of ys)" "\<forall>h\<in>set xs \<union> set ys. \<not> float32_nan (snd h)"
  shows "sorted (map rank_of (merge_hits xs ys))"
  using assms
proof (induction xs ys rule: merge_hits.induct)
  case (3 x xs y ys)
  have lt: "float32_lt (snd x) (snd y) \<longleftrightarrow> rank_of x < rank_of y" using "3.prems"(3) by (simp add: float32_lt_def)
  have x: "\<forall>h\<in>set xs. rank_of x \<le> rank_of h" and y: "\<forall>h\<in>set ys. rank_of y \<le> rank_of h"
    using "3.prems"(1,2) by simp_all
  show ?case
  proof (cases "float32_lt (snd x) (snd y)")
    case True
    have "sorted (map rank_of (merge_hits xs (y # ys)))"
      using "3.prems" by (intro "3.IH"(1) [OF True]) simp_all
    moreover have "\<forall>h\<in>set (merge_hits xs (y # ys)). rank_of x \<le> rank_of h"
      using x y True unfolding lt by (auto simp: set_merge_hits)
    ultimately show ?thesis using True by simp
  next
    case False
    have "sorted (map rank_of (merge_hits (x # xs) ys))"
      using "3.prems" by (intro "3.IH"(2) [OF False]) simp_all
    moreover have "\<forall>h\<in>set (merge_hits (x # xs) ys). rank_of y \<le> rank_of h"
      using x y False unfolding lt by (auto simp: set_merge_hits)
    ultimately show ?thesis using False by simp
  qed
qed auto

lemma sorted_take_le:
  assumes "sorted (map f xs)" and "n \<le> length (filter (\<lambda>x. f x \<le> b) xs)"
  shows "\<forall>x\<in>set (take n xs). f x \<le> (b :: int)"
  using assms
proof (induction xs arbitrary: n)
  case (Cons x xs)
  show ?case
  proof (cases "f x \<le> b")
    case True
    show ?thesis
    proof (cases n)
      case (Suc m)
      with Cons.prems True have "\<forall>x\<in>set (take m xs). f x \<le> b" by (intro Cons.IH) simp_all
      with True Suc show ?thesis by simp
    qed simp
  next
    case False
    have "filter (\<lambda>x. f x \<le> b) xs = []" using Cons.prems(1) False by (fastforce simp: filter_empty_conv)
    with Cons.prems(2) False show ?thesis by simp
  qed
qed simp

lemma sorted_take_drop:
  assumes "sorted (map f xs)" "x \<in> set (take n xs)" "y \<in> set (drop n xs)"
  shows "f x \<le> (f y :: int)"
proof -
  have "sorted (map f (take n xs) @ map f (drop n xs))" using assms(1) by (simp flip: map_append)
  with assms(2,3) show ?thesis by (auto simp: sorted_append)
qed

text \<open>When a vector is left out, as many as were asked for are nearer.\<close>

lemma nearest_left_out:
  assumes r: "nearest dist n c r" and fin: "finite (dom c)" and k: "c k = Some v" "k \<notin> fst ` set r"
  shows "length (filter (\<lambda>h. rank_of h \<le> float32_rank (dist v)) r) = n"
proof -
  have "\<forall>h\<in>set r. rank_of h \<le> float32_rank (dist v)" using r k unfolding nearest_def by blast
  then have all: "filter (\<lambda>h. rank_of h \<le> float32_rank (dist v)) r = r" by (simp add: filter_id_conv)
  have dist: "distinct (map fst r)" and sub: "fst ` set r \<subseteq> dom c - {k}" and len: "length r = min n (card (dom c))"
    using r k unfolding nearest_def by auto
  have "length r = card (fst ` set r)" using dist by (metis distinct_card length_map set_map)
  also have "\<dots> \<le> card (dom c - {k})" using sub fin by (intro card_mono) auto
  also have "\<dots> < card (dom c)" using k fin by (intro card_Diff1_less) auto
  finally show ?thesis using len unfolding all by simp
qed

lemma merge_left_out:
  assumes r1: "nearest dist n c1 r1" and r2: "nearest dist n c2 r2" and fin: "finite (dom c1)" "finite (dom c2)"
    and kv: "c1 k = Some v \<or> c2 k = Some v" and out: "k \<notin> fst ` set (merge_hits r1 r2)"
  shows "n \<le> length (filter (\<lambda>h. rank_of h \<le> float32_rank (dist v)) (merge_hits r1 r2))"
proof -
  have "length (filter P (merge_hits r1 r2)) = length (filter P r1) + length (filter P r2)" for P
    using arg_cong [OF mset_merge_hits [of r1 r2], of "\<lambda>M. size (filter_mset P M)"] by (simp flip: mset_filter)
  then have ge: "length (filter P ri) \<le> length (filter P (merge_hits r1 r2))" if "ri = r1 \<or> ri = r2" for P ri
    using that by auto
  from out have out: "k \<notin> fst ` set r1" "k \<notin> fst ` set r2" by (auto simp: set_merge_hits)
  from kv show ?thesis
  proof
    assume "c1 k = Some v"
    from nearest_left_out [OF r1 fin(1) this out(1)] ge [of r1] show ?thesis by metis
  next
    assume "c2 k = Some v"
    from nearest_left_out [OF r2 fin(2) this out(2)] ge [of r2] show ?thesis by metis
  qed
qed

lemma nearest_merge:
  assumes r1: "nearest dist n c1 r1" and r2: "nearest dist n c2 r2" and fin: "finite (dom c1)" "finite (dom c2)"
    and disj: "dom c1 \<inter> dom c2 = {}" and nan: "\<forall>k v. c1 k = Some v \<or> c2 k = Some v \<longrightarrow> \<not> float32_nan (dist v)"
  shows "nearest dist n (c1 ++ c2) (take n (merge_hits r1 r2))"
proof -
  let ?m = "merge_hits r1 r2" and ?c = "c1 ++ c2"
  have d1: "\<exists>v. c1 (fst h) = Some v \<and> snd h = dist v" if "h \<in> set r1" for h using r1 that unfolding nearest_def by blast
  have d2: "\<exists>v. c2 (fst h) = Some v \<and> snd h = dist v" if "h \<in> set r2" for h using r2 that unfolding nearest_def by blast
  have c: "?c k = Some v \<longleftrightarrow> c1 k = Some v \<or> c2 k = Some v" for k v
    using disj by (auto simp: map_add_Some_iff)
  have dm: "\<exists>v. ?c (fst h) = Some v \<and> snd h = dist v" if "h \<in> set ?m" for h
    using that d1 [of h] d2 [of h] unfolding set_merge_hits c by blast
  have n1: "sorted (map rank_of r1)" "distinct (map fst r1)" "length r1 = min n (card (dom c1))"
    and n2: "sorted (map rank_of r2)" "distinct (map fst r2)" "length r2 = min n (card (dom c2))"
    using r1 r2 unfolding nearest_def o_def by blast+
  have "\<forall>h\<in>set r1 \<union> set r2. \<not> float32_nan (snd h)" using d1 d2 nan by (metis Un_iff)
  with n1(1) n2(1) have srt: "sorted (map rank_of ?m)" by (rule sorted_merge_hits)
  have "fst ` set r1 \<subseteq> dom c1" "fst ` set r2 \<subseteq> dom c2" using d1 d2 by blast+
  with disj have "set (map fst r1) \<inter> set (map fst r2) = {}" by (simp only: set_map) blast
  with n1(2) n2(2) have "distinct (map fst (r1 @ r2))" by simp
  moreover have "mset (map fst ?m) = mset (map fst (r1 @ r2))" by (simp add: mset_merge_hits)
  ultimately have dist: "distinct (map fst ?m)" by (metis mset_eq_imp_distinct_iff)
  have len: "length ?m = length r1 + length r2"
    using arg_cong [OF mset_merge_hits [of r1 r2], of size] by simp
  have "card (dom ?c) = card (dom c1) + card (dom c2)"
    using fin disj by (simp add: card_Un_disjoint Int_commute)
  with len have len': "length (take n ?m) = min n (card (dom ?c))" by (simp add: n1(3) n2(3))
  have far: "rank_of h \<le> float32_rank (dist v)"
    if kv: "?c k = Some v" "k \<notin> fst ` set (take n ?m)" and h: "h \<in> set (take n ?m)" for k v h
  proof (cases "k \<in> fst ` set ?m")
    case True
    then obtain h' where h': "h' \<in> set ?m" "fst h' = k" by blast
    then have "h' \<in> set (drop n ?m)" using kv(2) by (metis Un_iff append_take_drop_id imageI set_append)
    moreover have "snd h' = dist v" using dm [OF h'(1)] h'(2) kv(1) by simp
    ultimately show ?thesis using sorted_take_drop [OF srt h] by metis
  next
    case False
    from merge_left_out [OF r1 r2 fin kv(1) [unfolded c] False]
    have "\<forall>h\<in>set (take n ?m). rank_of h \<le> float32_rank (dist v)" by (rule sorted_take_le [OF srt])
    with h show ?thesis by blast
  qed
  show ?thesis
    unfolding nearest_def
  proof (intro conjI)
    show "distinct (map fst (take n ?m))" using dist by (simp add: take_map [symmetric])
    show "sorted (map (float32_rank \<circ> snd) (take n ?m))" using srt by (simp add: take_map [symmetric] o_def sorted_wrt_take)
    show "\<forall>h\<in>set (take n ?m). \<exists>v. ?c (fst h) = Some v \<and> snd h = dist v"
      by (intro ballI dm) (rule in_set_takeD)
    show "\<forall>k v. ?c k = Some v \<and> k \<notin> fst ` set (take n ?m) \<longrightarrow>
        (\<forall>h\<in>set (take n ?m). rank_of h \<le> float32_rank (dist v))"
      by (intro allI impI ballI, elim conjE) (rule far)
  qed (rule len')
qed

section \<open>The halves of a search\<close>

definition exact_total :: "exact_fun \<Rightarrow> bool" where
  "exact_total exact \<longleftrightarrow> (\<forall>vs q cnt limit. \<exists>r. exact vs q cnt limit = Inr r)"

lemma ExactSearch_total:
  assumes ok: "exact_ok exact dist d" "exact_total exact" and d: "0 < d" and rows: "distinct (map fst rows)" "\<forall>r\<in>set rows. length (snd r) = d"
    and k: "0 \<le> k" "k < 2 ^ 63"
  shows "\<exists>r. ExactSearch exact (map fst rows) (concat (map snd rows)) query d k = Some (Inr r)
    \<and> nearest (dist query) (nat k) (map_of rows) r"
proof (rule ExactSearch_nearest [OF ok(1) d rows k, of query])
  fix e assume "ExactSearch exact (map fst rows) (concat (map snd rows)) query d k = Some (Inl e)"
  then have "\<exists>e. exact (concat (map snd rows)) query (length rows) (min (nat k) (length rows)) = Inl e"
    unfolding ExactSearch_limit [OF d rows(2) k] by (auto split: if_splits sum.splits option.splits)
  with ok(2) show ?thesis unfolding exact_total_def by (metis Inl_Inr_False)
qed blast

lemma cache_vec_length: "cache_ok d c \<Longrightarrow> cache_map d c k = Some v \<Longrightarrow> length v = d"
proof -
  assume "cache_ok d c" and v: "cache_map d c k = Some v"
  then obtain ks vs where rep: "cache_rep d c ks vs" unfolding cache_ok_def by blast
  from v obtain i where i: "docIDIndex c k = Some i" "v = vs ! i" unfolding cache_map_rep [OF rep] by auto
  from cache_rep_index(1) [OF rep i(1)] cache_repD [OF rep] i(2) show ?thesis by simp
qed

lemma finite_cache_map: "cache_ok d c \<Longrightarrow> finite (dom (cache_map d c))"
proof -
  assume "cache_ok d c"
  then obtain ks vs where rep: "cache_rep d c ks vs" unfolding cache_ok_def by blast
  have "dom (cache_map d c) \<subseteq> set ks"
    unfolding cache_map_rep [OF rep] by (auto dest!: cache_rep_index(1) [OF rep])
  then show ?thesis by (rule finite_subset) simp
qed

lemma cached_of_map:
  "cached_of d c filt = map (\<lambda>k. (k, the (cache_map d c k))) (filter (\<lambda>k. cache_map d c k \<noteq> None) filt)"
  by (induction filt) (auto simp: cache_map_def split: option.splits)

lemma map_of_keys: "map_of (map (\<lambda>k. (k, the (c k))) (filter (\<lambda>k. c k \<noteq> None) ks)) = c |` set ks"
  by (induction ks) (auto simp: restrict_map_def fun_eq_iff)

lemma searchCacheByIDs_nearest:
  assumes ok: "exact_ok exact dist (dimensions seg)" "exact_total exact" and d: "0 < dimensions seg"
    and c: "cache_ok (dimensions seg) (cache seg)" and filt: "distinct filt" and k: "0 \<le> k" "k < 2 ^ 63"
  shows "\<exists>r. searchCacheByIDs exact query k filt seg = Some (Inr r)
    \<and> nearest (dist query) (nat k) (cache_map (dimensions seg) (cache seg) |` set filt) r"
proof -
  let ?rows = "cached_of (dimensions seg) (cache seg) filt"
  have "distinct (map fst ?rows)" using filt unfolding cached_of_map by (simp add: o_def)
  moreover have "\<forall>r\<in>set ?rows. length (snd r) = dimensions seg"
    unfolding cached_of_map using cache_vec_length [OF c] by auto
  ultimately have "\<exists>r. ExactSearch exact (map fst ?rows) (concat (map snd ?rows)) query (dimensions seg) k = Some (Inr r)
      \<and> nearest (dist query) (nat k) (map_of ?rows) r" by (rule ExactSearch_total [OF ok d _ _ k])
  moreover have "map_of ?rows = cache_map (dimensions seg) (cache seg) |` set filt"
    unfolding cached_of_map map_of_keys ..
  ultimately show ?thesis by (auto simp: searchCacheByIDs_def wrap_err_def)
qed

lemma searchCache_nearest:
  assumes ok: "exact_ok exact dist (dimensions seg)" "exact_total exact" and d: "0 < dimensions seg"
    and c: "cache_ok (dimensions seg) (cache seg)" and k: "0 \<le> k" "k < 2 ^ 63"
  shows "\<exists>r. searchCache exact query k seg = Some (Inr r)
    \<and> nearest (dist query) (nat k) (cache_map (dimensions seg) (cache seg)) r"
proof -
  obtain ks vs where rep: "cache_rep (dimensions seg) (cache seg) ks vs" using c unfolding cache_ok_def by blast
  note D = cache_repD [OF rep]
  let ?rows = "zip ks vs"
  have fs: "map fst ?rows = ks" "map snd ?rows = vs" using D(2) by simp_all
  have "\<forall>r\<in>set ?rows. length (snd r) = dimensions seg" using D(3) by (auto dest: set_zip_rightD)
  then have "\<exists>r. ExactSearch exact (map fst ?rows) (concat (map snd ?rows)) query (dimensions seg) k = Some (Inr r)
      \<and> nearest (dist query) (nat k) (map_of ?rows) r"
    by (rule ExactSearch_total [OF ok d _ _ k, rotated]) (simp add: fs D(1))
  moreover have "map_of ?rows k' = cache_map (dimensions seg) (cache seg) k'" for k'
  proof (cases "docIDIndex (cache seg) k'")
    case None
    then show ?thesis using cache_rep_index(2) [OF rep None] D(2) unfolding cache_map_rep [OF rep]
      by (simp add: map_of_zip_is_None)
  next
    case (Some i)
    with cache_rep_index(1) [OF rep Some] map_of_nth [of ?rows i] D(1,2) show ?thesis
      unfolding cache_map_rep [OF rep] by (auto simp: fs)
  qed
  then have "map_of ?rows = cache_map (dimensions seg) (cache seg)" by blast
  ultimately show ?thesis unfolding fs by (auto simp: searchCache_def wrap_err_def D(4,5))
qed

lemma searchDocsByIDs_nearest:
  assumes ok: "exact_ok exact dist (dimensions seg)" "exact_total exact" and d: "0 < dimensions seg" and b: "bluge_ok api view"
    and st: "store_inv view seg L D h l" and ts: "\<forall>w t. \<exists>ds. bl_terms api w t = Inr ds"
    and filt: "\<forall>k\<in>set filt. in64 k" and k: "0 \<le> k" "k < 2 ^ 63"
  shows "\<exists>r. searchDocsByIDs exact api query k filt seg = Some (Inr r)
    \<and> nearest (dist query) (nat k) (D |` {k \<in> set filt. docTS seg k = None}) r"
proof -
  have v: "view (writer seg) = encode L D h l" and D: "docs_ok D"
    and dims: "\<And>k v. D k = Some v \<Longrightarrow> length v = dimensions seg" using st unfolding store_inv_def by blast+
  obtain ds where "bl_terms api (writer seg) (map doc_key filt) = Inr ds" using ts by blast
  from read_docs_by_ids [OF b v D filt this] obtain ks where ks: "distinct ks" "set ks = dom D \<inter> set filt"
    "readHNSWDocRowsByIDs api (writer seg) filt = (map (\<lambda>k. (k, the (D k))) ks, None)" by blast
  define ks' where "ks' = filter (\<lambda>k. docTS seg k = None) ks"
  let ?rows = "map (\<lambda>k. (k, the (D k))) ks'"
  have rows: "filter (\<lambda>row. docTS seg (fst row) = None) (map (\<lambda>k. (k, the (D k))) ks) = ?rows"
    by (simp add: ks'_def filter_map o_def)
  have "distinct (map fst ?rows)" using ks(1) by (simp add: ks'_def o_def)
  moreover have "\<forall>r\<in>set ?rows. length (snd r) = dimensions seg" using dims ks(2) by (auto simp: ks'_def)
  ultimately have "\<exists>r. ExactSearch exact (map fst ?rows) (concat (map snd ?rows)) query (dimensions seg) k = Some (Inr r)
      \<and> nearest (dist query) (nat k) (map_of ?rows) r" by (rule ExactSearch_total [OF ok d _ _ k])
  moreover have "set ks' = dom (D |` {k \<in> set filt. docTS seg k = None})" using ks(2) by (auto simp: ks'_def restrict_map_def split: if_splits)
  then have "map_of ?rows = D |` {k \<in> set filt. docTS seg k = None}"
    by (auto simp: map_of_map_restrict [of "\<lambda>k. the (D k)", simplified o_def] restrict_map_def fun_eq_iff split: if_splits)
  ultimately show ?thesis by (auto simp: searchDocsByIDs_def wrap_err_def ks(3) rows)
qed

end
