(* ===== verification/Hnsw_Machine.thy ===== *)
theory Hnsw_Machine
  imports Hnsw_Search
begin

text \<open>
  The HNSW segment under every interleaving of batches, worker parts, failures and restarts:
  what the searches find is always the map that the successful batches have built.
\<close>

section \<open>Loading keeps the invariant\<close>

lemma loadLogIDs_ok:
  assumes ok: "bluge_ok api view" and v: "view (writer seg) = encode L D h l"
    and ids: "in64 (default0 h)" "in64 (default0 l)" and run: "loadLogIDs api seg = Inr seg'"
  shows "seg' = seg\<lparr>hnswLogID := default0 h, latestLogID := default0 l\<rparr>"
proof -
  obtain a b where a: "readLogID api (writer seg) ''hnsw_log_id'' = Inr a"
    and b: "readLogID api (writer seg) ''latest_log_id'' = Inr b" and seg': "seg' = seg\<lparr>hnswLogID := a, latestLogID := b\<rparr>"
    using run by (auto simp: loadLogIDs_def split: sum.splits)
  have "a = default0 h" unfolding default0_def
    by (rule read_id [OF ok _ _ a]) (use ids v in \<open>simp_all add: default0_def\<close>)
  moreover have "b = default0 l" unfolding default0_def
    by (rule read_id [OF ok _ _ b]) (use ids v in \<open>simp_all add: default0_def\<close>)
  ultimately show ?thesis by (simp add: seg')
qed

definition perm_order :: "('a list \<Rightarrow> 'a list) \<Rightarrow> bool" where
  "perm_order ko \<longleftrightarrow> (\<forall>xs. mset (ko xs) = mset xs)"

lemma load_inv:
  assumes ok: "bluge_ok api view" and inv: "seg_inv view keys seg ph m"
    and ko: "perm_order ko" and run: "load api ko io (fresh seg) = Inr seg'"
  shows "seg_inv view keys seg' Idle m \<and> loaded seg'"
proof -
  obtain L D h l where inv': "store_inv view seg L D h l" "memory_inv keys seg L D" "m = visible L D" "finite (dom m)"
    using inv unfolding seg_inv_def by auto
  note st = inv'(1) [unfolded store_inv_def]
  obtain seg1 seg2 seg3 where s1: "loadLogIDs api (fresh seg) = Inr seg1" and s2: "loadLogs api ko seg1 = Inr seg2"
    and s3: "loadHNSW io seg2 = Inr seg3" and seg': "seg' = seg3\<lparr>loaded := True\<rparr>"
    using run by (auto simp: load_def fresh_def newHNSWSegment_def split: sum.splits)
  have in64: "in64 (default0 h)" "in64 (default0 l)" using st by (auto simp: in64_def)
  have v: "view (writer (fresh seg)) = encode L D h l" using st by (simp add: fresh_def newHNSWSegment_def)
  note e1 = loadLogIDs_ok [OF ok v in64 s1]
  obtain c where c: "seg2 = seg1\<lparr>cache := c, docTS := last_of L\<rparr>" "cache_ok (dimensions seg1) c"
    "\<And>k. cache_map (dimensions seg1) c k = (case last_of L k of None \<Rightarrow> None | Some n \<Rightarrow> snd (the (L n)))"
    by (rule loadLogs_ok [OF ok _ _ _ _ _ ko [unfolded perm_order_def] s2, where L = L and D = D and h = h and l = l])
      (use st in \<open>simp_all add: e1 fresh_def newHNSWSegment_def\<close>)
  have e3: "seg3 = seg2\<lparr>index := hnsw_file seg2\<rparr>"
    using s3 e1 c(1) by (auto simp: loadHNSW_def fresh_def newHNSWSegment_def split: option.splits)
  have e: "seg' = (fresh seg)\<lparr>hnswLogID := default0 h, latestLogID := latestLogID seg, cache := c, docTS := last_of L,
      index := hnsw_file seg, loaded := True\<rparr>"
    using st by (simp add: seg' e3 c(1) e1 fresh_def newHNSWSegment_def)
  have d: "dimensions seg1 = dimensions seg" by (simp add: e1 fresh_def newHNSWSegment_def)
  have "store_inv view seg' L D h l" using st unfolding store_inv_def by (simp add: e fresh_def newHNSWSegment_def)
  moreover have "memory_inv keys seg' L D"
    using inv'(2) c(2,3) unfolding memory_inv_def d by (auto simp: e fresh_def newHNSWSegment_def visible_def split: option.splits)
  moreover have "phase_inv keys seg' L D Idle" by (simp add: e no_lag_def)
  ultimately show ?thesis using inv'(3,4) unfolding seg_inv_def by (auto simp: seg')
qed

lemma empty_store: "Map.empty = encode Map.empty Map.empty None None"
  by (rule encode_eqI) simp_all

lemma new_inv: "view w = Map.empty \<Longrightarrow> seg_inv view keys (newHNSWSegment w d) Idle Map.empty"
proof -
  assume w: "view w = Map.empty"
  have none: "last_of Map.empty k = None" for k by (simp add: last_of_None)
  then have vis: "visible Map.empty Map.empty = Map.empty" by (auto simp: visible_def)
  have "store_inv view (newHNSWSegment w d) Map.empty Map.empty None None"
    using w empty_store by (simp add: store_inv_def newHNSWSegment_def logs_ok_def docs_ok_def default0_def in64_def)
  moreover have "memory_inv keys (newHNSWSegment w d) Map.empty Map.empty"
    using cache_empty_ok none by (simp add: memory_inv_def newHNSWSegment_def has_def)
  moreover have "phase_inv keys (newHNSWSegment w d) Map.empty Map.empty Idle"
    by (simp add: no_lag_def newHNSWSegment_def)
  ultimately show ?thesis unfolding seg_inv_def using vis by (metis dom_empty finite.emptyI)
qed

section \<open>The steps\<close>

text \<open>A state is the segment, where the worker is, and the map of the documents that the batches have
  built so far. A failing worker part ends the run of the worker. A restart (or closing and
  opening the segment again) loads the segment from its store and its index file.\<close>

type_synonym ('w, 'x) hnsw_state = "('w, 'x) hnsw_seg \<times> 'x phase \<times> (int \<rightharpoonup> float32 list)"

inductive hnsw_step :: "'w bluge \<Rightarrow> 'x usearch \<Rightarrow> ('w, 'x) hnsw_state \<Rightarrow> ('w, 'x) hnsw_state \<Rightarrow> bool"
  for api us where
  batch: "Batch api us ko threshold wait addIDs vectors delIDs seg = Some (Inr n, seg') \<Longrightarrow>
    \<forall>k\<in>set (delIDs @ addIDs). in64 k \<Longrightarrow> latestLogID seg + int (length delIDs + length addIDs) < 2 ^ 63 \<Longrightarrow>
    hnsw_step api us (seg, ph, m) (seg', ph, put_all m (batch_entries addIDs vectors delIDs))"
| batch_error: "Batch api us ko threshold wait addIDs vectors delIDs seg = Some (Inl e, seg') \<Longrightarrow>
    hnsw_step api us (seg, ph, m) (seg', ph, m)"
| apply_read: "applyLogs_read api ko seg = Inr (i, ops) \<Longrightarrow> perm_order ko \<Longrightarrow>
    hnsw_step api us (seg, Idle, m) (seg, Applying i ops, m)"
| apply_write: "applyLogs_write api ops seg = Inr seg' \<Longrightarrow>
    hnsw_step api us (seg, Applying i ops, m) (seg', Applied i, m)"
| build: "buildHNSW api us io seg = Inr (x, seg') \<Longrightarrow>
    hnsw_step api us (seg, Applied i, m) (seg', Built i x, m)"
| clean_read: "cleanLogs_read api i seg = Inr (docs, ops) \<Longrightarrow>
    hnsw_step api us (seg, Built i x, m) (seg, Cleaning i docs ops x, m)"
| clean_write: "cleanLogs_write api ops seg = Inr seg' \<Longrightarrow>
    hnsw_step api us (seg, Cleaning i docs ops x, m) (seg', Cleaned i docs x, m)"
| clean_memory: "perm_order ko \<Longrightarrow>
    hnsw_step api us (seg, Cleaned i docs x, m) (cleanLogs_memory i (ko docs) x seg, Idle, m)"
| abort: "(\<forall>i docs x. ph \<noteq> Cleaned i docs x) \<Longrightarrow> hnsw_step api us (seg, ph, m) (seg, Idle, m)"
| restart: "load api ko io (fresh seg) = Inr seg' \<Longrightarrow> perm_order ko \<Longrightarrow>
    hnsw_step api us (seg, ph, m) (seg', Idle, m)"

inductive hnsw_reach :: "'w bluge \<Rightarrow> 'x usearch \<Rightarrow> 'w \<Rightarrow> nat \<Rightarrow> ('w, 'x) hnsw_state \<Rightarrow> bool"
  for api us w d where
  init: "load api ko io (newHNSWSegment w d) = Inr seg \<Longrightarrow> perm_order ko \<Longrightarrow> hnsw_reach api us w d (seg, Idle, Map.empty)"
| step: "hnsw_reach api us w d s \<Longrightarrow> hnsw_step api us s s' \<Longrightarrow> hnsw_reach api us w d s'"

inductive_cases hnsw_idleE: "hnsw_step api us (seg, Idle, m) s"

fun state_inv :: "('w \<Rightarrow> (string \<rightharpoonup> fields)) \<Rightarrow> ('x \<Rightarrow> int set) \<Rightarrow> nat \<Rightarrow> ('w, 'x) hnsw_state \<Rightarrow> bool" where
  "state_inv view keys d (seg, ph, m) \<longleftrightarrow> seg_inv view keys seg ph m \<and> dimensions seg = d"

lemma phase_no_lag: "(\<forall>i docs x. ph \<noteq> Cleaned i docs x) \<Longrightarrow> phase_inv keys seg L D ph \<Longrightarrow> phase_inv keys seg L D Idle"
  by (cases ph) auto

lemma dimensions_keep:
  "Batch api us ko threshold wait addIDs vectors delIDs seg = Some (r, seg') \<Longrightarrow> dimensions seg' = dimensions seg"
  "applyLogs_write api ops seg = Inr seg' \<Longrightarrow> dimensions seg' = dimensions seg"
  "cleanLogs_write api ops seg = Inr seg' \<Longrightarrow> dimensions seg' = dimensions seg"
  "buildHNSW api us io seg = Inr (x, seg') \<Longrightarrow> dimensions seg' = dimensions seg"
  "dimensions (cleanLogs_memory i docs x seg) = dimensions seg"
  by (auto simp: Batch_def applyLogs_write_def cleanLogs_write_def buildHNSW_def cleanLogs_memory_def Let_def
      split: if_splits sum.splits option.splits prod.splits)

lemma load_dimensions: "load api ko io seg = Inr seg' \<Longrightarrow> dimensions seg' = dimensions seg"
  by (auto simp: load_def loadLogIDs_def loadLogs_def loadHNSW_def Let_def split: if_splits sum.splits option.splits prod.splits)

lemma hnsw_step_inv:
  assumes ok: "bluge_ok api view" "usearch_ok us keys"
  shows "hnsw_step api us s s' \<Longrightarrow> state_inv view keys d s \<Longrightarrow> state_inv view keys d s'"
proof (induction rule: hnsw_step.induct)
  case (batch ko threshold wait addIDs vectors delIDs seg n seg' ph m)
  then show ?case using Batch_inv [OF ok(1) _ batch(1,2,3)] dimensions_keep(1) by auto
next
  case (batch_error ko threshold wait addIDs vectors delIDs seg e seg' ph m)
  then show ?case using Batch_error_keeps by fastforce
next
  case (apply_read ko seg i ops m)
  then show ?case using applyLogs_read_inv [OF ok(1)] unfolding perm_order_def by auto
next
  case (apply_write ops seg seg' i m)
  then show ?case using applyLogs_write_inv [OF ok(1)] dimensions_keep(2) by auto
next
  case (build io seg x seg' i m)
  then show ?case using buildHNSW_inv [OF ok] dimensions_keep(4) by auto
next
  case (clean_read i seg docs ops x m)
  then show ?case using cleanLogs_read_inv [OF ok(1)] by auto
next
  case (clean_write ops seg seg' i docs x m)
  then show ?case using cleanLogs_write_inv [OF ok(1)] dimensions_keep(3) by auto
next
  case (clean_memory ko seg i docs x m)
  then have "set (ko docs) = set docs" unfolding perm_order_def by (metis set_mset_mset)
  with clean_memory show ?case using cleanLogs_memory_inv dimensions_keep(5) by auto
next
  case (abort ph seg m)
  then show ?case using phase_no_lag [OF abort(1)] unfolding state_inv.simps seg_inv_def by blast
next
  case (restart ko io seg seg' ph m)
  have "dimensions (fresh seg) = dimensions seg" by (simp add: fresh_def newHNSWSegment_def)
  with restart show ?case using load_inv [OF ok(1) _ restart(2,1)] load_dimensions [OF restart(1)] by auto
qed

lemma fresh_new: "fresh (newHNSWSegment w d) = newHNSWSegment w d"
  by (simp add: fresh_def newHNSWSegment_def)

lemma hnsw_reach_inv:
  assumes ok: "bluge_ok api view" "usearch_ok us keys" and w: "view w = Map.empty"
  shows "hnsw_reach api us w d s \<Longrightarrow> state_inv view keys d s"
proof (induction rule: hnsw_reach.induct)
  case (init ko io seg)
  have "dimensions (newHNSWSegment w d) = d" by (simp add: newHNSWSegment_def)
  with load_inv [OF ok(1) new_inv [of view, OF w, of keys d] init(2), of io seg] load_dimensions [OF init(1)] init(1)
  show ?case by (simp add: fresh_new)
next
  case (step s s')
  then show ?case using hnsw_step_inv [OF ok] by blast
qed

section \<open>What the searches find\<close>

text \<open>The cache holds the documents with a timestamp, the store the others: together the view.\<close>

lemma view_halves:
  assumes mem: "memory_inv keys seg L D"
  defines "c \<equiv> cache_map (dimensions seg) (cache seg)"
  shows "visible L D |` A = (c |` A) ++ (D |` {k \<in> A. docTS seg k = None})"
    and "dom (c |` A) \<inter> dom (D |` {k \<in> A. docTS seg k = None}) = {}"
proof -
  have i: "docTS seg k \<noteq> None \<Longrightarrow> c k = visible L D k" "docTS seg k = None \<Longrightarrow> c k = None \<and> visible L D k = D k" for k
    using mem unfolding memory_inv_def c_def visible_def by auto
  show "visible L D |` A = (c |` A) ++ (D |` {k \<in> A. docTS seg k = None})"
  proof
    fix k
    show "(visible L D |` A) k = ((c |` A) ++ (D |` {k \<in> A. docTS seg k = None})) k"
      using i [of k] by (cases "docTS seg k = None") (auto simp: restrict_map_def map_add_def split: option.splits)
  qed
  show "dom (c |` A) \<inter> dom (D |` {k \<in> A. docTS seg k = None}) = {}"
    using i by (auto simp: restrict_map_def split: if_splits)
qed

lemma merged_nearest:
  assumes r1: "\<exists>r. f1 = Some (Inr r) \<and> nearest dist (nat k) c1 r" and r2: "\<exists>r. f2 = Some (Inr r) \<and> nearest dist (nat k) c2 r"
    and fin: "finite (dom c1)" "finite (dom c2)" and disj: "dom c1 \<inter> dom c2 = {}"
    and nan: "\<forall>k v. c1 k = Some v \<or> c2 k = Some v \<longrightarrow> \<not> float32_nan (dist v)"
  shows "\<exists>r. merged k f1 msg1 f2 msg2 = Some (Inr r) \<and> nearest dist (nat k) (c1 ++ c2) r"
proof -
  obtain a b where "f1 = Some (Inr a)" "nearest dist (nat k) c1 a" "f2 = Some (Inr b)" "nearest dist (nat k) c2 b"
    using r1 r2 by blast
  with nearest_merge [OF _ _ fin disj nan] show ?thesis by (simp add: merged_def wrap_err_def)
qed

lemma finite_view_part:
  assumes "finite (dom (visible L D))" and mem: "memory_inv keys seg L D"
  shows "finite (dom (D |` {k \<in> A. docTS seg k = None}))"
proof (rule finite_subset [OF _ assms(1)])
  show "dom (D |` {k \<in> A. docTS seg k = None}) \<subseteq> dom (visible L D)"
    using mem unfolding memory_inv_def visible_def by (auto simp: restrict_map_def split: if_splits)
qed

lemma SearchByIDs_inv:
  assumes ok: "bluge_ok api view" "exact_ok exact dist (dimensions seg)" "exact_total exact"
    and ts: "\<forall>w t. \<exists>ds. bl_terms api w t = Inr ds"
    and nan: "\<forall>v. length v = dimensions seg \<longrightarrow> \<not> float32_nan (dist query v)"
    and inv: "seg_inv view keys seg ph m" and d: "0 < dimensions seg" and q: "length query = dimensions seg"
    and filt: "distinct filt" "\<forall>k\<in>set filt. in64 k" and k: "k < 2 ^ 63"
  shows "\<exists>r. SearchByIDs exact api query k filt seg = Some (Inr r) \<and> nearest (dist query) (nat k) (m |` set filt) r"
proof -
  obtain L D h l where inv': "store_inv view seg L D h l" "memory_inv keys seg L D" "m = visible L D" "finite (dom m)"
    using inv unfolding seg_inv_def by auto
  let ?k = "max k 0" and ?d = "dimensions seg"
  have k0: "0 \<le> ?k" "?k < 2 ^ 63" using k by auto
  have c: "cache_ok ?d (cache seg)" using inv'(2) unfolding memory_inv_def by blast
  note h = view_halves [OF inv'(2), of "set filt"]
  have "\<not> float32_nan (dist query v)"
    if "(cache_map ?d (cache seg) |` set filt) k = Some v \<or> (D |` {k \<in> set filt. docTS seg k = None}) k = Some v" for k v
    using that nan cache_vec_length [OF c] inv'(1) unfolding store_inv_def by (auto simp: restrict_map_def split: if_splits)
  then have nan': "\<forall>k v. (cache_map ?d (cache seg) |` set filt) k = Some v \<or> (D |` {k \<in> set filt. docTS seg k = None}) k = Some v
      \<longrightarrow> \<not> float32_nan (dist query v)" by blast
  have fin: "finite (dom (cache_map ?d (cache seg) |` set filt))" by (simp add: finite_cache_map [OF c])
  note m = merged_nearest [OF searchCacheByIDs_nearest [OF ok(2,3) d c filt(1) k0]
    searchDocsByIDs_nearest [OF ok(2,3) d ok(1) inv'(1) ts filt(2) k0] fin
    finite_view_part [OF inv'(4) [unfolded inv'(3)] inv'(2)] h(2) nan']
  have "nat ?k = nat k" by simp
  with m show ?thesis unfolding SearchByIDs_def inv'(3) h(1) Let_def using q by simp
qed

text \<open>The index may miss near neighbours, but not too many documents: asked for \<open>n\<close> keys it returns \<open>n\<close>, or
  all it has.\<close>

definition search_ok :: "'x usearch \<Rightarrow> ('x \<Rightarrow> int set) \<Rightarrow> bool" where
  "search_ok us keys \<longleftrightarrow> (\<forall>x q n. finite (keys x) \<longrightarrow> (\<exists>ks. us_search us x q n = Inr ks
     \<and> distinct ks \<and> set ks \<subseteq> keys x \<and> length ks = min n (card (keys x))))"

definition hits_of :: "(float32 list \<Rightarrow> float32) \<Rightarrow> nat \<Rightarrow> (int \<rightharpoonup> float32 list) \<Rightarrow> hits \<Rightarrow> bool" where
  "hits_of dist n m r \<longleftrightarrow> distinct (map fst r) \<and> length r = min n (card (dom m))
     \<and> (\<forall>h\<in>set r. \<exists>v. m (fst h) = Some v \<and> snd h = dist v) \<and> sorted (map (float32_rank \<circ> snd) r)"

lemma nearest_hits:
  assumes "nearest dist n c r" and "c \<subseteq>\<^sub>m m" and "finite (dom m)" and "c = m \<or> n \<le> card (dom c)"
  shows "hits_of dist n m r"
proof -
  have "card (dom c) \<le> card (dom m)" using assms(2,3) by (intro card_mono map_le_implies_dom_le)
  with assms(4) have "min n (card (dom c)) = min n (card (dom m))" by auto
  moreover have "m k = Some v" if "c k = Some v" for k v using assms(2) that by (auto simp: map_le_def dom_def)
  ultimately show ?thesis using assms(1) unfolding nearest_def hits_of_def by metis
qed

lemma enough_keys:
  assumes ks: "distinct ks" "set ks \<subseteq> K" "length ks = min (n + card T) (card K)" and fin: "finite K" "finite T"
  shows "set (filter (\<lambda>k. k \<notin> T) ks) = K - T \<or> n \<le> card (set (filter (\<lambda>k. k \<notin> T) ks))"
proof (cases "n + card T \<le> card K")
  case True
  then have "card (set ks) = n + card T" using ks(1,3) by (simp add: distinct_card)
  moreover have "card (set ks) - card T \<le> card (set ks - T)" using fin(2) by (simp add: diff_card_le_card_Diff)
  moreover have "set (filter (\<lambda>k. k \<notin> T) ks) = set ks - T" by auto
  ultimately show ?thesis by simp
next
  case False
  then have "card (set ks) = card K" using ks(1,3) by (simp add: distinct_card)
  with ks(2) fin(1) have "set ks = K" by (simp add: card_subset_eq)
  then show ?thesis by auto
qed

lemma searchHNSW_nearest:
  assumes ok: "bluge_ok api view" "exact_ok exact dist (dimensions seg)" "exact_total exact" "search_ok us keys"
    and ts: "\<forall>w t. \<exists>ds. bl_terms api w t = Inr ds"
    and st: "store_inv view seg L D h l" and mem: "memory_inv keys seg L D" and d: "0 < dimensions seg"
    and k: "0 \<le> k" "k < 2 ^ 63" and fin: "finite (dom (docTS seg))" "\<And>x. index seg = Some x \<Longrightarrow> finite (keys x)"
  shows "\<exists>r A. searchHNSW exact api us query k seg = Some (Inr r)
    \<and> nearest (dist query) (nat k) (D |` {k \<in> A. docTS seg k = None}) r
    \<and> ({k \<in> A. docTS seg k = None} = {k. docTS seg k = None \<and> D k \<noteq> None}
       \<or> nat k \<le> card (dom (D |` {k \<in> A. docTS seg k = None})))"
proof (cases "index seg")
  case None
  then have "{k. docTS seg k = None \<and> D k \<noteq> None} = {}" using mem unfolding memory_inv_def has_def by auto
  moreover have "nearest (dist query) (nat k) (D |` {k \<in> {}. docTS seg k = None}) []" by (simp add: nearest_def)
  ultimately show ?thesis using None unfolding searchHNSW_def by (intro exI [of _ "[]"] exI [of _ "{}"]) simp
next
  case (Some x)
  let ?T = "dom (docTS seg)"
  obtain ks where ks: "us_search us x query (nat (k + int (card ?T))) = Inr ks" "distinct ks" "set ks \<subseteq> keys x"
    "length ks = min (nat (k + int (card ?T))) (card (keys x))" using ok(4) fin(2) [OF Some] unfolding search_ok_def by blast
  let ?ks = "filter (\<lambda>key. docTS seg key = None) ks"
  have key: "key \<in> keys x \<longleftrightarrow> D key \<noteq> None" if "docTS seg key = None" for key
    using mem that Some unfolding memory_inv_def has_def by auto
  have D: "docs_ok D" using st unfolding store_inv_def by blast
  have in64: "\<forall>k\<in>set ?ks. in64 k"
  proof
    fix k assume "k \<in> set ?ks"
    with ks(3) have "D k \<noteq> None" using key [of k] by auto
    with D show "in64 k" unfolding docs_ok_def by blast
  qed
  obtain r where r: "searchDocsByIDs exact api query k ?ks seg = Some (Inr r)"
    "nearest (dist query) (nat k) (D |` {k \<in> set ?ks. docTS seg k = None}) r"
    using searchDocsByIDs_nearest [OF ok(2,3) d ok(1) st ts in64 k, of query] by blast
  have "length r \<le> nat k" using r(2) unfolding nearest_def by simp
  then have "searchHNSW exact api us query k seg = Some (Inr r)"
    using Some ks(1) r(1) by (simp add: searchHNSW_def wrap_err_def)
  moreover have "set ?ks = keys x - ?T \<or> nat k \<le> card (set ?ks)"
    using enough_keys [OF ks(2,3) _ fin(2) [OF Some] fin(1), of "nat k"] ks(4) k(1) by (simp add: domIff nat_add_distrib)
  moreover have "keys x - ?T = {k. docTS seg k = None \<and> D k \<noteq> None}" using key by (auto simp: domIff)
  moreover have eq: "{k \<in> set ?ks. docTS seg k = None} = set ?ks" by auto
  moreover have "dom (D |` set ?ks) = set ?ks" using key ks(3) by (auto simp: restrict_map_def split: if_splits)
  ultimately show ?thesis using r(2) by (intro exI [of _ r] exI [of _ "set ?ks"]) (metis (no_types, lifting))
qed

lemma finite_docTS:
  assumes L: "logs_ok L" and ph: "phase_inv keys seg L D ph"
  shows "finite (dom (docTS seg))"
proof -
  have "{k. last_of L k \<noteq> None} \<subseteq> fst ` ran L"
  proof
    fix k assume "k \<in> {k. last_of L k \<noteq> None}"
    then have "\<not> (\<forall>n ov. L n \<noteq> Some (k, ov))" by (simp only: mem_Collect_eq last_of_None simp_thms)
    then show "k \<in> fst ` ran L" by (force simp: ran_def)
  qed
  moreover have "finite (ran L)" using L unfolding logs_ok_def by (simp add: finite_ran)
  ultimately have fin: "finite {k. last_of L k \<noteq> None}" by (rule finite_subset [OF _ finite_imageI])
  show ?thesis
  proof (cases "\<exists>i docs x. ph = Cleaned i docs x")
    case True
    then obtain i docs x where "ph = Cleaned i docs x" by blast
    with ph have "dom (docTS seg) \<subseteq> {k. last_of L k \<noteq> None} \<union> set docs" by auto
    moreover have "finite ({k. last_of L k \<noteq> None} \<union> set docs)" by (rule finite_UnI [OF fin finite_set])
    ultimately show ?thesis by (rule finite_subset)
  next
    case False
    with ph have "no_lag seg L" by (cases ph) auto
    then have "dom (docTS seg) \<subseteq> {k. last_of L k \<noteq> None}" unfolding no_lag_def by auto
    then show ?thesis by (rule finite_subset) (rule fin)
  qed
qed

lemma Search_inv:
  assumes ok: "bluge_ok api view" "exact_ok exact dist (dimensions seg)" "exact_total exact" "search_ok us keys"
    and ts: "\<forall>w t. \<exists>ds. bl_terms api w t = Inr ds"
    and nan: "\<forall>v. length v = dimensions seg \<longrightarrow> \<not> float32_nan (dist query v)"
    and inv: "seg_inv view keys seg ph m" and d: "0 < dimensions seg" and q: "length query = dimensions seg" and k: "k < 2 ^ 63"
  shows "\<exists>r. Search exact api us query k seg = Some (Inr r) \<and> hits_of (dist query) (nat k) m r"
proof -
  obtain L D h l where inv': "store_inv view seg L D h l" "memory_inv keys seg L D" "phase_inv keys seg L D ph"
    "m = visible L D" "finite (dom m)" using inv unfolding seg_inv_def by auto
  let ?k = "max k 0" and ?d = "dimensions seg"
  have k0: "0 \<le> ?k" "?k < 2 ^ 63" and nk: "nat ?k = nat k" using k by auto
  have c: "cache_ok ?d (cache seg)" using inv'(2) unfolding memory_inv_def by blast
  have L: "logs_ok L" using inv'(1) unfolding store_inv_def by blast
  note finT = finite_docTS [OF L inv'(3)]
  have finK: "finite (keys x)" if "index seg = Some x" for x
  proof -
    have "keys x \<subseteq> dom (docTS seg) \<union> dom m"
      using inv'(2) that unfolding memory_inv_def has_def inv'(4) visible_def by (fastforce simp: dom_def)
    then show ?thesis by (rule finite_subset) (simp add: finT inv'(5))
  qed
  obtain r2 A where r2: "searchHNSW exact api us query ?k seg = Some (Inr r2)"
    "nearest (dist query) (nat ?k) (D |` {k \<in> A. docTS seg k = None}) r2"
    "{k \<in> A. docTS seg k = None} = {k. docTS seg k = None \<and> D k \<noteq> None}
       \<or> nat ?k \<le> card (dom (D |` {k \<in> A. docTS seg k = None}))"
    using searchHNSW_nearest [OF ok ts inv'(1,2) d k0 finT finK, of query] by blast
  let ?c1 = "cache_map ?d (cache seg)" and ?c2 = "D |` {k \<in> A. docTS seg k = None}"
  have nan': "\<forall>k v. ?c1 k = Some v \<or> ?c2 k = Some v \<longrightarrow> \<not> float32_nan (dist query v)"
    using nan cache_vec_length [OF c] inv'(1) unfolding store_inv_def by (auto simp: restrict_map_def split: if_splits)
  note fin2 = finite_view_part [OF inv'(5) [unfolded inv'(4)] inv'(2), of A]
  have i: "docTS seg k \<noteq> None \<Longrightarrow> ?c1 k = m k" "docTS seg k = None \<Longrightarrow> ?c1 k = None \<and> m k = D k" for k
    using inv'(2) unfolding memory_inv_def inv'(4) visible_def by auto
  have disj: "dom ?c1 \<inter> dom ?c2 = {}" using i by (auto simp: restrict_map_def split: if_splits)
  obtain r where r: "Search exact api us query k seg = Some (Inr r)" "nearest (dist query) (nat k) (?c1 ++ ?c2) r"
    using merged_nearest [OF searchCache_nearest [OF ok(2,3) d c k0, of query] _ finite_cache_map [OF c] fin2 disj nan',
        of "searchHNSW exact api us query ?k seg"] r2(1,2) q nk unfolding Search_def Let_def by auto
  have at: "(?c1 ++ ?c2) k = (if docTS seg k = None \<and> k \<notin> A then None else m k)" for k
    using i [of k] by (auto simp: map_add_def restrict_map_def split: option.splits)
  have "hits_of (dist query) (nat k) m r"
  proof (rule nearest_hits [OF r(2) _ inv'(5)])
    show "?c1 ++ ?c2 \<subseteq>\<^sub>m m" unfolding map_le_def at by (auto simp: at split: if_splits)
    show "?c1 ++ ?c2 = m \<or> nat k \<le> card (dom (?c1 ++ ?c2))"
      using r2(3)
    proof
      assume "{k \<in> A. docTS seg k = None} = {k. docTS seg k = None \<and> D k \<noteq> None}"
      then have "D k = None" if "docTS seg k = None" "k \<notin> A" for k using that by blast
      then have "(?c1 ++ ?c2) k = m k" for k unfolding at using i(2) [of k] by auto
      then show ?thesis by blast
    next
      assume "nat ?k \<le> card (dom ?c2)"
      also have "\<dots> \<le> card (dom (?c1 ++ ?c2))" using fin2 finite_cache_map [OF c] by (intro card_mono) auto
      finally show ?thesis using nk by simp
    qed
  qed
  with r(1) show ?thesis by blast
qed

section \<open>A concrete store and index\<close>

text \<open>A store that is a list of documents and an index that is a list of keys, with a distance that
  tells equal first numbers from different ones.\<close>

definition list_bluge :: "(string \<times> fields) list bluge" where
  "list_bluge = \<lparr>
     bl_batch = (\<lambda>w ops. Inr (foldl (\<lambda>w op. case op of
         WUpdate i f \<Rightarrow> (i, f) # filter (\<lambda>d. fst d \<noteq> i) w
       | WDelete i \<Rightarrow> filter (\<lambda>d. fst d \<noteq> i) w) w ops)),
     bl_prefix = (\<lambda>w p. Inr (map (stored (map_of w)) (filter (\<lambda>i. take (length p) i = p) (remdups (map fst w))))),
     bl_terms = (\<lambda>w ts. Inr (map (stored (map_of w)) (filter (\<lambda>i. i \<in> set ts) (remdups (map fst w)))))\<rparr>"

definition list_usearch :: "int list usearch" where
  "list_usearch = \<lparr>us_new = Inr [], us_reserve = (\<lambda>x n. Inr x), us_add = (\<lambda>x k v. Inr (k # x)),
     us_contains = (\<lambda>x k. Inr (k \<in> set x)), us_search = (\<lambda>x q n. Inr (take n (remdups x)))\<rparr>"

definition flag_dist :: "float32 list \<Rightarrow> float32 list \<Rightarrow> float32" where
  "flag_dist q v = (if hd q = hd v then 0 else 1)"

definition sort_exact :: "exact_fun" where
  "sort_exact vs q n limit =
     (let keys = take limit (sort_key (\<lambda>i. float32_rank (flag_dist q (drop i vs))) [0..<n])
      in Inr (keys, map (\<lambda>i. flag_dist q (drop i vs)) keys))"

lemma map_of_filter_neq: "map_of (filter (\<lambda>d. fst d \<noteq> i) w) = (map_of w)(i := None)"
  by (induction w) (auto simp: fun_eq_iff)

lemma list_bluge_ok: "bluge_ok list_bluge map_of"
  unfolding bluge_ok_def
proof (intro conjI allI impI)
  fix w ops w' assume "bl_batch list_bluge w ops = Inr w'"
  then have w': "w' = foldl (\<lambda>w op. case op of
         WUpdate i f \<Rightarrow> (i, f) # filter (\<lambda>d. fst d \<noteq> i) w
       | WDelete i \<Rightarrow> filter (\<lambda>d. fst d \<noteq> i) w) w ops" by (simp add: list_bluge_def)
  show "map_of w' = foldl apply_wop (map_of w) ops"
    unfolding w'
  proof (induction ops arbitrary: w)
    case (Cons a ops)
    show ?case by (cases a) (simp_all add: Cons.IH map_of_filter_neq del: fun_upd_apply)
  qed simp
next
  fix w p ds assume "bl_prefix list_bluge w p = Inr ds"
  then show "\<exists>is. distinct is \<and> set is = {i \<in> dom (map_of w). take (length p) i = p} \<and> ds = map (stored (map_of w)) is"
    by (intro exI [of _ "filter (\<lambda>i. take (length p) i = p) (remdups (map fst w))"])
      (auto simp: list_bluge_def dom_map_of_conv_image_fst)
next
  fix w ts ds assume "bl_terms list_bluge w ts = Inr ds"
  then show "\<exists>is. distinct is \<and> set is = dom (map_of w) \<inter> set ts \<and> ds = map (stored (map_of w)) is"
    by (intro exI [of _ "filter (\<lambda>i. i \<in> set ts) (remdups (map fst w))"])
      (auto simp: list_bluge_def dom_map_of_conv_image_fst)
qed

lemma list_usearch_ok: "usearch_ok list_usearch set" "search_ok list_usearch set"
proof -
  show "usearch_ok list_usearch set" by (auto simp: usearch_ok_def list_usearch_def)
  show "search_ok list_usearch set"
    unfolding search_ok_def
    by (auto simp: list_usearch_def min_def length_remdups_card_conv dest: in_set_takeD)
qed

lemma flag_dist_ok: "\<not> float32_nan (flag_dist q v)"
  by (simp add: flag_dist_def float32_nan_def)

lemma concat_one: "\<forall>v\<in>set vs. length v = 1 \<Longrightarrow> i < length vs \<Longrightarrow> hd (drop i (concat vs)) = hd (vs ! i)"
proof (induction vs arbitrary: i)
  case (Cons v vs)
  obtain x where "v = [x]" using Cons.prems(1) by (auto simp: length_Suc_conv)
  with Cons show ?case by (cases i) auto
qed simp

lemma sort_exact_ok: "exact_ok sort_exact flag_dist 1" "exact_total sort_exact"
proof -
  show "exact_total sort_exact" by (simp add: exact_total_def sort_exact_def Let_def)
  show "exact_ok sort_exact flag_dist 1"
    unfolding exact_ok_def
  proof (intro allI impI, elim conjE)
    fix vs q limit keys ds
    assume dims: "\<forall>v\<in>set vs. length v = 1" and limit: "limit \<le> length vs"
      and run: "sort_exact (concat vs) q (length vs) limit = Inr (keys, ds)"
    let ?f = "\<lambda>i. float32_rank (flag_dist q (drop i (concat vs)))"
    let ?s = "sort_key ?f [0..<length vs]"
    have keys: "keys = take limit ?s" and ds: "ds = map (\<lambda>i. flag_dist q (drop i (concat vs))) keys"
      using run by (auto simp: sort_exact_def Let_def)
    have at: "flag_dist q (drop i (concat vs)) = flag_dist q (vs ! i)" if "i < length vs" for i
      using concat_one [OF dims that] by (simp add: flag_dist_def)
    have bound: "\<forall>i\<in>set keys. i < length vs" unfolding keys by (auto dest: in_set_takeD)
    have srt: "sorted (map ?f ?s)" by (rule sorted_sort_key)
    have "ds = map (\<lambda>i. flag_dist q (vs ! i)) keys" unfolding ds using bound at by auto
    moreover have "sorted (map float32_rank ds)" unfolding ds keys using srt by (simp add: o_def take_map [symmetric] sorted_wrt_take)
    moreover have "float32_rank x \<le> float32_rank (flag_dist q (vs ! i))" if i: "i < length vs" "i \<notin> set keys" and x: "x \<in> set ds" for i x
    proof -
      obtain j where j: "j \<in> set (take limit ?s)" "x = flag_dist q (drop j (concat vs))" using x unfolding ds keys by auto
      have "i \<in> set ?s" using i(1) by simp
      then have "i \<in> set (drop limit ?s)" using i(2) unfolding keys by (metis Un_iff append_take_drop_id set_append)
      from sorted_take_drop [OF srt j(1) this] show ?thesis unfolding j(2) using at [OF i(1)] by simp
    qed
    ultimately show "distinct keys \<and> length keys = limit \<and> (\<forall>i\<in>set keys. i < length vs)
       \<and> ds = map (\<lambda>i. flag_dist q (vs ! i)) keys \<and> sorted (map float32_rank ds)
       \<and> (\<forall>i<length vs. i \<notin> set keys \<longrightarrow> (\<forall>x\<in>set ds. float32_rank x \<le> float32_rank (flag_dist q (vs ! i))))"
      using bound limit by (simp add: keys distinct_take)
  qed
qed

lemma list_load: "load list_bluge (\<lambda>xs. xs) None (newHNSWSegment [] d) = Inr ((newHNSWSegment [] d)\<lparr>loaded := True\<rparr>)"
  by (simp add: load_def loadLogIDs_def loadLogs_def loadHNSW_def readLogID_def readHNSWLogRows_def list_bluge_def newHNSWSegment_def)

lemma list_reach: "\<exists>seg. hnsw_reach list_bluge list_usearch [] 1 (seg, Idle, [7 \<mapsto> [5]])"
proof -
  let ?s0 = "(newHNSWSegment [] 1)\<lparr>loaded := True\<rparr> :: ((string \<times> fields) list, int list) hnsw_seg"
  have r0: "hnsw_reach list_bluge list_usearch [] 1 (?s0, Idle, Map.empty)"
    by (rule hnsw_reach.init [OF list_load]) (simp add: perm_order_def)
  have "\<exists>n seg. Batch list_bluge list_usearch (\<lambda>xs. xs) 100 None [7] [[5]] [9] ?s0 = Some (Inr n, seg)"
    by (simp add: Batch_def newHNSWSegment_def list_bluge_def Let_def)
  then obtain n seg where b: "Batch list_bluge list_usearch (\<lambda>xs. xs) 100 None [7] [[5]] [9] ?s0 = Some (Inr n, seg)" by blast
  have "hnsw_step list_bluge list_usearch (?s0, Idle, Map.empty) (seg, Idle, put_all Map.empty (batch_entries [7] [[5]] [9]))"
    by (rule hnsw_step.batch [OF b]) (simp_all add: in64_def newHNSWSegment_def)
  moreover have "put_all Map.empty (batch_entries [7] [[5]] [9]) = [7 \<mapsto> [5]]"
    by (simp add: put_all_def batch_entries_def)
  ultimately show ?thesis using hnsw_reach.step [OF r0] by metis
qed

section \<open>Properties\<close>






lemma list_batch:
  "\<exists>seg seg' n. hnsw_reach list_bluge list_usearch [] 1 (seg, Idle, [7 \<mapsto> [5]])
     \<and> Batch list_bluge list_usearch rev 100 None [8, 7] [[1], [2]] [9] seg = Some (Inr n, seg')"
proof -
  obtain seg where reach: "hnsw_reach list_bluge list_usearch [] 1 (seg, Idle, [7 \<mapsto> [5]])" using list_reach by blast
  have "dimensions seg = 1"
    using hnsw_reach_inv [of list_bluge map_of list_usearch set "[]" 1, OF list_bluge_ok list_usearch_ok(1) _ reach] by simp
  then have "\<exists>n seg'. Batch list_bluge list_usearch rev 100 None [8, 7] [[1], [2]] [9] seg = Some (Inr n, seg')"
    by (simp add: Batch_def list_bluge_def Let_def)
  with reach show ?thesis by blast
qed


text \<open>The last parts of a run, from where the index is built.\<close>

lemma abort_run:
  "(hnsw_step api us)\<^sup>*\<^sup>* s (seg, ph, m) \<Longrightarrow> \<forall>i docs x. ph \<noteq> Cleaned i docs x \<Longrightarrow> (hnsw_step api us)\<^sup>*\<^sup>* s (seg, Idle, m)"
  by (meson hnsw_step.abort rtranclp.rtrancl_into_rtrancl)

lemma clean_run:
  assumes ko: "perm_order ko" and R: "(hnsw_step api us)\<^sup>*\<^sup>* s (seg, Built i x, m)"
    and run: "(r, seg') = (case cleanLogs_read api i seg of
              Inl e \<Rightarrow> (Some (wrap ''failed to clean logs'' e), seg)
            | Inr (docs, ops) \<Rightarrow> (case cleanLogs_write api ops seg of
                Inl e \<Rightarrow> (Some (wrap ''failed to clean logs'' e), seg)
              | Inr seg3 \<Rightarrow> (None, cleanLogs_memory i (ko docs) x seg3)))"
  shows "(hnsw_step api us)\<^sup>*\<^sup>* s (seg', Idle, m)
    \<and> (r = None \<longrightarrow> hnswLogID seg' = i \<and> latestLogID seg' = latestLogID seg)"
proof (cases "cleanLogs_read api i seg")
  case (Inl e)
  with run abort_run [OF R] show ?thesis by simp
next
  case c: (Inr z)
  obtain docs ops where z: "z = (docs, ops)" by (cases z)
  have R1: "(hnsw_step api us)\<^sup>*\<^sup>* s (seg, Cleaning i docs ops x, m)"
    using rtranclp.rtrancl_into_rtrancl [OF R hnsw_step.clean_read] c z by blast
  show ?thesis
  proof (cases "cleanLogs_write api ops seg")
    case (Inl e)
    with run c z abort_run [OF R1] show ?thesis by simp
  next
    case w: (Inr seg3)
    note R2 = rtranclp.rtrancl_into_rtrancl [OF R1 hnsw_step.clean_write [OF w]]
    note R3 = rtranclp.rtrancl_into_rtrancl [OF R2 hnsw_step.clean_memory [OF ko]]
    have "latestLogID seg3 = latestLogID seg" using w by (auto simp: cleanLogs_write_def split: sum.splits)
    moreover have "hnswLogID (cleanLogs_memory i (ko docs) x seg3) = i"
      "latestLogID (cleanLogs_memory i (ko docs) x seg3) = latestLogID seg3"
      by (simp_all add: cleanLogs_memory_def split: prod.splits)
    ultimately show ?thesis using run c z w R3 by simp
  qed
qed



end
