(* ===== verification/Shards.thy ===== *)
theory Shards
  imports Go_Runtime
begin

text \<open>
  The two layers of shards of an index, \<^verbatim>\<open>pkg/core/index_shards.go\<close>: a first-layer shard is a
  growing list of second-layer shards, each a Bluge index with its writer, its reference count
  and, once it is frozen, the time range of its documents. The contents of a Bluge index are of a
  type parameter \<open>'c\<close>.
\<close>

section \<open>Model\<close>

record 'c second_shard =
  ss_id :: int
  ss_min :: int
  ss_max :: int
  ss_docnum :: nat
  ss_size :: nat
  ss_open :: bool
  ss_ref :: int
  ss_docs :: 'c

text \<open>\<open>sh_num\<close> is the atomic counter \<^verbatim>\<open>ref.ShardNum\<close>; \<open>sh_min\<close> and \<open>sh_max\<close> are the time range of the documents
  written since the latest second-layer shard was created.\<close>

record 'c shard =
  sh_id :: string
  sh_num :: int
  sh_min :: int
  sh_max :: int
  sh_docnum :: nat
  sh_size :: nat
  sh_shards :: "'c second_shard list"

definition ShardIDNeedLatest :: int where
  "ShardIDNeedLatest = -1"

definition GetLatestShardID :: "'c shard \<Rightarrow> int" where
  "GetLatestShardID s = sh_num s - 1"

text \<open>\<^verbatim>\<open>s.shards[i]\<close>: a panic (\<open>None\<close>) out of range.\<close>

definition second :: "'c shard \<Rightarrow> int \<Rightarrow> 'c second_shard option" where
  "second s i = (if i < 0 then None else slice_get (sh_shards s) (nat i))"

definition upd_second :: "'c shard \<Rightarrow> int \<Rightarrow> ('c second_shard \<Rightarrow> 'c second_shard) \<Rightarrow> 'c shard" where
  "upd_second s i f = s\<lparr>sh_shards := (sh_shards s)[nat i := f (sh_shards s ! nat i)]\<rparr>"

text \<open>The number of documents and the size of a second-layer shard are taken from its writer, when it has
  one: \<open>st\<close> gives them for the content of a Bluge index.\<close>

definition UpdateStatsBySecondShard :: "('c \<Rightarrow> nat \<times> nat) \<Rightarrow> int \<Rightarrow> 'c shard \<Rightarrow> 'c shard option" where
  "UpdateStatsBySecondShard st i s =
     (case second s i of
        None \<Rightarrow> None
      | Some ss \<Rightarrow>
          if \<not> ss_open ss then Some s
          else Some (upd_second s i (\<lambda>ss. ss\<lparr>ss_docnum := fst (st (ss_docs ss)), ss_size := snd (st (ss_docs ss))\<rparr>)))"

fun update_stats :: "('c \<Rightarrow> nat \<times> nat) \<Rightarrow> int list \<Rightarrow> nat \<times> nat \<Rightarrow> 'c shard \<Rightarrow> ((nat \<times> nat) \<times> 'c shard) option" where
  "update_stats st [] totals s = Some (totals, s)"
| "update_stats st (i # is) (totalDocNum, totalSize) s =
     (case UpdateStatsBySecondShard st i s of
        None \<Rightarrow> None
      | Some s1 \<Rightarrow> (case second s1 i of
            None \<Rightarrow> None
          | Some ss \<Rightarrow> update_stats st is (totalDocNum + ss_docnum ss, totalSize + ss_size ss) s1))"

definition UpdateMetadataByShard :: "('c \<Rightarrow> nat \<times> nat) \<Rightarrow> 'c shard \<Rightarrow> 'c shard option" where
  "UpdateMetadataByShard st s =
     (case update_stats st (map int [0..<nat (sh_num s)]) (0, 0) s of
        None \<Rightarrow> None
      | Some ((totalDocNum, totalSize), s1) \<Rightarrow>
          let s2 = s1\<lparr>sh_docnum := totalDocNum, sh_size := totalSize\<rparr> in
          case second s2 (GetLatestShardID s2) of
            None \<Rightarrow> None
          | Some _ \<Rightarrow> Some (upd_second s2 (GetLatestShardID s2) (\<lambda>ss. ss\<lparr>ss_min := sh_min s2, ss_max := sh_max s2\<rparr>)))"

text \<open>\<open>fresh\<close> is the content of a Bluge index that has not been written yet, and \<open>io\<close> the error of
  storing the metadata, after the shard has been added.\<close>

definition NewShard :: "('c \<Rightarrow> nat \<times> nat) \<Rightarrow> 'c \<Rightarrow> error option \<Rightarrow> 'c shard \<Rightarrow> (error option \<times> 'c shard) option" where
  "NewShard st fresh io s =
     (case UpdateStatsBySecondShard st (GetLatestShardID s) s of
        None \<Rightarrow> None
      | Some s0 \<Rightarrow>
          let s1 = upd_second s0 (GetLatestShardID s0) (\<lambda>ss. ss\<lparr>ss_min := sh_min s0, ss_max := sh_max s0\<rparr>);
              s2 = s1\<lparr>sh_min := 0, sh_max := 0, sh_num := sh_num s0 + 1,
                 sh_shards := sh_shards s1 @ [\<lparr>ss_id = sh_num s0, ss_min = 0, ss_max = 0, ss_docnum = 0, ss_size = 0,
                   ss_open = False, ss_ref = 0, ss_docs = fresh\<rparr>]\<rparr>
          in Some (io, s2))"

text \<open>The error of opening the writer of a second-layer shard is \<open>op\<close>.\<close>

definition openWriter :: "(int \<Rightarrow> error option) \<Rightarrow> int \<Rightarrow> 'c shard \<Rightarrow> (error option \<times> 'c shard) option" where
  "openWriter op i s =
     (case second s i of
        None \<Rightarrow> None
      | Some ss \<Rightarrow>
          if ss_open ss then Some (None, s)
          else case op i of
              Some e \<Rightarrow> Some (Some e, s)
            | None \<Rightarrow> Some (None, upd_second s i (\<lambda>ss. ss\<lparr>ss_open := True\<rparr>)))"

text \<open>\<open>owal\<close> is \<^verbatim>\<open>OpenWAL\<close>, which is called when a writer had to be opened and the WAL is enabled.\<close>

definition GetWriter :: "(int \<Rightarrow> error option) \<Rightarrow> ('c shard \<Rightarrow> (error option \<times> 'c shard) option) \<Rightarrow> int \<Rightarrow> 'c shard
    \<Rightarrow> (error option \<times> 'c shard) option" where
  "GetWriter op owal i s =
     (if sh_num s \<le> i \<or> i < 0 then Some (Some ''second shard not found'', s)
      else case second s i of
        None \<Rightarrow> None
      | Some ss \<Rightarrow>
          if ss_open ss then Some (None, upd_second s i (\<lambda>ss. ss\<lparr>ss_ref := ss_ref ss + 1\<rparr>))
          else case openWriter op i s of
              None \<Rightarrow> None
            | Some (Some e, s1) \<Rightarrow> Some (Some e, s1)
            | Some (None, s1) \<Rightarrow> (case owal s1 of
                  None \<Rightarrow> None
                | Some (Some e, s2) \<Rightarrow> Some (Some e, s2)
                | Some (None, s2) \<Rightarrow> Some (None, upd_second s2 i (\<lambda>ss. ss\<lparr>ss_ref := ss_ref ss + 1\<rparr>))))"

fun get_writers :: "(int \<Rightarrow> error option) \<Rightarrow> ('c shard \<Rightarrow> (error option \<times> 'c shard) option) \<Rightarrow> int list \<Rightarrow> 'c shard
    \<Rightarrow> (error option \<times> 'c shard) option" where
  "get_writers op owal [] s = Some (None, s)"
| "get_writers op owal (i # is) s = (case GetWriter op owal i s of
     None \<Rightarrow> None
   | Some (Some e, s1) \<Rightarrow> Some (Some e, s1)
   | Some (None, s1) \<Rightarrow> get_writers op owal is s1)"

definition GetWriters :: "(int \<Rightarrow> error option) \<Rightarrow> ('c shard \<Rightarrow> (error option \<times> 'c shard) option) \<Rightarrow> 'c shard
    \<Rightarrow> (error option \<times> 'c shard) option" where
  "GetWriters op owal s = get_writers op owal (map int [0..<nat (sh_num s)]) s"

definition CloseWriter :: "int \<Rightarrow> 'c shard \<Rightarrow> 'c shard option" where
  "CloseWriter i s =
     (if i < 0 then Some (s\<lparr>sh_shards := map (\<lambda>ss. ss\<lparr>ss_ref := ss_ref ss - 1\<rparr>) (sh_shards s)\<rparr>)
      else case second s i of
        None \<Rightarrow> None
      | Some _ \<Rightarrow> Some (upd_second s i (\<lambda>ss. ss\<lparr>ss_ref := ss_ref ss - 1\<rparr>)))"

text \<open>A new second-layer shard is created when the latest one has grown over the limit.\<close>

definition CheckShards :: "(int \<Rightarrow> error option) \<Rightarrow> ('c shard \<Rightarrow> (error option \<times> 'c shard) option) \<Rightarrow> ('c \<Rightarrow> nat \<times> nat) \<Rightarrow> nat
    \<Rightarrow> 'c \<Rightarrow> error option \<Rightarrow> 'c shard \<Rightarrow> (error option \<times> 'c shard) option" where
  "CheckShards op owal st maxSize fresh io s =
     (let i = GetLatestShardID s in
      case GetWriter op owal i s of
        None \<Rightarrow> None
      | Some (Some e, s1) \<Rightarrow> Some (Some e, s1)
      | Some (None, s1) \<Rightarrow>
          (case (if case second s1 i of None \<Rightarrow> False | Some ss \<Rightarrow> maxSize < snd (st (ss_docs ss))
                 then NewShard st fresh io s1 else Some (None, s1)) of
             None \<Rightarrow> None
           | Some (r, s2) \<Rightarrow> map_option (Pair r) (CloseWriter i s2)))"

fun close_writers :: "(int \<Rightarrow> error option) \<Rightarrow> 'c second_shard list \<Rightarrow> error option \<times> 'c second_shard list" where
  "close_writers cl [] = (None, [])"
| "close_writers cl (ss # rest) =
     (if \<not> ss_open ss then (case close_writers cl rest of (e, rest') \<Rightarrow> (e, ss # rest'))
      else case cl (ss_id ss) of
        Some e \<Rightarrow> (Some e, ss # rest)
      | None \<Rightarrow> (case close_writers cl rest of (e, rest') \<Rightarrow> (e, ss\<lparr>ss_open := False\<rparr> # rest')))"

definition Close :: "(int \<Rightarrow> error option) \<Rightarrow> 'c shard \<Rightarrow> error option \<times> 'c shard" where
  "Close cl s = (case close_writers cl (sh_shards s) of (e, sss) \<Rightarrow> (e, s\<lparr>sh_shards := sss\<rparr>))"

definition SetTimestamp :: "int \<Rightarrow> 'c shard \<Rightarrow> 'c shard" where
  "SetTimestamp t s =
     (if sh_min s = 0 then s\<lparr>sh_min := t, sh_max := t\<rparr>
      else if t < sh_min s then s\<lparr>sh_min := t\<rparr>
      else if sh_max s < t then s\<lparr>sh_max := t\<rparr>
      else s)"

text \<open>Which second-layer shards a search with a time range visits, newest first.\<close>

definition out_of_range :: "int \<Rightarrow> int \<Rightarrow> 'c second_shard \<Rightarrow> bool" where
  "out_of_range timeMin timeMax ss \<longleftrightarrow>
     timeMin > 0 \<and> ss_max ss > 0 \<and> ss_max ss < timeMin \<or> timeMax > 0 \<and> ss_min ss > 0 \<and> ss_min ss > timeMax"

fun searchers_loop :: "'c second_shard list \<Rightarrow> int \<Rightarrow> int \<Rightarrow> nat \<Rightarrow> int list option" where
  "searchers_loop sss timeMin timeMax 0 = Some []"
| "searchers_loop sss timeMin timeMax (Suc i) =
     (case slice_get sss i of
        None \<Rightarrow> None
      | Some ss \<Rightarrow>
          if out_of_range timeMin timeMax ss then searchers_loop sss timeMin timeMax i
          else if ss_min ss > 0 \<and> ss_min ss < timeMin then Some [ss_id ss]
          else map_option (Cons (ss_id ss)) (searchers_loop sss timeMin timeMax i))"

definition GetSearchers :: "int \<Rightarrow> int \<Rightarrow> 'c shard \<Rightarrow> int list option" where
  "GetSearchers timeMin timeMax s = searchers_loop (sh_shards s) timeMin timeMax (nat (sh_num s))"

fun partial_loop :: "'c second_shard list \<Rightarrow> int \<Rightarrow> int \<Rightarrow> int list \<Rightarrow> int list" where
  "partial_loop sss timeMin timeMax [] = []"
| "partial_loop sss timeMin timeMax (i # is) =
     (if int (length sss) \<le> i \<or> i < 0 then partial_loop sss timeMin timeMax is
      else let ss = sss ! nat i in
        if out_of_range timeMin timeMax ss then partial_loop sss timeMin timeMax is
        else if ss_min ss > 0 \<and> ss_min ss < timeMin then [ss_id ss]
        else ss_id ss # partial_loop sss timeMin timeMax is)"

definition GetPartialSearchers :: "int \<Rightarrow> int \<Rightarrow> int list \<Rightarrow> 'c shard \<Rightarrow> int list" where
  "GetPartialSearchers timeMin timeMax ids s = partial_loop (sh_shards s) timeMin timeMax ids"

text \<open>
  The second-layer shard with a document. The shards are searched concurrently; \<open>found\<close> gives the
  result of searching one for the id, whose error is only logged. The first to find the id cancels
  the others, but one that finds it too may still store its own: \<open>pick\<close> is which of them is stored
  last. \<^verbatim>\<open>ErrorIDNotFound\<close> is \<open>Inl\<close>, with the shard id -1.
\<close>

definition FindShardByDocID :: "(int \<Rightarrow> error + nat) \<Rightarrow> (int list \<Rightarrow> int) \<Rightarrow> 'c shard \<Rightarrow> (error + int) option" where
  "FindShardByDocID found pick s =
     map_option (\<lambda>ids.
       let hits = filter (\<lambda>i. case found i of Inl _ \<Rightarrow> False | Inr n \<Rightarrow> n > 0) ids
       in if hits = [] then Inl ''id not found'' else Inr (pick hits)) (GetSearchers 0 0 s)"

section \<open>Well-formed shards\<close>

text \<open>The counter is the number of second-layer shards, there is at least one, and their ids are their
  positions.\<close>

definition shard_ok :: "'c shard \<Rightarrow> bool" where
  "shard_ok s \<longleftrightarrow> sh_num s = int (length (sh_shards s)) \<and> sh_shards s \<noteq> []
     \<and> map ss_id (sh_shards s) = map int [0..<length (sh_shards s)]"

lemma shard_ok_id: "shard_ok s \<Longrightarrow> i < length (sh_shards s) \<Longrightarrow> ss_id (sh_shards s ! i) = int i"
  unfolding shard_ok_def by (metis (no_types, lifting) add_0 diff_zero length_upt nth_map nth_upt)

lemma second_ok: "shard_ok s \<Longrightarrow> 0 \<le> i \<Longrightarrow> i < sh_num s \<Longrightarrow> second s i = Some (sh_shards s ! nat i)"
  by (auto simp: second_def slice_get_def shard_ok_def)

lemma latest_ok: "shard_ok s \<Longrightarrow> 0 \<le> GetLatestShardID s \<and> GetLatestShardID s < sh_num s"
  by (cases "sh_shards s") (auto simp: GetLatestShardID_def shard_ok_def)

lemma upd_second_ok: "shard_ok s \<Longrightarrow> \<forall>ss. ss_id (f ss) = ss_id ss \<Longrightarrow> shard_ok (upd_second s i f)"
proof (cases "nat i < length (sh_shards s)")
  case True
  assume ok: "shard_ok s" and f: "\<forall>ss. ss_id (f ss) = ss_id ss"
  have "map ss_id ((sh_shards s)[nat i := f (sh_shards s ! nat i)]) = map ss_id (sh_shards s)"
    using True f by (metis list_update_id map_update)
  with ok show ?thesis unfolding shard_ok_def upd_second_def by auto
qed (simp add: upd_second_def not_less shard_ok_def list_update_beyond)

text \<open>Changes of the statistics keep everything else.\<close>

definition same_docs :: "'c shard \<Rightarrow> 'c shard \<Rightarrow> bool" where
  "same_docs s s' \<longleftrightarrow> sh_num s' = sh_num s \<and> sh_min s' = sh_min s \<and> sh_max s' = sh_max s
     \<and> map (\<lambda>ss. (ss_id ss, ss_min ss, ss_max ss, ss_open ss, ss_ref ss, ss_docs ss)) (sh_shards s')
       = map (\<lambda>ss. (ss_id ss, ss_min ss, ss_max ss, ss_open ss, ss_ref ss, ss_docs ss)) (sh_shards s)"

lemma same_docs_map: "same_docs s s' \<Longrightarrow> map ss_id (sh_shards s') = map ss_id (sh_shards s) \<and> map ss_docs (sh_shards s') = map ss_docs (sh_shards s)
    \<and> map ss_ref (sh_shards s') = map ss_ref (sh_shards s) \<and> length (sh_shards s') = length (sh_shards s)"
proof -
  assume s: "same_docs s s'"
  let ?f = "\<lambda>ss. (ss_id ss, ss_min ss, ss_max ss, ss_open ss, ss_ref ss, ss_docs ss)"
  have eq: "map ?f (sh_shards s') = map ?f (sh_shards s)" using s by (simp add: same_docs_def)
  have proj: "map ss_id xs = map fst (map ?f xs)" "map ss_docs xs = map (\<lambda>(a, b, c, d, e, f). f) (map ?f xs)"
    "map ss_ref xs = map (\<lambda>(a, b, c, d, e, f). e) (map ?f xs)" for xs :: "'a second_shard list"
    by (simp_all add: o_def)
  show ?thesis unfolding proj eq using map_eq_imp_length_eq [OF eq] by simp
qed

lemma same_docs_ok: "same_docs s s' \<Longrightarrow> shard_ok s \<Longrightarrow> shard_ok s'"
  using same_docs_map [of s s'] by (auto simp: shard_ok_def same_docs_def)

lemma UpdateStats_ok:
  assumes ok: "shard_ok s" and i: "0 \<le> i" "i < sh_num s"
  shows "\<exists>s'. UpdateStatsBySecondShard st i s = Some s' \<and> same_docs s s'"
proof -
  let ?f = "\<lambda>ss. ss\<lparr>ss_docnum := fst (st (ss_docs ss)), ss_size := snd (st (ss_docs ss))\<rparr>"
  have n: "nat i < length (sh_shards s)" using ok i by (simp add: shard_ok_def)
  have "same_docs s (upd_second s i ?f)"
    unfolding same_docs_def upd_second_def using n by (simp add: map_update list_update_same_conv)
  moreover have "same_docs s s" by (simp add: same_docs_def)
  ultimately show ?thesis by (simp add: UpdateStatsBySecondShard_def second_ok [OF ok i])
qed

lemma NewShard_ok:
  assumes ok: "shard_ok s"
  shows "\<exists>s'. NewShard st fresh io s = Some (io, s') \<and> shard_ok s' \<and> sh_num s' = sh_num s + 1"
proof -
  obtain s0 where s0: "UpdateStatsBySecondShard st (GetLatestShardID s) s = Some s0" "same_docs s s0"
    using UpdateStats_ok [OF ok] latest_ok [OF ok] by blast
  let ?s1 = "upd_second s0 (GetLatestShardID s0) (\<lambda>ss. ss\<lparr>ss_min := sh_min s0, ss_max := sh_max s0\<rparr>)"
  have s1: "shard_ok ?s1" by (rule upd_second_ok [OF same_docs_ok [OF s0(2) ok]]) simp
  have n: "sh_num ?s1 = sh_num s0" "sh_num s0 = sh_num s" using s0(2) by (simp_all add: upd_second_def same_docs_def)
  show ?thesis
    using s1 n s0(1) by (auto simp: NewShard_def Let_def shard_ok_def)
qed

section \<open>Time ranges\<close>

text \<open>The timestamps of the documents that were written while each second-layer shard was the latest,
  for a history of writes, of new shards and of updates of the metadata.\<close>

datatype shard_event = Stamp int | Grow | Sync

fun shard_run :: "('c \<Rightarrow> nat \<times> nat) \<Rightarrow> 'c \<Rightarrow> 'c shard \<Rightarrow> shard_event list \<Rightarrow> 'c shard" where
  "shard_run st fresh s [] = s"
| "shard_run st fresh s (Stamp t # es) = shard_run st fresh (SetTimestamp t s) es"
| "shard_run st fresh s (Grow # es) = shard_run st fresh (snd (the (NewShard st fresh None s))) es"
| "shard_run st fresh s (Sync # es) = shard_run st fresh (the (UpdateMetadataByShard st s)) es"

fun epochs :: "int list list \<Rightarrow> shard_event list \<Rightarrow> int list list" where
  "epochs ts [] = ts"
| "epochs ts (Stamp t # es) = epochs (butlast ts @ [last ts @ [t]]) es"
| "epochs ts (Grow # es) = epochs (ts @ [[]]) es"
| "epochs ts (Sync # es) = epochs ts es"

definition bounds :: "int list \<Rightarrow> int \<times> int" where
  "bounds ts = (if ts = [] then (0, 0) else (Min (set ts), Max (set ts)))"

text \<open>The ranges of the frozen shards are those of their timestamps; that of the latest shard is the range
  \<open>r\<close> it had when the metadata was updated last.\<close>

definition timed :: "'c shard \<Rightarrow> int list list \<Rightarrow> int \<times> int \<Rightarrow> bool" where
  "timed s ts r \<longleftrightarrow> shard_ok s \<and> length ts = length (sh_shards s) \<and> (\<forall>t\<in>set (concat ts). 0 < t)
     \<and> (sh_min s, sh_max s) = bounds (last ts)
     \<and> (\<forall>i < length ts. (ss_min (sh_shards s ! i), ss_max (sh_shards s ! i)) =
          (if Suc i = length ts then r else bounds (ts ! i)))"

definition new_shard :: "string \<Rightarrow> 'c \<Rightarrow> 'c shard" where
  "new_shard k fresh = \<lparr>sh_id = k, sh_num = 1, sh_min = 0, sh_max = 0, sh_docnum = 0, sh_size = 0,
     sh_shards = [\<lparr>ss_id = 0, ss_min = 0, ss_max = 0, ss_docnum = 0, ss_size = 0, ss_open = False, ss_ref = 0, ss_docs = fresh\<rparr>]\<rparr>"

lemma timed_new: "timed (new_shard k fresh) [[]] (0, 0)"
  by (simp add: timed_def new_shard_def shard_ok_def bounds_def)

lemma bounds_snoc:
  assumes "0 < t" "\<forall>t\<in>set ts. 0 < t"
  shows "bounds (ts @ [t]) = (case bounds ts of (a, b) \<Rightarrow> if a = 0 then (t, t) else (min a t, max b t))"
proof (cases "ts = []")
  case False
  then have "Min (set ts) \<in> set ts" by simp
  with assms(2) have "Min (set ts) \<noteq> 0" by fastforce
  with False show ?thesis by (simp add: bounds_def min.commute max.commute)
qed (simp add: bounds_def)

lemma timed_stamp:
  assumes "timed s ts r" "0 < t"
  shows "timed (SetTimestamp t s) (butlast ts @ [last ts @ [t]]) r"
proof -
  have ne: "ts \<noteq> []" using assms(1) by (auto simp: timed_def shard_ok_def)
  then have pos: "\<forall>t\<in>set (last ts). 0 < t" using assms(1) by (auto simp: timed_def)
  have shards: "sh_shards (SetTimestamp t s) = sh_shards s" "sh_num (SetTimestamp t s) = sh_num s"
    by (simp_all add: SetTimestamp_def)
  have b: "bounds (last ts) = (sh_min s, sh_max s)" and le: "sh_min s \<le> sh_max s"
    using assms(1) ne by (auto simp: timed_def bounds_def split: if_splits)
  have "(sh_min (SetTimestamp t s), sh_max (SetTimestamp t s)) = bounds (last ts @ [t])"
    unfolding bounds_snoc [OF assms(2) pos] b using le by (auto simp: SetTimestamp_def)
  moreover have "(butlast ts @ [last ts @ [t]]) ! i = ts ! i" if "Suc i < length ts" for i
  proof -
    have "i < length ts - 1" using that by linarith
    then show ?thesis by (simp add: nth_append nth_butlast)
  qed
  moreover have "set (concat (butlast ts @ [last ts @ [t]])) = insert t (set (concat ts))"
    using ne by (metis (no_types, lifting) append_butlast_last_id concat.simps concat_append set_append append_Nil2
        Un_insert_right sup_bot.right_neutral list.set append_assoc)
  ultimately show ?thesis using assms ne unfolding timed_def by (auto simp: shards shard_ok_def)
qed

lemma same_docs_times:
  "same_docs s s' \<Longrightarrow> i < length (sh_shards s) \<Longrightarrow>
   ss_min (sh_shards s' ! i) = ss_min (sh_shards s ! i) \<and> ss_max (sh_shards s' ! i) = ss_max (sh_shards s ! i)"
proof -
  assume s: "same_docs s s'" and i: "i < length (sh_shards s)"
  let ?f = "\<lambda>ss. (ss_id ss, ss_min ss, ss_max ss, ss_open ss, ss_ref ss, ss_docs ss)"
  have "i < length (sh_shards s')" using i same_docs_map [OF s] by simp
  with i have "?f (sh_shards s' ! i) = ?f (sh_shards s ! i)"
    using s unfolding same_docs_def by (metis (no_types, lifting) nth_map)
  then show ?thesis by simp
qed

lemma timed_same:
  assumes "same_docs s s'" "timed s ts r"
  shows "timed s' ts r"
  using assms same_docs_ok [OF assms(1)] same_docs_map [OF assms(1)] same_docs_times [OF assms(1)]
  unfolding timed_def by (auto simp: same_docs_def)

lemma timed_freeze:
  assumes "timed s ts r"
  shows "timed (upd_second s (GetLatestShardID s) (\<lambda>ss. ss\<lparr>ss_min := sh_min s, ss_max := sh_max s\<rparr>)) ts (bounds (last ts))"
proof -
  let ?f = "\<lambda>ss. ss\<lparr>ss_min := sh_min s, ss_max := sh_max s\<rparr>"
  let ?n = "length (sh_shards s)"
  have ok: "shard_ok s" and len: "length ts = ?n" and b: "(sh_min s, sh_max s) = bounds (last ts)" using assms by (auto simp: timed_def)
  have n: "nat (GetLatestShardID s) = ?n - 1" "?n \<noteq> 0" using ok by (auto simp: GetLatestShardID_def shard_ok_def)
  have "shard_ok (upd_second s (GetLatestShardID s) ?f)" by (rule upd_second_ok [OF ok]) simp
  moreover have "sh_shards (upd_second s (GetLatestShardID s) ?f) = (sh_shards s)[?n - 1 := ?f (sh_shards s ! (?n - 1))]"
    by (simp add: upd_second_def n(1))
  moreover have "sh_min (upd_second s (GetLatestShardID s) ?f) = sh_min s" "sh_max (upd_second s (GetLatestShardID s) ?f) = sh_max s"
    by (simp_all add: upd_second_def)
  ultimately show ?thesis
    using assms n(2) b len unfolding timed_def by (auto simp: nth_list_update)
qed

lemma timed_grow:
  assumes "timed s ts r"
  shows "timed (snd (the (NewShard st fresh None s))) (ts @ [[]]) (0, 0)"
proof -
  have ok: "shard_ok s" using assms by (simp add: timed_def)
  obtain s0 where s0: "UpdateStatsBySecondShard st (GetLatestShardID s) s = Some s0" "same_docs s s0"
    using UpdateStats_ok [OF ok] latest_ok [OF ok] by blast
  let ?s1 = "upd_second s0 (GetLatestShardID s0) (\<lambda>ss. ss\<lparr>ss_min := sh_min s0, ss_max := sh_max s0\<rparr>)"
  have s1: "timed ?s1 ts (bounds (last ts))" by (rule timed_freeze [OF timed_same [OF s0(2) assms]])
  obtain s' where s': "NewShard st fresh None s = Some (None, s')" "shard_ok s'" using NewShard_ok [OF ok] by blast
  have shards: "sh_shards s' = sh_shards ?s1 @ [\<lparr>ss_id = sh_num s0, ss_min = 0, ss_max = 0, ss_docnum = 0, ss_size = 0,
      ss_open = False, ss_ref = 0, ss_docs = fresh\<rparr>]" and m: "sh_min s' = 0" "sh_max s' = 0"
    using s'(1) s0(1) by (auto simp: NewShard_def Let_def)
  have ne: "ts \<noteq> []" using s1 by (auto simp: timed_def shard_ok_def)
  have at: "(ss_min (sh_shards ?s1 ! i), ss_max (sh_shards ?s1 ! i)) = bounds (ts ! i)" if "i < length ts" for i
    using s1 that ne unfolding timed_def by (metis One_nat_def diff_Suc_1 last_conv_nth)
  have len: "length ts = length (sh_shards ?s1)" using s1 by (simp add: timed_def)
  have "(ss_min (sh_shards s' ! i), ss_max (sh_shards s' ! i)) = (if Suc i = length (ts @ [[]]) then (0, 0) else bounds ((ts @ [[]]) ! i))"
    if "i < length (ts @ [[]])" for i
    using that at len by (cases "i < length ts") (auto simp: shards nth_append)
  moreover have "length (ts @ [[]]) = length (sh_shards s')" using len by (simp add: shards)
  ultimately show ?thesis using s' m s1 unfolding timed_def by (simp add: bounds_def)
qed

lemma update_stats_ok:
  "shard_ok s \<Longrightarrow> \<forall>i \<in> set is. 0 \<le> i \<and> i < sh_num s \<Longrightarrow> \<exists>totals s'. update_stats st is t s = Some (totals, s') \<and> same_docs s s'"
proof (induction "is" arbitrary: t s)
  case Nil
  then show ?case by (simp add: same_docs_def)
next
  case (Cons i "is")
  then obtain s1 where s1: "UpdateStatsBySecondShard st i s = Some s1" "same_docs s s1" using UpdateStats_ok [of s i st] by auto
  have ok: "shard_ok s1" using same_docs_ok [OF s1(2)] Cons.prems(1) by simp
  have n: "sh_num s1 = sh_num s" using s1(2) by (simp add: same_docs_def)
  obtain ss where ss: "second s1 i = Some ss" using second_ok [OF ok] n Cons.prems(2) by auto
  obtain a b where t: "t = (a, b)" by (cases t)
  obtain totals s' where "update_stats st is (a + ss_docnum ss, b + ss_size ss) s1 = Some (totals, s')" "same_docs s1 s'"
    using Cons.IH [OF ok] n Cons.prems(2) by fastforce
  then show ?case using s1 ss by (auto simp: t same_docs_def)
qed

lemma UpdateMetadata_eq:
  assumes ok: "shard_ok s"
  shows "\<exists>s'. same_docs s s' \<and> UpdateMetadataByShard st s =
    Some (upd_second s' (GetLatestShardID s') (\<lambda>ss. ss\<lparr>ss_min := sh_min s', ss_max := sh_max s'\<rparr>))"
proof -
  obtain a b s1 where s1: "update_stats st (map int [0..<nat (sh_num s)]) (0, 0) s = Some ((a, b), s1)" "same_docs s s1"
    using update_stats_ok [OF ok, of "map int [0..<nat (sh_num s)]" st "(0, 0)"] by fastforce
  let ?s2 = "s1\<lparr>sh_docnum := a, sh_size := b\<rparr>"
  have s2: "same_docs s ?s2" using s1(2) by (simp add: same_docs_def)
  have ok2: "shard_ok ?s2" by (rule same_docs_ok [OF s2 ok])
  have "second ?s2 (GetLatestShardID ?s2) \<noteq> None" using second_ok [OF ok2] latest_ok [OF ok2] by simp
  then have "UpdateMetadataByShard st s = Some (upd_second ?s2 (GetLatestShardID ?s2) (\<lambda>ss. ss\<lparr>ss_min := sh_min ?s2, ss_max := sh_max ?s2\<rparr>))"
    by (auto simp: UpdateMetadataByShard_def s1(1) Let_def)
  with s2 show ?thesis by blast
qed

lemma timed_sync:
  assumes "timed s ts r"
  shows "timed (the (UpdateMetadataByShard st s)) ts (bounds (last ts))"
proof -
  have "shard_ok s" using assms by (simp add: timed_def)
  from UpdateMetadata_eq [OF this, of st] obtain s' where "same_docs s s'" "UpdateMetadataByShard st s =
    Some (upd_second s' (GetLatestShardID s') (\<lambda>ss. ss\<lparr>ss_min := sh_min s', ss_max := sh_max s'\<rparr>))" by blast
  then show ?thesis using timed_freeze [OF timed_same [OF _ assms]] by simp
qed

lemma timed_run:
  "timed s ts r \<Longrightarrow> \<forall>t. Stamp t \<in> set es \<longrightarrow> 0 < t \<Longrightarrow> \<exists>r. timed (shard_run st fresh s es) (epochs ts es) r"
proof (induction es arbitrary: s ts r)
  case (Cons e es)
  show ?case
  proof (cases e)
    case (Stamp t)
    with Cons.prems timed_stamp [of s ts r t] show ?thesis using Cons.IH by simp
  next
    case Grow
    with Cons.prems timed_grow [of s ts r st fresh] show ?thesis using Cons.IH by simp
  next
    case Sync
    with Cons.prems timed_sync [of s ts r st] show ?thesis using Cons.IH by simp
  qed
qed auto

text \<open>A loop that has reached a shard goes on to the shards below unless one of them is older than the
  range.\<close>

lemma searchers_loop_total: "n \<le> length sss \<Longrightarrow> \<exists>ids. searchers_loop sss a b n = Some ids"
  by (induction n) (auto simp: slice_get_def)

lemma searchers_loop_sound:
  "searchers_loop sss a b n = Some ids \<Longrightarrow> n \<le> length sss \<Longrightarrow> k \<in> set ids \<Longrightarrow>
   \<exists>i<n. ss_id (sss ! i) = k \<and> \<not> out_of_range a b (sss ! i)"
proof (induction n arbitrary: ids)
  case (Suc n)
  then show ?case by (fastforce simp: slice_get_def less_Suc_eq split: if_splits)
qed simp

lemma searchers_loop_complete:
  assumes "searchers_loop sss a b n = Some ids" "n \<le> length sss" "i < n" "\<not> out_of_range a b (sss ! i)"
    and "\<forall>j. i < j \<and> j < n \<longrightarrow> \<not> (ss_min (sss ! j) > 0 \<and> ss_min (sss ! j) < a)"
  shows "ss_id (sss ! i) \<in> set ids"
  using assms
proof (induction n arbitrary: ids)
  case (Suc n)
  show ?case
  proof (cases "i = n")
    case True
    with Suc.prems show ?thesis by (auto simp: slice_get_def split: if_splits)
  next
    case False
    with Suc.prems have "i < n" "\<not> (ss_min (sss ! n) > 0 \<and> ss_min (sss ! n) < a)" by auto
    moreover from this(2) Suc.prems(1,2) have "\<exists>ids'. searchers_loop sss a b n = Some ids' \<and> set ids' \<subseteq> set ids"
      by (auto simp: slice_get_def split: if_splits)
    ultimately show ?thesis using Suc.IH Suc.prems by fastforce
  qed
qed simp

section \<open>Properties\<close>

text \<open>The timestamps of later shards are not earlier.\<close>

definition in_order :: "int list list \<Rightarrow> bool" where
  "in_order ts \<longleftrightarrow> (\<forall>i j. i < j \<and> j < length ts \<longrightarrow> (\<forall>t\<in>set (ts ! i). \<forall>u\<in>set (ts ! j). t \<le> u))"

lemma range_search:
  assumes tm: "timed s ts (bounds (last ts))" and ord: "in_order ts"
  shows "\<exists>ids. GetSearchers a b s = Some ids \<and>
    (\<forall>i<length ts. \<forall>t\<in>set (ts ! i). (a > 0 \<longrightarrow> a \<le> t) \<and> (b > 0 \<longrightarrow> t \<le> b) \<longrightarrow> int i \<in> set ids)"
proof -
  have ok: "shard_ok s" and len: "length ts = length (sh_shards s)" and n: "nat (sh_num s) = length (sh_shards s)"
    using tm by (auto simp: timed_def shard_ok_def)
  have bd: "(ss_min (sh_shards s ! i), ss_max (sh_shards s ! i)) = bounds (ts ! i)" if "i < length ts" for i
    using tm that unfolding timed_def by (metis Zero_not_Suc diff_Suc_1 last_conv_nth list.size(3))
  have st: "ss_min (sh_shards s ! i) = (if ts ! i = [] then 0 else Min (set (ts ! i)))"
    "ss_max (sh_shards s ! i) = (if ts ! i = [] then 0 else Max (set (ts ! i)))" if "i < length ts" for i
    using bd [OF that] by (auto simp: bounds_def split: if_splits)
  obtain ids where ids: "GetSearchers a b s = Some ids"
    using searchers_loop_total [of "length (sh_shards s)" "sh_shards s" a b] by (auto simp: GetSearchers_def n)
  have "int i \<in> set ids" if i: "i < length ts" "t \<in> set (ts ! i)" and t: "a > 0 \<longrightarrow> a \<le> t" "b > 0 \<longrightarrow> t \<le> b" for i t
  proof -
    have ne: "ts ! i \<noteq> []" using i(2) by auto
    have "\<not> out_of_range a b (sh_shards s ! i)"
      using t Min_le [OF finite_set i(2)] Max_ge [OF finite_set i(2)] ne
      unfolding out_of_range_def st [OF i(1)] by (auto intro!: bexI [OF _ i(2)])
    moreover have "\<not> (ss_min (sh_shards s ! j) > 0 \<and> ss_min (sh_shards s ! j) < a)" if j: "i < j" "j < length ts" for j
    proof (cases "ts ! j = []")
      case False
      then have "Min (set (ts ! j)) \<in> set (ts ! j)" by simp
      with ord i(2) j have "t \<le> Min (set (ts ! j))" unfolding in_order_def by blast
      moreover have "a \<le> t \<or> a \<le> 0" using t(1) by auto
      ultimately show ?thesis unfolding st(1) [OF j(2)] if_not_P [OF False] by (elim disjE) linarith+
    qed (simp add: st(1) [OF j(2)])
    ultimately have "ss_id (sh_shards s ! i) \<in> set ids"
      using ids i(1) len by (intro searchers_loop_complete) (auto simp: GetSearchers_def n)
    then show ?thesis using shard_ok_id [OF ok] i(1) len by simp
  qed
  with ids show ?thesis by blast
qed


lemmas shard_run_simps = new_shard_def SetTimestamp_def NewShard_def UpdateStatsBySecondShard_def UpdateMetadataByShard_def
  GetLatestShardID_def second_def upd_second_def slice_get_def Let_def numeral_3_eq_3 numeral_2_eq_2


text \<open>Without the order, a shard with a document in the range is dropped: the first shard got the
  timestamps 10 and 100, the second 20 and 60, and a search from 50 on stops at the second.\<close>

lemma range_search_misses:
  "map_option (GetSearchers 50 0) (UpdateMetadataByShard (\<lambda>_. (0, 0)) (shard_run (\<lambda>_. (0, 0)) () (new_shard ''s'' ())
     [Stamp 10, Stamp 100, Grow, Stamp 20, Stamp 60, Grow])) = Some (Some [2, 1])"
  by (simp add: shard_run_simps GetSearchers_def out_of_range_def)

text \<open>Before the metadata is updated, a search misses the latest documents.\<close>

lemma range_search_stale:
  "GetSearchers 50 0 (shard_run (\<lambda>_. (0, 0)) () (new_shard ''s'' ()) [Stamp 10, Sync, Stamp 60]) = Some []"
  by (simp add: shard_run_simps GetSearchers_def out_of_range_def)

end
