(* ===== verification/Json.thy ===== *)
theory Json
  imports Go_Runtime Complex_Main
begin

text \<open>
  Decoded JSON values as the program handles them (\<^verbatim>\<open>interface{}\<close> and \<^verbatim>\<open>map[string]interface{}\<close>), and
  small association lists for Go maps that are ranged over.
\<close>

section \<open>Values\<close>

text \<open>A number decoded from JSON is a float64, here the rational number it denotes; a value that has
  not been serialised may also be an integer. The members of an object are a Go map: their order
  has no meaning.\<close>

datatype jval =
  JNull
| JBool bool
| JNum rat
| JInt int
| JStr string
| JArr "jval list"
| JObj "(string \<times> jval) list"

type_synonym jdoc = "string \<rightharpoonup> jval"

text \<open>The conversion \<^verbatim>\<open>int64(x)\<close> of a float64 in range cuts the fraction off.\<close>

definition int_of_float :: "rat \<Rightarrow> int" where
  "int_of_float r = (if 0 \<le> r then \<lfloor>r\<rfloor> else \<lceil>r\<rceil>)"

lemma int_of_float_of_int [simp]: "int_of_float (of_int n) = n"
  by (simp add: int_of_float_def)

section \<open>Maps with an order\<close>

fun aput :: "'k \<Rightarrow> 'v \<Rightarrow> ('k \<times> 'v) list \<Rightarrow> ('k \<times> 'v) list" where
  "aput k v [] = [(k, v)]"
| "aput k v ((k', v') # xs) = (if k = k' then (k, v) # xs else (k', v') # aput k v xs)"

lemma map_of_aput [simp]: "map_of (aput k v xs) = (map_of xs)(k \<mapsto> v)"
  by (induction xs) (auto simp: fun_eq_iff)

lemma keys_aput: "fst ` set (aput k v xs) = insert k (fst ` set xs)"
proof (induction xs)
  case (Cons x xs)
  obtain a b where "x = (a, b)" by (cases x)
  with Cons show ?case by (simp add: insert_commute)
qed simp

lemma distinct_aput [simp]: "distinct (map fst (aput k v xs)) \<longleftrightarrow> distinct (map fst xs)"
proof (induction xs)
  case (Cons x xs)
  obtain a b where x: "x = (a, b)" by (cases x)
  have "a \<in> fst ` set (aput k v xs) \<longleftrightarrow> a = k \<or> a \<in> fst ` set xs" by (simp add: keys_aput)
  with Cons show ?case unfolding x by auto
qed simp

lemma aput_nonempty [simp]: "aput k v xs \<noteq> []"
  by (cases xs) (auto split: if_splits)

definition adel :: "'k \<Rightarrow> ('k \<times> 'v) list \<Rightarrow> ('k \<times> 'v) list" where
  "adel k xs = filter (\<lambda>e. fst e \<noteq> k) xs"

lemma map_of_adel [simp]: "map_of (adel k xs) = (map_of xs)(k := None)"
  by (induction xs) (auto simp: adel_def fun_eq_iff)

lemma distinct_adel [simp]: "distinct (map fst xs) \<Longrightarrow> distinct (map fst (adel k xs))"
  by (simp add: adel_def distinct_map_filter)

lemma set_adel: "set (adel k xs) = {e \<in> set xs. fst e \<noteq> k}"
  by (auto simp: adel_def)

end
