(* ===== verification/Wal_Merge.thy ===== *)
theory Wal_Merge
  imports Shards Json Hnsw_Cache
begin

text \<open>
  Merging the logged operations of a shard, \<^verbatim>\<open>walMergeDocs\<close> of \<^verbatim>\<open>pkg/core/index_shards_wal.go\<close>: the
  operations are grouped by second-layer shard and by document, the actions on one document are
  reduced to one operation on the Bluge index and one on the vector indexes, and every group is
  written as one batch.
\<close>

section \<open>Model\<close>

record wal_doc =
  wd_id :: string
  wd_actions :: "string list"
  wd_data :: jdoc

type_synonym merge_docs = "(int \<times> (string \<times> wal_doc) list) list"

definition MaxShardLen :: "merge_docs \<Rightarrow> nat" where
  "MaxShardLen w = foldl (\<lambda>n e. if length (snd e) > n then length (snd e) else n) 0 w"

text \<open>The shards stay, without documents.\<close>

definition Reset :: "merge_docs \<Rightarrow> merge_docs" where
  "Reset w = map (\<lambda>e. (fst e, [])) w"

text \<open>The type assertions panic (\<open>None\<close>) on other types.\<close>

definition op_fields :: "jdoc \<Rightarrow> (string \<times> string \<times> int) option" where
  "op_fields data =
     (case (data ''@_action'', data ''@_id'') of
        (Some (JStr action), Some (JStr docID)) \<Rightarrow>
          (case data ''@_shard'' of
             Some (JNum r) \<Rightarrow> Some (action, docID, int_of_float r)
           | Some (JInt i) \<Rightarrow> Some (action, docID, i)
           | _ \<Rightarrow> None)
      | _ \<Rightarrow> None)"

definition AddDocument :: "jdoc \<Rightarrow> merge_docs \<Rightarrow> merge_docs option" where
  "AddDocument data w =
     (case op_fields data of
        None \<Rightarrow> None
      | Some (action, docID, shardID) \<Rightarrow>
          let shard = (case map_of w shardID of None \<Rightarrow> [] | Some sh \<Rightarrow> sh);
              actions = (case map_of shard docID of None \<Rightarrow> [] | Some doc \<Rightarrow> wd_actions doc);
              doc = \<lparr>wd_id = docID, wd_actions = actions @ [action], wd_data = data\<rparr>
          in Some (aput shardID (aput docID doc shard) w))"

text \<open>What a document's actions come down to: an operation on the Bluge index and an action on the
  vector indexes. An unknown first action is an error (\<open>None\<close>), an unknown last one does nothing.\<close>

datatype doc_op = DNone | DInsert | DUpdate | DDelete
datatype vec_op = VNone | VInsert | VUpdate | VDelete

definition after_insert :: "string \<Rightarrow> doc_op \<times> vec_op" where
  "after_insert l =
     (if l = ''insert'' then (DInsert, VInsert)
      else if l = ''update'' then (DInsert, VInsert)
      else if l = ''delete'' then (DNone, VNone)
      else if l = ''delete_vec_only'' then (DNone, VDelete)
      else (DNone, VNone))"

definition after_other :: "string \<Rightarrow> doc_op \<times> vec_op" where
  "after_other l =
     (if l = ''insert'' then (DUpdate, VUpdate)
      else if l = ''update'' then (DUpdate, VUpdate)
      else if l = ''delete'' then (DDelete, VDelete)
      else if l = ''delete_vec_only'' then (DNone, VDelete)
      else (DNone, VNone))"

definition merged_action :: "string list \<Rightarrow> (doc_op \<times> vec_op) option" where
  "merged_action actions =
     (let first = hd actions; one = (length actions = 1); lst = last actions in
      if first = ''insert'' then Some (if one then (DInsert, VInsert) else after_insert lst)
      else if first = ''update'' then Some (if one then (DUpdate, VUpdate) else after_other lst)
      else if first = ''delete'' then Some (if one then (DDelete, VDelete) else after_other lst)
      else if first = ''delete_vec_only'' then Some (if one then (DNone, VDelete) else after_other lst)
      else None)"

text \<open>The operations of a Bluge batch, by document id, and the vector actions.\<close>

datatype 'd bop = BInsert string 'd | BUpdate string 'd | BDelete string

record vec_action =
  va_doc :: string
  va_op :: vec_op
  va_index :: string
  va_vector :: "float32 list"
  va_field :: string

definition batch_ops :: "doc_op \<Rightarrow> string \<Rightarrow> 'd \<Rightarrow> 'd bop list" where
  "batch_ops a k d = (case a of DNone \<Rightarrow> [] | DInsert \<Rightarrow> [BInsert k d] | DUpdate \<Rightarrow> [BUpdate k d] | DDelete \<Rightarrow> [BDelete k])"

definition other_ops :: "doc_op \<Rightarrow> string \<Rightarrow> 'd bop list" where
  "other_ops a k = (case a of DNone \<Rightarrow> [] | DInsert \<Rightarrow> [] | DUpdate \<Rightarrow> [BDelete k] | DDelete \<Rightarrow> [BDelete k])"

definition vec_ops :: "vec_op \<Rightarrow> string \<Rightarrow> string list \<Rightarrow> string \<Rightarrow> (string \<times> float32 list) list \<Rightarrow> vec_action list" where
  "vec_ops a iname vfields k vecs =
     (if a = VNone then []
      else map (\<lambda>(field, v). \<lparr>va_doc = k, va_op = a, va_index = iname, va_vector = v, va_field = field\<rparr>) vecs
        @ (if a = VDelete
           then map (\<lambda>field. \<lparr>va_doc = k, va_op = VDelete, va_index = iname, va_vector = [], va_field = field\<rparr>) vfields
           else []))"

text \<open>
  What the writing relies on: \<open>build\<close> is \<^verbatim>\<open>BuildBlugeDocumentFromJSON\<close> (the document, its vectors and its
  timestamp), \<open>we_op\<close> the error of opening a writer, \<open>we_owal\<close> is \<^verbatim>\<open>OpenWAL\<close>, \<open>we_batch\<close> is Bluge's \<^verbatim>\<open>Writer.Batch\<close>
  on the content of an index, \<open>we_vec\<close> is \<^verbatim>\<open>BatchVectors\<close> on the state of the vector indexes, and
  \<open>we_order\<close> the order in which a map of documents is ranged over.
\<close>

record ('c, 'd, 'v) wenv =
  we_build :: "string \<Rightarrow> jdoc \<Rightarrow> error + 'd \<times> (string \<times> float32 list) list \<times> int"
  we_name :: string
  we_vfields :: "string list"
  we_op :: "int \<Rightarrow> error option"
  we_owal :: "'c shard \<Rightarrow> (error option \<times> 'c shard) option"
  we_batch :: "'c \<Rightarrow> 'd bop list \<Rightarrow> error + 'c"
  we_vec :: "vec_action list \<Rightarrow> 'v \<Rightarrow> error + 'v"
  we_order :: "(string \<times> wal_doc) list \<Rightarrow> (string \<times> wal_doc) list"

fun write_loop :: "('c, 'd, 'v) wenv \<Rightarrow> (string \<times> wal_doc) list \<Rightarrow> 'd bop list \<times> 'd bop list \<times> vec_action list
    \<Rightarrow> 'c shard \<Rightarrow> error option \<times> ('d bop list \<times> 'd bop list \<times> vec_action list) \<times> 'c shard" where
  "write_loop env [] ops s = (None, ops, s)"
| "write_loop env ((k, doc) # rest) (b, ob, va) s =
     (case we_build env (wd_id doc) (wd_data doc) of
        Inl e \<Rightarrow> (Some e, (b, ob, va), s)
      | Inr (d, vecs, t) \<Rightarrow>
          let s1 = SetTimestamp t s in
          (case merged_action (wd_actions doc) of
             None \<Rightarrow> (Some ''walMergeDocs: invalid action type'', (b, ob, va), s1)
           | Some (da, fa) \<Rightarrow>
               write_loop env rest
                 (b @ batch_ops da (wd_id doc) d, ob @ other_ops da (wd_id doc),
                  va @ vec_ops fa (we_name env) (we_vfields env) (wd_id doc) vecs) s1))"

text \<open>A batch on the index of one second-layer shard, and one batch on several.\<close>

definition shard_batch :: "('c, 'd, 'v) wenv \<Rightarrow> int \<Rightarrow> 'd bop list \<Rightarrow> 'c shard \<Rightarrow> (error option \<times> 'c shard) option" where
  "shard_batch env i ops s =
     (case second s i of
        None \<Rightarrow> None
      | Some ss \<Rightarrow> (case we_batch env (ss_docs ss) ops of
            Inl e \<Rightarrow> Some (Some e, s)
          | Inr c \<Rightarrow> Some (None, upd_second s i (\<lambda>ss. ss\<lparr>ss_docs := c\<rparr>))))"

fun shard_batches :: "('c, 'd, 'v) wenv \<Rightarrow> int list \<Rightarrow> 'd bop list \<Rightarrow> 'c shard \<Rightarrow> (error option \<times> 'c shard) option" where
  "shard_batches env [] ops s = Some (None, s)"
| "shard_batches env (i # is) ops s = (case shard_batch env i ops s of
     None \<Rightarrow> None
   | Some (Some e, s1) \<Rightarrow> Some (Some e, s1)
   | Some (None, s1) \<Rightarrow> shard_batches env is ops s1)"

text \<open>The part of \<^verbatim>\<open>WriteToShard\<close> after its deferred call is set up: \<open>i\<close> is the second-layer shard, or negative
  for all of them.\<close>

definition write_group :: "('c, 'd, 'v) wenv \<Rightarrow> int \<Rightarrow> (string \<times> wal_doc) list \<Rightarrow> 'c shard \<Rightarrow> 'v
    \<Rightarrow> (error option \<times> 'c shard \<times> 'v) option" where
  "write_group env i docs s v =
     (case (if 0 \<le> i then GetWriter (we_op env) (we_owal env) i s else GetWriters (we_op env) (we_owal env) s) of
        None \<Rightarrow> None
      | Some (Some e, s1) \<Rightarrow> Some (Some e, s1, v)
      | Some (None, s1) \<Rightarrow>
          (let target = (if 0 \<le> i then i else sh_num s - 1);
               others = (if 0 \<le> i then [] else map int [0..<nat (sh_num s) - 1])
           in case write_loop env (we_order env docs) ([], [], []) s1 of
               (Some e, _, s2) \<Rightarrow> Some (Some e, s2, v)
             | (None, (b, ob, va), s2) \<Rightarrow>
                 (case shard_batch env target b s2 of
                    None \<Rightarrow> None
                  | Some (Some e, s3) \<Rightarrow> Some (Some e, s3, v)
                  | Some (None, s3) \<Rightarrow>
                      (case shard_batches env others ob s3 of
                         None \<Rightarrow> None
                       | Some (Some e, s4) \<Rightarrow> Some (Some e, s4, v)
                       | Some (None, s4) \<Rightarrow> (case we_vec env va v of
                             Inl e \<Rightarrow> Some (Some e, s4, v)
                           | Inr v' \<Rightarrow> Some (None, s4, v'))))))"

definition WriteToShard :: "('c, 'd, 'v) wenv \<Rightarrow> merge_docs \<Rightarrow> int \<Rightarrow> 'c shard \<Rightarrow> 'v
    \<Rightarrow> (error option \<times> 'c shard \<times> 'v) option" where
  "WriteToShard env w shardID s v =
     (case map_of w shardID of
        None \<Rightarrow> Some (None, s, v)
      | Some docs \<Rightarrow>
          (let i = (if shardID = ShardIDNeedLatest then GetLatestShardID s else shardID) in
           case write_group env i docs s v of
             None \<Rightarrow> None
           | Some (r, s1, v1) \<Rightarrow> map_option (\<lambda>s2. (r, s2, v1)) (CloseWriter i s1)))"

text \<open>Undoing a group: only insertions under a known shard are deleted again. The deferred \<^verbatim>\<open>CloseWriter\<close> runs
  also when no writer was taken.\<close>

fun rollback_loop :: "('c, 'd, 'v) wenv \<Rightarrow> (string \<times> wal_doc) list \<Rightarrow> 'd bop list \<Rightarrow> 'c shard
    \<Rightarrow> error option \<times> 'd bop list \<times> 'c shard" where
  "rollback_loop env [] b s = (None, b, s)"
| "rollback_loop env ((k, doc) # rest) b s =
     (case we_build env (wd_id doc) (wd_data doc) of
        Inl e \<Rightarrow> (Some e, b, s)
      | Inr (d, vecs, t) \<Rightarrow>
          rollback_loop env rest (if hd (wd_actions doc) = ''insert'' then b @ [BDelete (wd_id doc)] else b) (SetTimestamp t s))"

definition rollback_group :: "('c, 'd, 'v) wenv \<Rightarrow> int \<Rightarrow> (string \<times> wal_doc) list \<Rightarrow> 'c shard \<Rightarrow> (error option \<times> 'c shard) option" where
  "rollback_group env shardID docs s =
     (if shardID < 0 then Some (None, s)
      else case GetWriter (we_op env) (we_owal env) shardID s of
        None \<Rightarrow> None
      | Some (Some e, s1) \<Rightarrow> Some (Some e, s1)
      | Some (None, s1) \<Rightarrow>
          (case rollback_loop env (we_order env docs) [] s1 of
             (Some e, _, s2) \<Rightarrow> Some (Some e, s2)
           | (None, b, s2) \<Rightarrow> shard_batch env shardID b s2))"

definition WriteToShardRollback :: "('c, 'd, 'v) wenv \<Rightarrow> merge_docs \<Rightarrow> int \<Rightarrow> 'c shard \<Rightarrow> (error option \<times> 'c shard) option" where
  "WriteToShardRollback env w shardID s =
     (case map_of w shardID of
        None \<Rightarrow> Some (None, s)
      | Some docs \<Rightarrow>
          (case rollback_group env shardID docs s of
             None \<Rightarrow> None
           | Some (r, s1) \<Rightarrow> map_option (Pair r) (CloseWriter shardID s1)))"

text \<open>The groups are written in the order \<open>ids\<close> in which the map is ranged over.\<close>

fun write_shards :: "('c, 'd, 'v) wenv \<Rightarrow> bool \<Rightarrow> merge_docs \<Rightarrow> int list \<Rightarrow> 'c shard \<Rightarrow> 'v
    \<Rightarrow> (error option \<times> 'c shard \<times> 'v) option" where
  "write_shards env rollback w [] s v = Some (None, s, v)"
| "write_shards env rollback w (shardID # ids) s v =
     (case (if \<not> rollback then WriteToShard env w shardID s v
            else map_option (\<lambda>(r, s1). (r, s1, v)) (WriteToShardRollback env w shardID s)) of
        None \<Rightarrow> None
      | Some (Some e, s1, v1) \<Rightarrow> Some (Some e, s1, v1)
      | Some (None, s1, v1) \<Rightarrow> write_shards env rollback w ids s1 v1)"

definition WriteTo :: "('c, 'd, 'v) wenv \<Rightarrow> (int list \<Rightarrow> int list) \<Rightarrow> bool \<Rightarrow> merge_docs \<Rightarrow> 'c shard \<Rightarrow> 'v
    \<Rightarrow> (error option \<times> merge_docs \<times> 'c shard \<times> 'v) option" where
  "WriteTo env io rollback w s v =
     (case write_shards env rollback w (io (map fst w)) s v of
        None \<Rightarrow> None
      | Some (Some e, s1, v1) \<Rightarrow> Some (Some e, w, s1, v1)
      | Some (None, s1, v1) \<Rightarrow> Some (None, Reset w, s1, v1))"

section \<open>Grouping\<close>

text \<open>The operations on one document of one group, in the order they were added.\<close>

definition ops_on :: "(string \<times> string \<times> int \<times> jdoc) list \<Rightarrow> int \<Rightarrow> string \<Rightarrow> (string \<times> jdoc) list" where
  "ops_on ops i k = map (\<lambda>(a, _, _, d). (a, d)) (filter (\<lambda>(_, k', i', _). k' = k \<and> i' = i) ops)"

fun add_all_docs :: "jdoc list \<Rightarrow> merge_docs \<Rightarrow> merge_docs option" where
  "add_all_docs [] w = Some w"
| "add_all_docs (d # ds) w = (case AddDocument d w of None \<Rightarrow> None | Some w1 \<Rightarrow> add_all_docs ds w1)"

definition parsed :: "jdoc \<Rightarrow> (string \<times> string \<times> int \<times> jdoc) option" where
  "parsed d = map_option (\<lambda>(a, k, i). (a, k, i, d)) (op_fields d)"

definition doc_at :: "merge_docs \<Rightarrow> int \<Rightarrow> string \<Rightarrow> wal_doc option" where
  "doc_at w i k = (case map_of w i of None \<Rightarrow> None | Some docs \<Rightarrow> map_of docs k)"

definition merged_doc :: "string \<Rightarrow> (string \<times> jdoc) list \<Rightarrow> wal_doc option" where
  "merged_doc k ops = (if ops = [] then None
     else Some \<lparr>wd_id = k, wd_actions = map fst ops, wd_data = snd (last ops)\<rparr>)"

definition merge_ok :: "merge_docs \<Rightarrow> bool" where
  "merge_ok w \<longleftrightarrow> distinct (map fst w) \<and> (\<forall>e \<in> set w. distinct (map fst (snd e)))"

definition merges :: "merge_docs \<Rightarrow> (string \<times> string \<times> int \<times> jdoc) list \<Rightarrow> bool" where
  "merges w ops \<longleftrightarrow> merge_ok w \<and> (\<forall>i k. doc_at w i k = merged_doc k (ops_on ops i k))"

lemma merge_ok_group: "merge_ok w \<Longrightarrow> map_of w i = Some docs \<Longrightarrow> distinct (map fst docs)"
  unfolding merge_ok_def by (metis map_of_SomeD snd_conv)

lemma set_aput: "set (aput k v xs) \<subseteq> insert (k, v) (set xs)"
  by (induction xs) (auto split: if_splits)

lemma merge_ok_aput:
  assumes "merge_ok w" and "distinct (map fst docs)"
  shows "merge_ok (aput i docs w)"
  using assms set_aput [of i docs w] unfolding merge_ok_def by fastforce

lemma merges_Reset: "distinct (map fst w) \<Longrightarrow> merges (Reset w) []"
proof -
  assume d: "distinct (map fst w)"
  have "map_of (Reset w) i = map_option (\<lambda>_. []) (map_of w i)" for i
    unfolding Reset_def by (induction w) auto
  then have "doc_at (Reset w) i k = None" for i k by (simp add: doc_at_def split: option.splits)
  moreover have "merge_ok (Reset w)" using d by (auto simp: merge_ok_def Reset_def o_def)
  ultimately show ?thesis by (simp add: merges_def merged_doc_def ops_on_def)
qed

lemma merges_Add:
  assumes m: "merges w ops" and p: "op_fields d = Some (a, k, i)"
  shows "\<exists>w'. AddDocument d w = Some w' \<and> merges w' (ops @ [(a, k, i, d)])"
proof -
  define shard where "shard = (case map_of w i of None \<Rightarrow> [] | Some sh \<Rightarrow> sh)"
  define acts where "acts = (case map_of shard k of None \<Rightarrow> [] | Some doc \<Rightarrow> wd_actions doc)"
  let ?doc = "\<lparr>wd_id = k, wd_actions = acts @ [a], wd_data = d\<rparr>"
  let ?w = "aput i (aput k ?doc shard) w"
  have ok: "merge_ok w" and at: "doc_at w i' k' = merged_doc k' (ops_on ops i' k')" for i' k'
    using m by (simp_all add: merges_def)
  have run: "AddDocument d w = Some ?w" by (simp add: AddDocument_def p shard_def acts_def Let_def)
  have shard: "map_of shard k' = merged_doc k' (ops_on ops i k')" for k'
    using at [of i k'] by (simp add: shard_def doc_at_def split: option.splits)
  have dshard: "distinct (map fst shard)"
    unfolding shard_def by (auto split: option.split intro: merge_ok_group [OF ok])
  have acts: "acts = map fst (ops_on ops i k)" by (simp add: acts_def shard merged_doc_def)
  have on: "ops_on (ops @ [(a, k, i, d)]) i' k' = ops_on ops i' k' @ (if i' = i \<and> k' = k then [(a, d)] else [])" for i' k'
    by (auto simp: ops_on_def)
  have "doc_at ?w i' k' = (if i' = i then if k' = k then Some ?doc else map_of shard k' else doc_at w i' k')" for i' k'
    by (simp add: doc_at_def)
  then have "doc_at ?w i' k' = merged_doc k' (ops_on (ops @ [(a, k, i, d)]) i' k')" for i' k'
    by (simp add: on at shard acts) (simp add: merged_doc_def)
  moreover have "merge_ok ?w" using ok dshard by (simp add: merge_ok_aput)
  ultimately have "merges ?w (ops @ [(a, k, i, d)])" by (simp add: merges_def)
  with run show ?thesis by blast
qed

section \<open>Writing a group\<close>

abbreviation docs_of :: "'c shard \<Rightarrow> 'c list" where
  "docs_of s \<equiv> map ss_docs (sh_shards s)"

abbreviation refs_of :: "'c shard \<Rightarrow> int list" where
  "refs_of s \<equiv> map ss_ref (sh_shards s)"

lemma SetTimestamp_shards [simp]: "sh_shards (SetTimestamp t s) = sh_shards s" "sh_num (SetTimestamp t s) = sh_num s"
  by (simp_all add: SetTimestamp_def)

text \<open>What Bluge documents of a batch: the documents with an id that is updated or deleted go, then the
  inserted and updated ones are added. \<open>view c k\<close> are the documents of the index \<open>c\<close> with the id \<open>k\<close>.\<close>

fun removed :: "'d bop list \<Rightarrow> string set" where
  "removed [] = {}"
| "removed (BInsert k d # ops) = removed ops"
| "removed (BUpdate k d # ops) = insert k (removed ops)"
| "removed (BDelete k # ops) = insert k (removed ops)"

fun added :: "'d bop list \<Rightarrow> string \<Rightarrow> 'd multiset" where
  "added [] k = {#}"
| "added (BInsert k' d # ops) k = (if k' = k then add_mset d (added ops k) else added ops k)"
| "added (BUpdate k' d # ops) k = (if k' = k then add_mset d (added ops k) else added ops k)"
| "added (BDelete k' # ops) k = added ops k"

definition batch_ok :: "('c \<Rightarrow> string \<Rightarrow> 'd multiset) \<Rightarrow> ('c \<Rightarrow> 'd bop list \<Rightarrow> error + 'c) \<Rightarrow> bool" where
  "batch_ok view batch \<longleftrightarrow> (\<forall>c ops c'. batch c ops = Inr c' \<longrightarrow>
     (\<forall>k. view c' k = (if k \<in> removed ops then {#} else view c k) + added ops k))"

text \<open>An environment in which nothing fails and every WAL is already open.\<close>

definition no_faults :: "('c, 'd, 'v) wenv \<Rightarrow> bool" where
  "no_faults env \<longleftrightarrow> (\<forall>i. we_op env i = None) \<and> (\<forall>s. we_owal env s = Some (None, s))
     \<and> (\<forall>c ops. \<exists>c'. we_batch env c ops = Inr c') \<and> (\<forall>va v. \<exists>v'. we_vec env va v = Inr v')
     \<and> (\<forall>docs. set (we_order env docs) = set docs \<and> (distinct (map fst docs) \<longrightarrow> distinct (map fst (we_order env docs))))"

lemma removed_append [simp]: "removed (a @ b) = removed a \<union> removed b"
  by (induction a rule: removed.induct) auto

lemma added_append [simp]: "added (a @ b) k = added a k + added b k"
  by (induction a k rule: added.induct) auto

text \<open>The operations of a document concern its own id only.\<close>

definition built :: "('c, 'd, 'v) wenv \<Rightarrow> string \<Rightarrow> jdoc \<Rightarrow> 'd" where
  "built env k d = fst (projr (we_build env k d))"

definition doc_batch :: "('c, 'd, 'v) wenv \<Rightarrow> wal_doc \<Rightarrow> 'd bop list" where
  "doc_batch env doc = batch_ops (fst (the (merged_action (wd_actions doc)))) (wd_id doc) (built env (wd_id doc) (wd_data doc))"

definition writable :: "('c, 'd, 'v) wenv \<Rightarrow> wal_doc \<Rightarrow> bool" where
  "writable env doc \<longleftrightarrow> (\<exists>r. we_build env (wd_id doc) (wd_data doc) = Inr r) \<and> merged_action (wd_actions doc) \<noteq> None"

lemma doc_batch_other: "wd_id doc \<noteq> k \<Longrightarrow> k \<notin> removed (doc_batch env doc) \<and> added (doc_batch env doc) k = {#}"
  by (simp add: doc_batch_def batch_ops_def split: doc_op.split)

lemma write_loop_ok:
  "\<forall>e \<in> set docs. writable env (snd e) \<Longrightarrow>
   \<exists>ob' va' s'. write_loop env docs (b, ob, va) s = (None, (b @ concat (map (doc_batch env \<circ> snd) docs), ob', va'), s')
     \<and> sh_shards s' = sh_shards s \<and> sh_num s' = sh_num s"
proof (induction docs arbitrary: b ob va s)
  case (Cons e docs)
  obtain k doc where e: "e = (k, doc)" by (cases e)
  from Cons.prems obtain d vecs t where d: "we_build env (wd_id doc) (wd_data doc) = Inr (d, vecs, t)"
    unfolding e writable_def by force
  from Cons.prems obtain da fa where a: "merged_action (wd_actions doc) = Some (da, fa)"
    unfolding e writable_def by force
  have "\<forall>e \<in> set docs. writable env (snd e)" using Cons.prems by simp
  from Cons.IH [OF this, of "b @ batch_ops da (wd_id doc) d" "ob @ other_ops da (wd_id doc)"
      "va @ vec_ops fa (we_name env) (we_vfields env) (wd_id doc) vecs" "SetTimestamp t s"]
  show ?case unfolding e by (simp add: d a doc_batch_def built_def)
qed simp

lemma group_batch:
  assumes "distinct (map fst docs)" and "\<forall>e \<in> set docs. wd_id (snd e) = fst e"
  shows "(k \<in> removed (concat (map (doc_batch env \<circ> snd) docs)) \<longleftrightarrow> (\<exists>doc. map_of docs k = Some doc \<and> k \<in> removed (doc_batch env doc)))
    \<and> added (concat (map (doc_batch env \<circ> snd) docs)) k = (case map_of docs k of None \<Rightarrow> {#} | Some doc \<Rightarrow> added (doc_batch env doc) k)"
  using assms
proof (induction docs)
  case (Cons e docs)
  obtain k' doc where e: "e = (k', doc)" by (cases e)
  have "k' \<notin> fst ` set docs" using Cons.prems(1) by (simp add: e)
  then have "map_of docs k' = None" by (simp add: map_of_eq_None_iff)
  with Cons doc_batch_other [of doc k env] show ?case by (cases "k = k'") (auto simp: e)
qed simp

lemma upd_second_map:
  assumes "\<forall>ss. g (f ss) = h (g ss)"
  shows "map g (sh_shards (upd_second s i f)) = (map g (sh_shards s))[nat i := h (map g (sh_shards s) ! nat i)]"
  using assms by (cases "nat i < length (sh_shards s)") (simp_all add: upd_second_def map_update list_update_beyond)

lemma upd_second_num [simp]: "sh_num (upd_second s i f) = sh_num s" "length (sh_shards (upd_second s i f)) = length (sh_shards s)"
  by (simp_all add: upd_second_def)

lemma GetWriter_ok:
  assumes env: "no_faults env" and ok: "shard_ok s" and i: "0 \<le> i" "i < sh_num s"
  shows "\<exists>s1. GetWriter (we_op env) (we_owal env) i s = Some (None, s1) \<and> shard_ok s1 \<and> sh_num s1 = sh_num s
    \<and> docs_of s1 = docs_of s \<and> refs_of s1 = (refs_of s)[nat i := refs_of s ! nat i + 1]"
proof -
  let ?open = "upd_second s i (\<lambda>ss. ss\<lparr>ss_open := True\<rparr>)"
  let ?take = "\<lambda>s. upd_second s i (\<lambda>ss. ss\<lparr>ss_ref := ss_ref ss + 1\<rparr>)"
  have take: "shard_ok (?take s') \<and> docs_of (?take s') = docs_of s' \<and> refs_of (?take s') = (refs_of s')[nat i := refs_of s' ! nat i + 1]"
    if "shard_ok s'" for s' :: "'a shard"
    using that upd_second_map [of ss_docs "\<lambda>ss. ss\<lparr>ss_ref := ss_ref ss + 1\<rparr>" id s' i]
      upd_second_map [of ss_ref "\<lambda>ss. ss\<lparr>ss_ref := ss_ref ss + 1\<rparr>" "\<lambda>n. n + 1" s' i]
    by (simp add: upd_second_ok)
  have opn: "shard_ok ?open \<and> docs_of ?open = docs_of s \<and> refs_of ?open = refs_of s"
    using ok upd_second_map [of ss_docs "\<lambda>ss. ss\<lparr>ss_open := True\<rparr>" id s i]
      upd_second_map [of ss_ref "\<lambda>ss. ss\<lparr>ss_open := True\<rparr>" id s i] by (simp add: upd_second_ok)
  have at: "second s i = Some (sh_shards s ! nat i)" by (rule second_ok [OF ok i])
  show ?thesis
  proof (cases "ss_open (sh_shards s ! nat i)")
    case True
    with i at take [OF ok] show ?thesis by (simp add: GetWriter_def)
  next
    case False
    with i at env opn take [of ?open] show ?thesis by (simp add: GetWriter_def openWriter_def no_faults_def)
  qed
qed

text \<open>Applying the operations on a document one after the other: an insertion or an update stores the
  document, a deletion removes it.\<close>

definition ref_op :: "('c, 'd, 'v) wenv \<Rightarrow> string \<Rightarrow> 'd multiset \<Rightarrow> string \<times> jdoc \<Rightarrow> 'd multiset" where
  "ref_op env k m op = (if fst op \<in> {''insert'', ''update''} then {#built env k (snd op)#} else {#})"

definition ref_ops :: "('c, 'd, 'v) wenv \<Rightarrow> string \<Rightarrow> (string \<times> jdoc) list \<Rightarrow> 'd multiset \<Rightarrow> 'd multiset" where
  "ref_ops env k ops m = foldl (ref_op env k) m ops"

text \<open>The operations on one document as they are logged: an insertion, and a deletion of vectors only, is
  logged first for a document that is not in the index, and a deletion of vectors only is logged
  last only when the index did not have the document.\<close>

definition logged_ok :: "string list \<Rightarrow> 'd multiset \<Rightarrow> bool" where
  "logged_ok actions m \<longleftrightarrow> set actions \<subseteq> {''insert'', ''update'', ''delete'', ''delete_vec_only''}
     \<and> (hd actions \<in> {''insert'', ''delete_vec_only''} \<longrightarrow> m = {#})
     \<and> (last actions = ''delete_vec_only'' \<longrightarrow> hd actions \<in> {''insert'', ''delete_vec_only''})"

lemma ref_ops_last: "ops \<noteq> [] \<Longrightarrow> ref_ops env k ops m = ref_op env k m (last ops)"
  by (induction ops rule: rev_induct) (simp_all add: ref_ops_def ref_op_def)

lemma logged_known:
  assumes "as \<noteq> []" and "logged_ok as m"
  shows "hd as \<in> {''insert'', ''update'', ''delete'', ''delete_vec_only''} \<and> last as \<in> {''insert'', ''update'', ''delete'', ''delete_vec_only''}"
  using assms hd_in_set [of as] last_in_set [of as] unfolding logged_ok_def by (meson subsetD)

lemma merged_batch:
  assumes ne: "ops \<noteq> []" and ok: "logged_ok (map fst ops) m" and doc: "merged_doc k ops = Some doc"
  shows "(if k \<in> removed (doc_batch env doc) then {#} else m) + added (doc_batch env doc) k = ref_ops env k ops m"
proof -
  let ?as = "map fst ops"
  have doc': "doc = \<lparr>wd_id = k, wd_actions = ?as, wd_data = snd (last ops)\<rparr>" using doc ne by (simp add: merged_doc_def)
  note known = logged_known [OF _ ok, unfolded map_is_Nil_conv, OF ne, THEN conjunct1]
    logged_known [OF _ ok, unfolded map_is_Nil_conv, OF ne, THEN conjunct2]
  have one: "length ?as = 1 \<Longrightarrow> last ?as = hd ?as" using ne by (cases ops) auto
  have l: "fst (last ops) = last ?as" using ne by (simp add: last_map)
  have r: "ref_ops env k ops m = (if last ?as \<in> {''insert'', ''update''} then {#built env k (snd (last ops))#} else {#})"
    by (simp only: ref_ops_last [OF ne] ref_op_def l)
  have "removed (doc_batch env doc) = removed (batch_ops (fst (the (merged_action ?as))) k (built env k (snd (last ops))))"
    and "added (doc_batch env doc) k = added (batch_ops (fst (the (merged_action ?as))) k (built env k (snd (last ops)))) k"
    by (simp_all add: doc_batch_def doc')
  then show ?thesis
    unfolding r using known one ok unfolding logged_ok_def merged_action_def Let_def
    by (cases "length ?as = 1") (elim insertE emptyE; simp add: batch_ops_def after_insert_def after_other_def)+
qed

lemma shard_batch_ok:
  assumes env: "no_faults env" and ok: "shard_ok s" and i: "0 \<le> i" "i < sh_num s"
  shows "\<exists>c. we_batch env (docs_of s ! nat i) ops = Inr c
    \<and> shard_batch env i ops s = Some (None, upd_second s i (\<lambda>ss. ss\<lparr>ss_docs := c\<rparr>))"
proof -
  have n: "nat i < length (sh_shards s)" using ok i by (simp add: shard_ok_def)
  obtain c where "we_batch env (docs_of s ! nat i) ops = Inr c" using env unfolding no_faults_def by blast
  with n show ?thesis by (auto simp: shard_batch_def second_ok [OF ok i])
qed

lemma CloseWriter_ok:
  assumes "shard_ok s" and "0 \<le> i" "i < sh_num s"
  shows "\<exists>s'. CloseWriter i s = Some s' \<and> docs_of s' = docs_of s \<and> refs_of s' = (refs_of s)[nat i := refs_of s ! nat i - 1]"
  using assms second_ok [OF assms] upd_second_map [of ss_docs "\<lambda>ss. ss\<lparr>ss_ref := ss_ref ss - 1\<rparr>" id s i]
    upd_second_map [of ss_ref "\<lambda>ss. ss\<lparr>ss_ref := ss_ref ss - 1\<rparr>" "\<lambda>n. n - 1" s i]
  by (simp add: CloseWriter_def)

lemma write_group_ok:
  assumes env: "no_faults env" and ok: "shard_ok s" and i: "0 \<le> i" "i < sh_num s"
    and w: "\<forall>e \<in> set docs. writable env (snd e)"
  shows "\<exists>s1 v1 c. write_group env i docs s v = Some (None, s1, v1) \<and> shard_ok s1 \<and> sh_num s1 = sh_num s
    \<and> we_batch env (docs_of s ! nat i) (concat (map (doc_batch env \<circ> snd) (we_order env docs))) = Inr c
    \<and> docs_of s1 = (docs_of s)[nat i := c] \<and> refs_of s1 = (refs_of s)[nat i := refs_of s ! nat i + 1]"
proof -
  let ?b = "concat (map (doc_batch env \<circ> snd) (we_order env docs))"
  obtain s1 where s1: "GetWriter (we_op env) (we_owal env) i s = Some (None, s1)" "shard_ok s1" "sh_num s1 = sh_num s"
      "docs_of s1 = docs_of s" "refs_of s1 = (refs_of s)[nat i := refs_of s ! nat i + 1]"
    using GetWriter_ok [OF env ok i] by blast
  have "\<forall>e \<in> set (we_order env docs). writable env (snd e)" using w env by (simp add: no_faults_def)
  from write_loop_ok [OF this, of "[]" "[]" "[]" s1] obtain ob va s2 where
    s2: "write_loop env (we_order env docs) ([], [], []) s1 = (None, (?b, ob, va), s2)" "sh_shards s2 = sh_shards s1" "sh_num s2 = sh_num s1"
    by auto
  have ok2: "shard_ok s2" using s1(2) s2 by (simp add: shard_ok_def)
  have i2: "i < sh_num s2" using i s1(3) s2(3) by simp
  obtain c where c: "we_batch env (docs_of s2 ! nat i) ?b = Inr c"
      "shard_batch env i ?b s2 = Some (None, upd_second s2 i (\<lambda>ss. ss\<lparr>ss_docs := c\<rparr>))"
    using shard_batch_ok [OF env ok2 i(1) i2] by blast
  obtain v1 where v1: "we_vec env va v = Inr v1" using env unfolding no_faults_def by blast
  let ?s3 = "upd_second s2 i (\<lambda>ss. ss\<lparr>ss_docs := c\<rparr>)"
  have "write_group env i docs s v = Some (None, ?s3, v1)"
    using i s1(1) s2(1) c(2) v1 by (simp add: write_group_def Let_def)
  moreover have "shard_ok ?s3" by (rule upd_second_ok [OF ok2]) simp
  moreover have "docs_of ?s3 = (docs_of s)[nat i := c]" "refs_of ?s3 = refs_of s1"
    using upd_second_map [of ss_docs "\<lambda>ss. ss\<lparr>ss_docs := c\<rparr>" "\<lambda>_. c" s2 i] s1(4) s2(2)
      upd_second_map [of ss_ref "\<lambda>ss. ss\<lparr>ss_docs := c\<rparr>" id s2 i] by simp_all
  ultimately show ?thesis using c(1) s1 s2 by simp
qed

lemma merged_writable:
  assumes "ops \<noteq> []" and "logged_ok (map fst ops) m" and "merged_doc k ops = Some doc"
    and "we_build env k (snd (last ops)) = Inr r"
  shows "writable env doc"
proof -
  have "hd (map fst ops) \<in> {''insert'', ''update'', ''delete'', ''delete_vec_only''}"
    using assms(1) logged_known [OF _ assms(2)] by simp
  then have "merged_action (map fst ops) \<noteq> None" by (auto simp: merged_action_def Let_def)
  with assms show ?thesis by (cases r) (auto simp: writable_def merged_doc_def)
qed

lemma merges_group:
  assumes m: "merges w ops" and d: "map_of w i = Some docs"
  shows "distinct (map fst docs) \<and> (\<forall>k. map_of docs k = merged_doc k (ops_on ops i k))
    \<and> (\<forall>e \<in> set docs. wd_id (snd e) = fst e \<and> ops_on ops i (fst e) \<noteq> [] \<and> merged_doc (fst e) (ops_on ops i (fst e)) = Some (snd e))"
proof -
  have di: "distinct (map fst docs)" using m merge_ok_group [OF _ d] by (simp add: merges_def)
  have at: "map_of docs k = merged_doc k (ops_on ops i k)" for k
    using m d unfolding merges_def doc_at_def by (metis option.simps(5))
  have "wd_id (snd e) = fst e \<and> ops_on ops i (fst e) \<noteq> [] \<and> merged_doc (fst e) (ops_on ops i (fst e)) = Some (snd e)"
    if "e \<in> set docs" for e
    using that di at [of "fst e"] map_of_is_SomeI [OF di, of "fst e" "snd e"] by (auto simp: merged_doc_def split: if_splits)
  with di at show ?thesis by blast
qed

lemma add_all_docs_ok:
  "merges w ops \<Longrightarrow> \<forall>d \<in> set ds. parsed d \<noteq> None \<Longrightarrow>
   \<exists>w'. add_all_docs ds w = Some w' \<and> merges w' (ops @ map (the \<circ> parsed) ds)"
proof (induction ds arbitrary: w ops)
  case (Cons d ds)
  then obtain a k i where p: "op_fields d = Some (a, k, i)" by (auto simp: parsed_def)
  obtain w1 where w1: "AddDocument d w = Some w1" "merges w1 (ops @ [(a, k, i, d)])"
    using merges_Add [OF Cons.prems(1) p] by blast
  from Cons.IH [OF w1(2)] Cons.prems(2) w1(1) p show ?case by (auto simp: parsed_def)
qed simp

text \<open>An environment that stores integers and never fails.\<close>

fun list_added :: "'d bop list \<Rightarrow> (string \<times> 'd) list" where
  "list_added [] = []"
| "list_added (BInsert k d # ops) = (k, d) # list_added ops"
| "list_added (BUpdate k d # ops) = (k, d) # list_added ops"
| "list_added (BDelete k # ops) = list_added ops"

definition list_batch :: "(string \<times> 'd) list \<Rightarrow> 'd bop list \<Rightarrow> error + (string \<times> 'd) list" where
  "list_batch c ops = Inr (filter (\<lambda>e. fst e \<notin> removed ops) c @ list_added ops)"

definition list_view :: "(string \<times> 'd) list \<Rightarrow> string \<Rightarrow> 'd multiset" where
  "list_view c k = mset (map snd (filter (\<lambda>e. fst e = k) c))"

lemma list_batch_ok: "batch_ok (list_view :: (string \<times> 'd) list \<Rightarrow> string \<Rightarrow> 'd multiset) list_batch"
proof -
  have "list_view (list_added ops) k = added ops k" for ops :: "'d bop list" and k
    by (induction ops rule: list_added.induct) (simp_all add: list_view_def)
  moreover have "list_view (a @ b) k = list_view a k + list_view b k" for a b :: "(string \<times> 'd) list" and k
    by (simp add: list_view_def)
  moreover have "list_view (filter (\<lambda>e. fst e \<notin> R) c) k = (if k \<in> R then {#} else list_view c k)" for c :: "(string \<times> 'd) list" and k R
    by (induction c) (auto simp: list_view_def simp del: mset_filter)
  ultimately show ?thesis by (simp add: batch_ok_def list_batch_def)
qed

definition int_env :: "((string \<times> int) list, int, vec_action list) wenv" where
  "int_env = \<lparr>we_build = (\<lambda>k d. Inr (case d ''n'' of Some (JInt n) \<Rightarrow> n | _ \<Rightarrow> 0, [], 1)), we_name = ''ix'', we_vfields = [],
     we_op = (\<lambda>_. None), we_owal = (\<lambda>s. Some (None, s)), we_batch = list_batch, we_vec = (\<lambda>va v. Inr (v @ va)), we_order = (\<lambda>ds. ds)\<rparr>"

definition int_op :: "string \<Rightarrow> string \<Rightarrow> int \<Rightarrow> int \<Rightarrow> jdoc" where
  "int_op a k i n = [''@_action'' \<mapsto> JStr a, ''@_id'' \<mapsto> JStr k, ''@_shard'' \<mapsto> JInt i, ''n'' \<mapsto> JInt n]"

lemma int_env_ok: "no_faults int_env" "batch_ok list_view (we_batch int_env)"
  by (simp_all add: no_faults_def int_env_def list_batch_ok) (simp add: list_batch_def)

lemma WriteToShard_view:
  assumes env: "no_faults env" and batch: "batch_ok view (we_batch env)"
    and ok: "shard_ok s" and i: "i = (if shardID = ShardIDNeedLatest then GetLatestShardID s else shardID)" "0 \<le> i" "i < sh_num s"
    and m: "merges w ops"
    and log: "\<forall>k. ops_on ops shardID k \<noteq> [] \<longrightarrow> logged_ok (map fst (ops_on ops shardID k)) (view (docs_of s ! nat i) k)
      \<and> (\<exists>r. we_build env k (snd (last (ops_on ops shardID k))) = Inr r)"
  shows "\<exists>s' v'. WriteToShard env w shardID s v = Some (None, s', v')
    \<and> (\<forall>k. view (docs_of s' ! nat i) k = ref_ops env k (ops_on ops shardID k) (view (docs_of s ! nat i) k))
    \<and> docs_of s' = (docs_of s)[nat i := docs_of s' ! nat i] \<and> refs_of s' = refs_of s"
proof (cases "map_of w shardID")
  case None
  then have "ops_on ops shardID k = []" for k
    using m by (metis doc_at_def merged_doc_def merges_def option.case(1) option.distinct(1))
  with None show ?thesis by (simp add: WriteToShard_def ref_ops_def)
next
  case (Some docs)
  note g = merges_group [OF m Some]
  have n: "nat i < length (sh_shards s)" using ok i by (simp add: shard_ok_def)
  have "writable env (snd e)" if "e \<in> set docs" for e
    using that g log merged_writable [of "ops_on ops shardID (fst e)" _ "fst e" "snd e" env] by blast
  then obtain s1 v1 c where s1: "write_group env i docs s v = Some (None, s1, v1)" "shard_ok s1" "sh_num s1 = sh_num s"
      "we_batch env (docs_of s ! nat i) (concat (map (doc_batch env \<circ> snd) (we_order env docs))) = Inr c"
      "docs_of s1 = (docs_of s)[nat i := c]" "refs_of s1 = (refs_of s)[nat i := refs_of s ! nat i + 1]"
    using write_group_ok [OF env ok i(2,3), of docs v] by blast
  obtain s' where s': "CloseWriter i s1 = Some s'" "docs_of s' = docs_of s1" "refs_of s' = (refs_of s1)[nat i := refs_of s1 ! nat i - 1]"
    using CloseWriter_ok [OF s1(2) i(2)] i(3) s1(3) by auto
  have run: "WriteToShard env w shardID s v = Some (None, s', v1)"
    using Some s1(1) s'(1) i(1) by (simp add: WriteToShard_def Let_def)
  let ?o = "we_order env docs"
  have o: "distinct (map fst ?o)" "set ?o = set docs" using env g by (auto simp: no_faults_def)
  have mo: "map_of ?o = map_of docs" by (rule map_of_eqI) (use o g in auto)
  have view: "view c k = ref_ops env k (ops_on ops shardID k) (view (docs_of s ! nat i) k)" for k
  proof -
    have "view c k = (if k \<in> removed (concat (map (doc_batch env \<circ> snd) ?o)) then {#} else view (docs_of s ! nat i) k)
        + added (concat (map (doc_batch env \<circ> snd) ?o)) k"
      using batch s1(4) unfolding batch_ok_def by blast
    also have "\<dots> = ref_ops env k (ops_on ops shardID k) (view (docs_of s ! nat i) k)"
      using group_batch [OF o(1), of k env] g log merged_batch [of "ops_on ops shardID k" _ k _ env]
      by (cases "ops_on ops shardID k = []") (auto simp: o(2) mo merged_doc_def ref_ops_def)
    finally show ?thesis .
  qed
  have "refs_of s' = refs_of s" "docs_of s' ! nat i = c" "docs_of s' = (docs_of s)[nat i := c]"
    using s' s1 n by (simp_all add: list_update_same_conv)
  with run view show ?thesis by simp
qed

section \<open>Properties\<close>



end
