(* ===== verification/Wal_Store.thy ===== *)
theory Wal_Store
  imports Redo_Log
begin

text \<open>
  The stores behind the write-ahead log: the interfaces \<^verbatim>\<open>Wal\<close> of \<^verbatim>\<open>pkg/wal/wal.go\<close> and \<^verbatim>\<open>Redo\<close> of
  \<^verbatim>\<open>pkg/wal/redo/redo.go\<close> with the laws their client relies on, and the implementations on an SQL
  database, \<^verbatim>\<open>pkg/wal/mysql\<close> and \<^verbatim>\<open>pkg/wal/pgsql\<close>. The database executes the statements of the source on
  a table, which is the list of its rows; any statement may fail instead (the arguments \<open>db\<close>).
\<close>

section \<open>The log on an SQL table\<close>

type_synonym sql_row = "string \<times> uint64 \<times> byte list"

record sql_wal =
  sw_name :: string
  sw_next :: uint64

definition rows :: "sql_row list \<Rightarrow> string \<Rightarrow> sql_row list" where
  "rows t name = filter (\<lambda>r. fst r = name) t"

definition sql_Len :: "error option \<Rightarrow> sql_wal \<Rightarrow> sql_row list \<Rightarrow> error + uint64" where
  "sql_Len db w t = (case db of Some e \<Rightarrow> Inl e | None \<Rightarrow> Inr (of_nat (length (rows t (sw_name w)))))"

text \<open>No rows is not an error here.\<close>

definition sql_FirstIndex :: "error option \<Rightarrow> sql_wal \<Rightarrow> sql_row list \<Rightarrow> error + uint64" where
  "sql_FirstIndex db w t =
     (case db of Some e \<Rightarrow> Inl e
      | None \<Rightarrow> Inr (case map (fst \<circ> snd) (rows t (sw_name w)) of [] \<Rightarrow> 0 | i # is \<Rightarrow> foldl min i is))"

definition sql_LastIndex :: "error option \<Rightarrow> sql_wal \<Rightarrow> sql_row list \<Rightarrow> error + uint64" where
  "sql_LastIndex db w t =
     (case db of Some e \<Rightarrow> Inl e
      | None \<Rightarrow> Inr (case map (fst \<circ> snd) (rows t (sw_name w)) of [] \<Rightarrow> 0 | i # is \<Rightarrow> foldl max i is))"

definition sql_Write :: "error option \<Rightarrow> uint64 \<Rightarrow> byte list \<Rightarrow> sql_wal \<Rightarrow> sql_row list \<Rightarrow> error option \<times> sql_wal \<times> sql_row list" where
  "sql_Write db idx bs w t =
     (if idx \<noteq> 0 \<and> idx \<noteq> sw_next w then (Some ''out of order'', w, t)
      else let idx = (if idx = 0 then sw_next w else idx) in
        case db of
          Some e \<Rightarrow> (Some e, w, t)
        | None \<Rightarrow> (None, w\<lparr>sw_next := sw_next w + 1\<rparr>, t @ [(sw_name w, idx, bs)]))"

definition sql_Read :: "error option \<Rightarrow> uint64 \<Rightarrow> sql_wal \<Rightarrow> sql_row list \<Rightarrow> error + byte list" where
  "sql_Read db i w t =
     (case db of Some e \<Rightarrow> Inl e
      | None \<Rightarrow> (case filter (\<lambda>r. fst (snd r) = i) (rows t (sw_name w)) of
            [] \<Rightarrow> Inl ''not found''
          | r # _ \<Rightarrow> Inr (snd (snd r))))"

definition sql_TruncateFront :: "error option \<Rightarrow> uint64 \<Rightarrow> sql_wal \<Rightarrow> sql_row list \<Rightarrow> error option \<times> sql_row list" where
  "sql_TruncateFront db i w t =
     (case db of Some e \<Rightarrow> (Some e, t) | None \<Rightarrow> (None, filter (\<lambda>r. \<not> (fst r = sw_name w \<and> fst (snd r) < i)) t))"

section \<open>The redo log on an SQL table\<close>

text \<open>The write is a transaction: \<open>db\<close> are the errors of beginning it, of the count, of the change and of the
  commit. A failed one is rolled back.\<close>

definition sql_redo_Write :: "error option \<times> error option \<times> error option \<times> error option \<Rightarrow> string \<Rightarrow> sql_row list
    \<Rightarrow> uint64 \<Rightarrow> byte list \<Rightarrow> sql_row list \<times> redo_error option" where
  "sql_redo_Write db name t idx bs =
     (case db of
        (Some e, _) \<Rightarrow> (t, Some (ErrIO e))
      | (None, Some e, _) \<Rightarrow> (t, Some (ErrIO e))
      | (None, None, exec, commit) \<Rightarrow>
          let n = length (filter (\<lambda>r. fst r = name \<and> fst (snd r) = idx) t);
              t' = (if n = 0 then t @ [(name, idx, bs)]
                    else map (\<lambda>r. if fst r = name \<and> fst (snd r) = idx then (name, idx, bs) else r) t)
          in case exec of
            Some e \<Rightarrow> (t, Some (ErrIO e))
          | None \<Rightarrow> (case commit of Some e \<Rightarrow> (t, Some (ErrIO e)) | None \<Rightarrow> (t', None)))"

definition sql_redo_Read :: "error option \<Rightarrow> string \<Rightarrow> sql_row list \<Rightarrow> uint64 \<Rightarrow> redo_error + byte list" where
  "sql_redo_Read db name t idx =
     (case db of Some e \<Rightarrow> Inl (ErrIO e)
      | None \<Rightarrow> (case filter (\<lambda>r. fst r = name \<and> fst (snd r) = idx) t of
            [] \<Rightarrow> Inl ErrNotFound
          | r # _ \<Rightarrow> Inr (snd (snd r))))"

section \<open>Opening\<close>

text \<open>
  \<^verbatim>\<open>OpenWal\<close> is called concurrently: the first caller for a name reads the last index while the others wait
  on its channel, and all share the handle. Channels are numbers, \<open>o_closed\<close> are the closed ones. A
  step is what a caller does under one lock of \<^verbatim>\<open>readyMutex\<close>; \<open>None\<close> is a caller that cannot go on. The two
  backends differ in \<open>closes\<close>: only \<^verbatim>\<open>mysql\<close> closes the channel.
\<close>

record open_state =
  o_map :: "string \<rightharpoonup> uint64"
  o_ready :: "string \<rightharpoonup> nat"
  o_closed :: "nat list"
  o_next :: nat

datatype open_pc = Start | Waiting nat | Owner nat | Opened uint64 | Failed error

fun open_step :: "bool \<Rightarrow> string \<Rightarrow> error + uint64 \<Rightarrow> open_pc \<Rightarrow> open_state \<Rightarrow> (open_pc \<times> open_state) option" where
  "open_step closes name lastIndex Start st =
     (case o_map st name of
        Some n \<Rightarrow> Some (Opened n, st)
      | None \<Rightarrow> (case o_ready st name of
            Some ch \<Rightarrow> Some (Waiting ch, st)
          | None \<Rightarrow> Some (Owner (o_next st), st\<lparr>o_ready := (o_ready st)(name \<mapsto> o_next st), o_next := o_next st + 1\<rparr>)))"
| "open_step closes name lastIndex (Waiting ch) st = (if ch \<in> set (o_closed st) then Some (Start, st) else None)"
| "open_step closes name lastIndex (Owner ch) st =
     (let st1 = st\<lparr>o_closed := (if closes then ch # o_closed st else o_closed st), o_ready := (o_ready st)(name := None)\<rparr> in
      case lastIndex of
        Inl e \<Rightarrow> Some (Failed e, st1)
      | Inr n \<Rightarrow> Some (Opened (n + 1), st1\<lparr>o_map := (o_map st)(name \<mapsto> n + 1)\<rparr>))"
| "open_step closes name lastIndex (Opened n) st = None"
| "open_step closes name lastIndex (Failed e) st = None"

definition mysql_OpenWal :: "string \<Rightarrow> error + uint64 \<Rightarrow> open_pc \<Rightarrow> open_state \<Rightarrow> (open_pc \<times> open_state) option" where
  "mysql_OpenWal = open_step True"

definition pgsql_OpenWal :: "string \<Rightarrow> error + uint64 \<Rightarrow> open_pc \<Rightarrow> open_state \<Rightarrow> (open_pc \<times> open_state) option" where
  "pgsql_OpenWal = open_step False"

section \<open>What a client relies on\<close>

text \<open>Operations on a log, and when they are in order: an entry is appended while indexes are left, and only
  entries that exist are truncated away, up to a last one that stays.\<close>

datatype log_op = Append "byte list" | Truncate nat | ReopenLog

fun log_ops_ok :: "nat \<Rightarrow> nat \<Rightarrow> log_op list \<Rightarrow> bool" where
  "log_ops_ok f n [] = True"
| "log_ops_ok f n (Append d # ops) = (n + 2 < 2 ^ 64 \<and> log_ops_ok f (n + 1) ops)"
| "log_ops_ok f n (Truncate i # ops) = (f \<le> i \<and> i \<le> n \<and> log_ops_ok i n ops)"
| "log_ops_ok f n (ReopenLog # ops) = log_ops_ok f n ops"

fun log_appended :: "log_op list \<Rightarrow> byte list list" where
  "log_appended [] = []"
| "log_appended (Append d # ops) = d # log_appended ops"
| "log_appended (Truncate i # ops) = log_appended ops"
| "log_appended (ReopenLog # ops) = log_appended ops"

fun log_first :: "nat \<Rightarrow> log_op list \<Rightarrow> nat" where
  "log_first f [] = f"
| "log_first f (Append d # ops) = log_first f ops"
| "log_first f (Truncate i # ops) = log_first i ops"
| "log_first f (ReopenLog # ops) = log_first f ops"

text \<open>A log holds the entries with consecutive indexes from \<open>first\<close> on; an index is never used again.\<close>

locale wal_log =
  fixes wf :: "'w \<Rightarrow> bool" and first :: "'w \<Rightarrow> nat" and entries :: "'w \<Rightarrow> byte list list"
    and lastIndex :: "'w \<Rightarrow> error + uint64" and readEntry :: "'w \<Rightarrow> uint64 \<Rightarrow> error + byte list"
    and truncateFront :: "'w \<Rightarrow> uint64 \<Rightarrow> error option \<times> 'w" and append :: "'w \<Rightarrow> byte list \<Rightarrow> error option \<times> 'w"
    and reopen :: "'w \<Rightarrow> 'w"
  assumes bound_law: "wf w \<Longrightarrow> 0 < first w \<and> first w + length (entries w) < 2 ^ 64"
    and last_law: "wf w \<Longrightarrow> lastIndex w = Inr (of_nat (first w + length (entries w) - 1))"
    and read_law: "wf w \<Longrightarrow> first w \<le> i \<Longrightarrow> i < first w + length (entries w) \<Longrightarrow>
      readEntry w (of_nat i) = Inr (entries w ! (i - first w))"
    and truncate_law: "wf w \<Longrightarrow> first w \<le> i \<Longrightarrow> i < first w + length (entries w) \<Longrightarrow>
      \<exists>w'. truncateFront w (of_nat i) = (None, w') \<and> wf w' \<and> first w' = i \<and> entries w' = drop (i - first w) (entries w)"
    and append_law: "wf w \<Longrightarrow> first w + length (entries w) + 1 < 2 ^ 64 \<Longrightarrow>
      \<exists>w'. append w d = (None, w') \<and> wf w' \<and> first w' = first w \<and> entries w' = entries w @ [d]"
    and reopen_law: "wf w \<Longrightarrow> wf (reopen w) \<and> first (reopen w) = first w \<and> entries (reopen w) = entries w"
begin

fun log_step :: "'w \<Rightarrow> log_op \<Rightarrow> 'w" where
  "log_step w (Append d) = snd (append w d)"
| "log_step w (Truncate i) = snd (truncateFront w (of_nat i))"
| "log_step w ReopenLog = reopen w"

lemma log_steps:
  "wf w \<Longrightarrow> entries w = drop (first w - 1) h \<Longrightarrow> first w \<le> length h + 1 \<Longrightarrow> log_ops_ok (first w) (length h) ops \<Longrightarrow>
   wf (foldl log_step w ops) \<and> first (foldl log_step w ops) = log_first (first w) ops
     \<and> entries (foldl log_step w ops) = drop (log_first (first w) ops - 1) (h @ log_appended ops)"
proof (induction ops arbitrary: w h)
  case (Cons op ops)
  have f: "0 < first w" using bound_law [OF Cons.prems(1)] by blast
  have n: "first w + length (entries w) = length h + 1" using Cons.prems(2,3) f by simp
  show ?case
  proof (cases op)
    case (Append d)
    with Cons.prems(4) n obtain w' where w': "append w d = (None, w')" "wf w'" "first w' = first w" "entries w' = entries w @ [d]"
      using append_law [OF Cons.prems(1), of d] by auto
    have "entries w' = drop (first w' - 1) (h @ [d])" using w' Cons.prems(2,3) by simp
    from Cons.IH [OF w'(2) this] Append Cons.prems(3,4) w' show ?thesis by simp
  next
    case (Truncate i)
    with Cons.prems(4) n f obtain w' where w': "truncateFront w (of_nat i) = (None, w')" "wf w'" "first w' = i"
        "entries w' = drop (i - first w) (entries w)"
      using truncate_law [OF Cons.prems(1), of i] by auto
    have "entries w' = drop (first w' - 1) h" using w' Cons.prems(2,4) Truncate f by simp
    from Cons.IH [OF w'(2) this] Truncate Cons.prems(4) w' show ?thesis by simp
  next
    case ReopenLog
    with reopen_law [OF Cons.prems(1)] Cons show ?thesis by simp
  qed
qed simp

end

text \<open>A redo log is a map, for values of at most 64 bytes.\<close>

locale redo_store =
  fixes rwf :: "'r \<Rightarrow> bool" and val :: "'r \<Rightarrow> uint64 \<rightharpoonup> byte list"
    and rput :: "'r \<Rightarrow> uint64 \<Rightarrow> byte list \<Rightarrow> 'r \<times> redo_error option" and rget :: "'r \<Rightarrow> uint64 \<Rightarrow> redo_error + byte list"
  assumes put_law: "rwf r \<Longrightarrow> length v \<le> 64 \<Longrightarrow> \<exists>r'. rput r k v = (r', None) \<and> rwf r' \<and> val r' = (val r)(k \<mapsto> v)"
    and get_law: "rwf r \<Longrightarrow> rget r k = (case val r k of None \<Rightarrow> Inl ErrNotFound | Some v \<Rightarrow> Inr v)"

section \<open>The SQL log is a log\<close>

definition sw_first :: "sql_wal \<times> sql_row list \<Rightarrow> nat" where
  "sw_first wt = unat (sw_next (fst wt)) - length (rows (snd wt) (sw_name (fst wt)))"

definition sw_entries :: "sql_wal \<times> sql_row list \<Rightarrow> byte list list" where
  "sw_entries wt = map (snd \<circ> snd) (rows (snd wt) (sw_name (fst wt)))"

definition sw_ok :: "sql_wal \<times> sql_row list \<Rightarrow> bool" where
  "sw_ok wt \<longleftrightarrow> length (rows (snd wt) (sw_name (fst wt))) < unat (sw_next (fst wt))
     \<and> map (fst \<circ> snd) (rows (snd wt) (sw_name (fst wt))) = map of_nat [sw_first wt..<unat (sw_next (fst wt))]
     \<and> (rows (snd wt) (sw_name (fst wt)) = [] \<longrightarrow> sw_next (fst wt) = 1)"

definition sw_last :: "sql_wal \<times> sql_row list \<Rightarrow> error + uint64" where
  "sw_last wt = sql_LastIndex None (fst wt) (snd wt)"

definition sw_read :: "sql_wal \<times> sql_row list \<Rightarrow> uint64 \<Rightarrow> error + byte list" where
  "sw_read wt i = sql_Read None i (fst wt) (snd wt)"

definition sw_truncate :: "sql_wal \<times> sql_row list \<Rightarrow> uint64 \<Rightarrow> error option \<times> sql_wal \<times> sql_row list" where
  "sw_truncate wt i = (case sql_TruncateFront None i (fst wt) (snd wt) of (e, t) \<Rightarrow> (e, fst wt, t))"

definition sw_append :: "sql_wal \<times> sql_row list \<Rightarrow> byte list \<Rightarrow> error option \<times> sql_wal \<times> sql_row list" where
  "sw_append wt d = sql_Write None 0 d (fst wt) (snd wt)"

text \<open>Opening again takes the next index from the table.\<close>

definition sw_reopen :: "sql_wal \<times> sql_row list \<Rightarrow> sql_wal \<times> sql_row list" where
  "sw_reopen wt = (case sw_last wt of Inl _ \<Rightarrow> wt | Inr n \<Rightarrow> ((fst wt)\<lparr>sw_next := n + 1\<rparr>, snd wt))"

lemma unat64_less: "unat (w :: uint64) < 2 ^ 64"
  using unsigned_less [of w] by simp

lemma unat_of_nat64: "i < 2 ^ 64 \<Longrightarrow> unat (of_nat i :: uint64) = i"
  by (simp add: unat_of_nat take_bit_nat_eq_self_iff)

lemma of_nat64_less: "i < 2 ^ 64 \<Longrightarrow> j < 2 ^ 64 \<Longrightarrow> (of_nat i :: uint64) < of_nat j \<longleftrightarrow> i < j"
  by (simp add: word_less_nat_alt unat_of_nat64)

lemma of_nat64_eq: "i < 2 ^ 64 \<Longrightarrow> j < 2 ^ 64 \<Longrightarrow> (of_nat i :: uint64) = of_nat j \<longleftrightarrow> i = j"
  by (metis unat_of_nat64)

lemma foldl_max_upt: "a < b \<Longrightarrow> b \<le> 2 ^ 64 \<Longrightarrow> foldl max (of_nat a) (map of_nat [Suc a..<b]) = (of_nat (b - 1) :: uint64)"
proof (induction b)
  case (Suc b)
  show ?case
  proof (cases "a = b")
    case False
    with Suc.prems have "(of_nat (b - 1) :: uint64) < of_nat b" by (intro of_nat64_less [THEN iffD2]) auto
    then have "max (of_nat (b - 1) :: uint64) (of_nat b) = of_nat b" by (simp only: max_def less_imp_le if_True)
    with False Suc show ?thesis by simp
  qed simp
qed simp

lemma upt_rows:
  assumes "map (f \<circ> g) rs = map of_nat [a..<b]" "b \<le> 2 ^ 64" "j < length rs" "i < 2 ^ 64"
  shows "f (g (rs ! j)) = (of_nat i :: uint64) \<longleftrightarrow> a + j = i" "f (g (rs ! j)) < (of_nat i :: uint64) \<longleftrightarrow> a + j < i"
proof -
  have len: "length rs = b - a" using arg_cong [OF assms(1), of length] by simp
  then have b: "a + j < 2 ^ 64" using assms by linarith
  have "f (g (rs ! j)) = of_nat (a + j)" using arg_cong [OF assms(1), of "\<lambda>xs. xs ! j"] assms(3) len by simp
  then show "f (g (rs ! j)) = (of_nat i :: uint64) \<longleftrightarrow> a + j = i" "f (g (rs ! j)) < (of_nat i :: uint64) \<longleftrightarrow> a + j < i"
    by (simp_all only: of_nat64_eq [OF b assms(4)] of_nat64_less [OF b assms(4)])
qed

lemma filter_upt_single:
  assumes "map (f \<circ> g) rs = map of_nat [a..<b]" "a \<le> i" "i < b" "b \<le> 2 ^ 64"
  shows "filter (\<lambda>r. f (g r) = (of_nat i :: uint64)) rs = [rs ! (i - a)]"
proof -
  have len: "length rs = b - a" using arg_cong [OF assms(1), of length] by simp
  have i: "i < 2 ^ 64" using assms by linarith
  note at = upt_rows(1) [OF assms(1,4) _ i]
  have "rs = take (i - a) rs @ rs ! (i - a) # drop (Suc (i - a)) rs"
    using assms len by (intro id_take_nth_drop) linarith
  moreover have "filter (\<lambda>r. f (g r) = (of_nat i :: uint64)) (take (i - a) rs) = []"
    "filter (\<lambda>r. f (g r) = (of_nat i :: uint64)) (drop (Suc (i - a)) rs) = []"
    using assms len at by (auto simp: filter_empty_conv in_set_conv_nth)
  moreover have "f (g (rs ! (i - a))) = of_nat i" using at [of "i - a"] assms len by simp
  ultimately show ?thesis by (metis (mono_tags, lifting) append_Nil filter.simps(2) filter_append)
qed

lemma filter_upt_ge:
  assumes "map (f \<circ> g) rs = map of_nat [a..<b]" "a \<le> i" "i < b" "b \<le> 2 ^ 64"
  shows "filter (\<lambda>r. \<not> f (g r) < (of_nat i :: uint64)) rs = drop (i - a) rs"
proof -
  have len: "length rs = b - a" using arg_cong [OF assms(1), of length] by simp
  have i: "i < 2 ^ 64" using assms by linarith
  note at = upt_rows(2) [OF assms(1,4) _ i]
  have "filter (\<lambda>r. \<not> f (g r) < (of_nat i :: uint64)) (take (i - a) rs) = []"
    using assms len at by (auto simp: filter_empty_conv in_set_conv_nth)
  moreover have "filter (\<lambda>r. \<not> f (g r) < (of_nat i :: uint64)) (drop (i - a) rs) = drop (i - a) rs"
    using assms len at by (auto simp: filter_id_conv in_set_conv_nth)
  ultimately show ?thesis by (metis append_Nil append_take_drop_id filter_append)
qed

lemma sw_append_ok:
  assumes ok: "sw_ok (w, t)" and b: "sw_first (w, t) + length (sw_entries (w, t)) + 1 < 2 ^ 64"
  shows "\<exists>wt'. sw_append (w, t) d = (None, wt') \<and> sw_ok wt' \<and> sw_first wt' = sw_first (w, t) \<and> sw_entries wt' = sw_entries (w, t) @ [d]"
proof -
  let ?rs = "rows t (sw_name w)" and ?n = "unat (sw_next w)"
  let ?w = "w\<lparr>sw_next := sw_next w + 1\<rparr>" and ?t = "t @ [(sw_name w, sw_next w, d)]"
  have len: "length ?rs < ?n" and idx: "map (fst \<circ> snd) ?rs = map of_nat [sw_first (w, t)..<?n]" using ok by (auto simp: sw_ok_def)
  have f: "sw_first (w, t) = ?n - length ?rs" by (simp add: sw_first_def)
  have n: "?n + 1 < 2 ^ 64" using b len by (simp add: sw_first_def sw_entries_def)
  then have n1: "unat (sw_next w + 1) = Suc ?n" by (simp add: unat_word_ariths)
  have rs: "rows ?t (sw_name w) = ?rs @ [(sw_name w, sw_next w, d)]" by (simp add: rows_def)
  have f1: "sw_first (?w, ?t) = sw_first (w, t)" using len by (simp add: sw_first_def rs n1)
  have "map (fst \<circ> snd) (rows ?t (sw_name w)) = map of_nat [sw_first (w, t)..<Suc ?n]"
    using idx f by (simp add: rs)
  then have "sw_ok (?w, ?t)" unfolding sw_ok_def using len by (simp add: f1 n1 rs)
  moreover have "sw_append (w, t) d = (None, ?w, ?t)" by (simp add: sw_append_def sql_Write_def)
  moreover have "sw_entries (?w, ?t) = sw_entries (w, t) @ [d]" by (simp add: sw_entries_def rs)
  ultimately show ?thesis using f1 by blast
qed

lemma sw_truncate_ok:
  assumes ok: "sw_ok (w, t)" and i: "sw_first (w, t) \<le> i" "i < sw_first (w, t) + length (sw_entries (w, t))"
  shows "\<exists>wt'. sw_truncate (w, t) (of_nat i) = (None, wt') \<and> sw_ok wt' \<and> sw_first wt' = i
    \<and> sw_entries wt' = drop (i - sw_first (w, t)) (sw_entries (w, t))"
proof -
  let ?rs = "rows t (sw_name w)" and ?n = "unat (sw_next w)" and ?a = "sw_first (w, t)"
  define t' where "t' = filter (\<lambda>r. \<not> (fst r = sw_name w \<and> fst (snd r) < of_nat i)) t"
  have len: "length ?rs < ?n" and idx: "map (fst \<circ> snd) ?rs = map of_nat [?a..<?n]" using ok by (auto simp: sw_ok_def)
  have f: "?a = ?n - length ?rs" by (simp add: sw_first_def)
  have n: "?n \<le> 2 ^ 64" using unat64_less [of "sw_next w"] by simp
  have i': "i < ?n" using i len by (simp add: sw_first_def sw_entries_def)
  have "rows t' (sw_name w) = filter (\<lambda>r. \<not> fst (snd r) < of_nat i) ?rs"
    unfolding t'_def rows_def filter_filter by (rule filter_cong) auto
  also have "\<dots> = drop (i - ?a) ?rs" by (rule filter_upt_ge [OF idx i(1) i' n])
  finally have rs: "rows t' (sw_name w) = drop (i - ?a) ?rs" .
  have f1: "sw_first (w, t') = i" using i i' f len by (simp add: sw_first_def rs)
  have "map (fst \<circ> snd) (rows t' (sw_name w)) = map of_nat [i..<?n]"
    unfolding rs drop_map [symmetric] idx using i(1) by (simp add: drop_map)
  moreover have "rows t' (sw_name w) \<noteq> []" using i by (simp add: rs sw_entries_def)
  moreover have "length (rows t' (sw_name w)) < ?n" using len by (simp add: rs)
  ultimately have "sw_ok (w, t')" by (simp add: sw_ok_def f1)
  moreover have "sw_truncate (w, t) (of_nat i) = (None, w, t')" by (simp add: sw_truncate_def sql_TruncateFront_def t'_def)
  moreover have "sw_entries (w, t') = drop (i - ?a) (sw_entries (w, t))" by (simp add: sw_entries_def rs drop_map)
  ultimately show ?thesis using f1 by blast
qed

lemma sw_last_ok:
  assumes ok: "sw_ok (w, t)"
  shows "sw_last (w, t) = Inr (of_nat (sw_first (w, t) + length (sw_entries (w, t)) - 1))"
proof -
  let ?rs = "rows t (sw_name w)" and ?n = "unat (sw_next w)" and ?a = "sw_first (w, t)"
  have len: "length ?rs < ?n" and idx: "map (fst \<circ> snd) ?rs = map of_nat [?a..<?n]"
    and emp: "?rs = [] \<longrightarrow> sw_next w = 1" using ok by (auto simp: sw_ok_def)
  have n: "?n \<le> 2 ^ 64" using unat64_less [of "sw_next w"] by simp
  have sum: "?a + length (sw_entries (w, t)) = ?n" using len by (simp add: sw_first_def sw_entries_def)
  show ?thesis
  proof (cases "?rs = []")
    case True
    with emp show ?thesis by (simp add: sw_last_def sql_LastIndex_def sum)
  next
    case False
    then have "?a < ?n" using len by (simp add: sw_first_def)
    then have "map (fst \<circ> snd) ?rs = of_nat ?a # map of_nat [Suc ?a..<?n]" by (simp add: idx upt_conv_Cons)
    with foldl_max_upt [OF \<open>?a < ?n\<close> n] show ?thesis by (simp add: sw_last_def sql_LastIndex_def sum)
  qed
qed

interpretation sw: wal_log sw_ok sw_first sw_entries sw_last sw_read sw_truncate sw_append sw_reopen
proof
  fix wt :: "sql_wal \<times> sql_row list" and i :: nat and d :: "byte list"
  obtain w t where wt: "wt = (w, t)" by (cases wt)
  assume ok: "sw_ok wt"
  show "0 < sw_first wt \<and> sw_first wt + length (sw_entries wt) < 2 ^ 64"
    using ok unat64_less [of "sw_next w"] by (simp add: wt sw_ok_def sw_first_def sw_entries_def)
  show "sw_last wt = Inr (of_nat (sw_first wt + length (sw_entries wt) - 1))"
    using sw_last_ok [of w t] ok by (simp add: wt)
  then have "sw_reopen wt = wt"
    using ok by (simp add: sw_reopen_def wt sw_ok_def sw_first_def sw_entries_def)
  with ok show "sw_ok (sw_reopen wt) \<and> sw_first (sw_reopen wt) = sw_first wt \<and> sw_entries (sw_reopen wt) = sw_entries wt" by simp
  show "\<exists>wt'. sw_append wt d = (None, wt') \<and> sw_ok wt' \<and> sw_first wt' = sw_first wt \<and> sw_entries wt' = sw_entries wt @ [d]"
    if "sw_first wt + length (sw_entries wt) + 1 < 2 ^ 64" using sw_append_ok [of w t d] ok that unfolding wt by blast
  assume i: "sw_first wt \<le> i" "i < sw_first wt + length (sw_entries wt)"
  show "\<exists>wt'. sw_truncate wt (of_nat i) = (None, wt') \<and> sw_ok wt' \<and> sw_first wt' = i \<and> sw_entries wt' = drop (i - sw_first wt) (sw_entries wt)"
    using sw_truncate_ok [of w t i] ok i unfolding wt by blast
  let ?rs = "rows t (sw_name w)" and ?n = "unat (sw_next w)"
  have idx: "map (fst \<circ> snd) ?rs = map of_nat [sw_first (w, t)..<?n]" and len: "length ?rs < ?n" using ok by (auto simp: wt sw_ok_def)
  have "i < ?n" using i len by (simp add: wt sw_first_def sw_entries_def)
  moreover have "i - sw_first (w, t) < length ?rs" using i len by (simp add: wt sw_first_def sw_entries_def)
  ultimately show "sw_read wt (of_nat i) = Inr (sw_entries wt ! (i - sw_first wt))"
    using filter_upt_single [OF idx, of i] i(1) unat64_less [of "sw_next w"]
    by (simp add: wt sw_read_def sql_Read_def sw_entries_def)
qed

section \<open>Both redo logs are maps\<close>

definition disk_val :: "redo_log \<Rightarrow> uint64 \<rightharpoonup> byte list" where
  "disk_val l k = (case Read l k of Inl _ \<Rightarrow> None | Inr v \<Rightarrow> Some v)"

definition disk_ok :: "redo_log \<Rightarrow> bool" where
  "disk_ok l \<longleftrightarrow> (\<exists>rs. represents l rs)"

lemma disk_val_contents: "represents l rs \<Longrightarrow> disk_val l = contents rs"
  by (simp add: fun_eq_iff disk_val_def Read_contents split: option.split)

interpretation disk_redo: redo_store disk_ok disk_val "Write (None, None) False" Read
proof
  fix l :: redo_log and v :: "byte list" and k :: uint64
  assume ok: "disk_ok l"
  then obtain rs where rs: "represents l rs" by (auto simp: disk_ok_def)
  show "\<exists>l'. Write (None, None) False l k v = (l', None) \<and> disk_ok l' \<and> disk_val l' = (disk_val l)(k \<mapsto> v)" if v: "length v \<le> 64"
  proof -
    obtain rs' where rs': "represents (redo_write l k v) rs'" "contents rs' = (contents rs)(k \<mapsto> v)"
      using redo.put_law [OF rs, of k v] v by auto
    have "snd (Write (None, None) False l k v) = None"
      using v by (simp add: Write_def ValueFixedLength_def Let_def)
    then have "Write (None, None) False l k v = (redo_write l k v, None)" by (simp add: redo_write_def prod_eq_iff)
    moreover have "disk_ok (redo_write l k v)" using rs'(1) by (auto simp: disk_ok_def)
    moreover have "disk_val (redo_write l k v) = (disk_val l)(k \<mapsto> v)"
      by (simp only: disk_val_contents [OF rs'(1)] disk_val_contents [OF rs] rs'(2))
    ultimately show ?thesis by blast
  qed
  show "Read l k = (case disk_val l k of None \<Rightarrow> Inl ErrNotFound | Some v \<Rightarrow> Inr v)"
    by (simp add: Read_contents [OF rs] disk_val_contents [OF rs])
qed

definition sql_val :: "string \<Rightarrow> sql_row list \<Rightarrow> uint64 \<rightharpoonup> byte list" where
  "sql_val name t k = (case sql_redo_Read None name t k of Inl _ \<Rightarrow> None | Inr v \<Rightarrow> Some v)"

interpretation sql_redo: redo_store "\<lambda>_. True" "sql_val name" "sql_redo_Write (None, None, None, None) name" "sql_redo_Read None name" for name
proof
  fix t :: "sql_row list" and v :: "byte list" and k :: uint64
  show "sql_redo_Read None name t k = (case sql_val name t k of None \<Rightarrow> Inl ErrNotFound | Some v \<Rightarrow> Inr v)"
    by (simp add: sql_val_def sql_redo_Read_def split: list.split)
  let ?P = "\<lambda>k' (r :: sql_row). fst r = name \<and> fst (snd r) = k'"
  let ?f = "\<lambda>r. if ?P k r then (name, k, v) else r"
  have "filter (?P k') (map ?f t) = map ?f (filter (?P k') t)" for k' by (induction t) auto
  moreover have "map ?f (filter (?P k') t) = (if k' = k then map (\<lambda>_. (name, k, v)) (filter (?P k) t) else filter (?P k') t)" for k'
    by (induction t) auto
  ultimately have "sql_val name (map ?f t) = (sql_val name t)(k \<mapsto> v)" if "filter (?P k) t \<noteq> []"
    using that by (auto simp: fun_eq_iff sql_val_def sql_redo_Read_def split: list.split)
  moreover have "sql_val name (t @ [(name, k, v)]) = (sql_val name t)(k \<mapsto> v)" if "filter (?P k) t = []"
    using that by (auto simp: fun_eq_iff sql_val_def sql_redo_Read_def split: list.split)
  ultimately show "\<exists>t'. sql_redo_Write (None, None, None, None) name t k v = (t', None) \<and> True \<and> sql_val name t' = (sql_val name t)(k \<mapsto> v)"
    by (simp add: sql_redo_Write_def Let_def)
qed

section \<open>Concurrent opening\<close>

inductive open_reach :: "bool \<Rightarrow> ('t \<Rightarrow> string) \<Rightarrow> ('t \<Rightarrow> open_pc) \<Rightarrow> open_state \<Rightarrow> bool" for closes nm where
  open_init: "open_reach closes nm (\<lambda>_. Start) \<lparr>o_map = Map.empty, o_ready = Map.empty, o_closed = [], o_next = 0\<rparr>"
| open_next: "open_reach closes nm pc st \<Longrightarrow> open_step closes (nm t) r (pc t) st = Some (p, st') \<Longrightarrow> open_reach closes nm (pc(t := p)) st'"

definition open_inv :: "('t \<Rightarrow> string) \<Rightarrow> ('t \<Rightarrow> open_pc) \<Rightarrow> open_state \<Rightarrow> bool" where
  "open_inv nm pc st \<longleftrightarrow>
     (\<forall>t ch. pc t = Owner ch \<longrightarrow> o_ready st (nm t) = Some ch)
     \<and> (\<forall>n ch. o_ready st n = Some ch \<longrightarrow> ch < o_next st \<and> o_map st n = None \<and> (\<exists>t. nm t = n \<and> pc t = Owner ch))
     \<and> (\<forall>t t' ch. pc t = Owner ch \<and> pc t' = Owner ch \<longrightarrow> t = t')
     \<and> (\<forall>t n. pc t = Opened n \<longrightarrow> o_map st (nm t) = Some n)"

lemma open_invD:
  assumes "open_inv nm pc st"
  shows "pc t = Owner ch \<Longrightarrow> o_ready st (nm t) = Some ch" "o_ready st n = Some ch \<Longrightarrow> ch < o_next st"
    "o_ready st n = Some ch \<Longrightarrow> o_map st n = None" "o_ready st n = Some ch \<Longrightarrow> \<exists>t. nm t = n \<and> pc t = Owner ch"
    "pc t = Owner ch \<Longrightarrow> pc t' = Owner ch \<Longrightarrow> t = t'" "pc t = Opened i \<Longrightarrow> o_map st (nm t) = Some i"
  using assms unfolding open_inv_def by blast+

lemma open_invI:
  assumes "\<And>t ch. pc t = Owner ch \<Longrightarrow> o_ready st (nm t) = Some ch"
    and "\<And>n ch. o_ready st n = Some ch \<Longrightarrow> ch < o_next st \<and> o_map st n = None \<and> (\<exists>t. nm t = n \<and> pc t = Owner ch)"
    and "\<And>t t' ch. pc t = Owner ch \<Longrightarrow> pc t' = Owner ch \<Longrightarrow> t = t'" and "\<And>t n. pc t = Opened n \<Longrightarrow> o_map st (nm t) = Some n"
  shows "open_inv nm pc st"
  unfolding open_inv_def using assms by blast

lemma open_inv_pc:
  assumes inv: "open_inv nm pc st" and t: "\<And>ch. pc t \<noteq> Owner ch" "\<And>ch. p \<noteq> Owner ch" "\<And>n. p = Opened n \<Longrightarrow> o_map st (nm t) = Some n"
  shows "open_inv nm (pc(t := p)) st"
proof (rule open_invI)
  fix n ch
  assume r: "o_ready st n = Some ch"
  obtain u where "nm u = n" "pc u = Owner ch" using open_invD(4) [OF inv r] by blast
  with t(1) open_invD(2,3) [OF inv r] show "ch < o_next st \<and> o_map st n = None \<and> (\<exists>u. nm u = n \<and> (pc(t := p)) u = Owner ch)"
    by (auto intro!: exI [of _ u])
qed (use t open_invD(1,5,6) [OF inv] in \<open>auto split: if_splits\<close>)

lemma open_inv_step:
  assumes inv: "open_inv nm pc st" and step: "open_step closes (nm t) r (pc t) st = Some (p, st')"
  shows "open_inv nm (pc(t := p)) st'"
proof (cases "pc t")
  case Start
  show ?thesis
  proof (cases "o_map st (nm t)")
    case (Some n)
    with step Start have "p = Opened n" "st' = st" by auto
    with inv Some Start show ?thesis by (auto intro!: open_inv_pc)
  next
    case None
    show ?thesis
    proof (cases "o_ready st (nm t)")
      case (Some ch)
      with step Start None have "p = Waiting ch" "st' = st" by auto
      with inv Start show ?thesis by (auto intro!: open_inv_pc)
    next
      case no: None
      with step Start None have p: "p = Owner (o_next st)"
        "st' = st\<lparr>o_ready := (o_ready st)(nm t \<mapsto> o_next st), o_next := o_next st + 1\<rparr>" by auto
      have fresh: "pc u \<noteq> Owner (o_next st)" for u using open_invD(1,2) [OF inv] by blast
      have other: "nm u \<noteq> nm t" if "pc u = Owner ch" for u ch using open_invD(1) [OF inv that] no by auto
      show ?thesis
      proof (rule open_invI)
        fix n ch
        assume r: "o_ready st' n = Some ch"
        show "ch < o_next st' \<and> o_map st' n = None \<and> (\<exists>u. nm u = n \<and> (pc(t := p)) u = Owner ch)"
        proof (cases "n = nm t")
          case True
          with r None show ?thesis by (auto simp: p)
        next
          case False
          with r have r': "o_ready st n = Some ch" by (simp add: p)
          obtain u where "nm u = n" "pc u = Owner ch" using open_invD(4) [OF inv r'] by blast
          with Start open_invD(2,3) [OF inv r'] show ?thesis by (auto simp: p intro!: exI [of _ u])
        qed
      next
        show "o_ready st' (nm u) = Some c" if "(pc(t := p)) u = Owner c" for u c
          using that other [of u c] open_invD(1) [OF inv, of u c] by (auto simp: p split: if_splits)
        show "u = v" if "(pc(t := p)) u = Owner c" "(pc(t := p)) v = Owner c" for u v c
          using that open_invD(5) [OF inv, of u c v] fresh [of u] fresh [of v] by (auto simp: p split: if_splits)
        show "o_map st' (nm u) = Some i" if "(pc(t := p)) u = Opened i" for u i
          using that open_invD(6) [OF inv, of u i] by (auto simp: p split: if_splits)
      qed
    qed
  qed
next
  case (Waiting ch)
  with step have "p = Start" "st' = st" by (auto split: if_splits)
  with inv Waiting show ?thesis by (auto intro!: open_inv_pc)
next
  case (Owner ch)
  have r: "o_ready st (nm t) = Some ch" by (rule open_invD(1) [OF inv Owner])
  have m: "o_map st (nm t) = None" by (rule open_invD(3) [OF inv r])
  have own: "nm u \<noteq> nm t" if u: "pc u = Owner c" "u \<noteq> t" for u c
  proof
    assume "nm u = nm t"
    then have "c = ch" using open_invD(1) [OF inv u(1)] r by simp
    with u open_invD(5) [OF inv _ Owner] show False by blast
  qed
  have opn: "nm u \<noteq> nm t" if "pc u = Opened i" for u i using open_invD(6) [OF inv that] m by auto
  have st': "o_ready st' = (o_ready st)(nm t := None)" "o_next st' = o_next st" "\<And>n. n \<noteq> nm t \<Longrightarrow> o_map st' n = o_map st n"
    and p: "p \<noteq> Owner c" "\<And>i. p = Opened i \<Longrightarrow> o_map st' (nm t) = Some i" for c
    using step Owner by (auto simp: Let_def split: sum.splits)
  show ?thesis
  proof (rule open_invI)
    fix n c
    assume "o_ready st' n = Some c"
    then have n: "n \<noteq> nm t" and r': "o_ready st n = Some c" by (auto simp: st'(1) split: if_splits)
    obtain u where "nm u = n" "pc u = Owner c" using open_invD(4) [OF inv r'] by blast
    with n st' open_invD(2,3) [OF inv r'] show "c < o_next st' \<and> o_map st' n = None \<and> (\<exists>u. nm u = n \<and> (pc(t := p)) u = Owner c)"
      by (auto intro!: exI [of _ u])
  next
    show "o_ready st' (nm u) = Some c" if "(pc(t := p)) u = Owner c" for u c
      using that own [of u c] open_invD(1) [OF inv, of u c] by (auto simp: st'(1) p(1) split: if_splits)
    show "u = v" if "(pc(t := p)) u = Owner c" "(pc(t := p)) v = Owner c" for u v c
      using that open_invD(5) [OF inv, of u c v] by (auto simp: p(1) split: if_splits)
    show "o_map st' (nm u) = Some i" if u: "(pc(t := p)) u = Opened i" for u i
    proof (cases "u = t")
      case False
      with u have "pc u = Opened i" by simp
      with opn [OF this] open_invD(6) [OF inv this] show ?thesis by (simp add: st'(3))
    qed (use u p(2) in simp)
  qed
qed (use step in auto)

lemma open_reach_inv: "open_reach closes nm pc st \<Longrightarrow> open_inv nm pc st"
proof (induction rule: open_reach.induct)
  case open_init
  show ?case by (simp add: open_inv_def)
next
  case (open_next pc st t r p st')
  then show ?case by (intro open_inv_step)
qed

lemma pgsql_never_closes: "open_reach False nm pc st \<Longrightarrow> o_closed st = []"
proof (induction rule: open_reach.induct)
  case (open_next pc st t r p st')
  then show ?case by (cases "pc t") (auto simp: Let_def split: option.splits sum.splits if_splits)
qed simp

lemma mysql_waiting:
  "open_reach True nm pc st \<Longrightarrow> pc t = Waiting ch \<Longrightarrow> ch \<in> set (o_closed st) \<or> o_ready st (nm t) = Some ch"
proof (induction arbitrary: t ch rule: open_reach.induct)
  case (open_next pc st u r p st')
  note inv = open_reach_inv [OF open_next.hyps(1)]
  show ?case
  proof (cases "pc u")
    case (Owner c)
    have "o_ready st (nm u) = Some c" by (rule open_invD(1) [OF inv Owner])
    moreover have "set (o_closed st') = insert c (set (o_closed st))" "o_ready st' = (o_ready st)(nm u := None)" "p \<noteq> Waiting ch"
      using open_next.hyps(2) Owner by (auto simp: Let_def split: sum.splits)
    moreover have "t \<noteq> u" "pc t = Waiting ch" using open_next.prems calculation(4) by (auto split: if_splits)
    ultimately show ?thesis using open_next.IH [of t ch] by (cases "nm t = nm u") auto
  next
    case Start
    have "set (o_closed st') = set (o_closed st)" "o_ready st x = Some d \<Longrightarrow> o_ready st' x = Some d" "p = Waiting d \<Longrightarrow> o_ready st (nm u) = Some d" for x d
      using open_next.hyps(2) Start by (auto split: option.splits if_splits)
    then show ?thesis using open_next.prems open_next.IH [of t ch] by (cases "t = u") auto
  next
    case (Waiting c)
    have "st' = st" "p = Start" using open_next.hyps(2) Waiting by (auto split: if_splits)
    then show ?thesis using open_next.prems open_next.IH [of t ch] by (cases "t = u") auto
  qed (use open_next.hyps(2) in auto)
qed simp

section \<open>Properties\<close>

definition sql_step :: "sql_wal \<times> sql_row list \<Rightarrow> log_op \<Rightarrow> sql_wal \<times> sql_row list" where
  "sql_step wt op = (case op of Append d \<Rightarrow> snd (sw_append wt d) | Truncate i \<Rightarrow> snd (sw_truncate wt (of_nat i)) | ReopenLog \<Rightarrow> sw_reopen wt)"

text \<open>C18: the log on an SQL table keeps what is written. Whatever entries are appended, truncated away and
  however often the log is opened again, and whatever rows of other logs the table has, the entry
  appended as the \<open>i\<close>-th is read under the index \<open>i\<close> until it is truncated away, and the last index is the
  number of entries appended so far.\<close>

theorem sql_wal_history:
  assumes "rows t name = []" and "log_ops_ok 1 0 ops"
  shows "sw_last (foldl sql_step (\<lparr>sw_name = name, sw_next = 1\<rparr>, t) ops) = Inr (of_nat (length (log_appended ops)))
    \<and> (\<forall>i. log_first 1 ops \<le> i \<and> i \<le> length (log_appended ops) \<longrightarrow>
         sw_read (foldl sql_step (\<lparr>sw_name = name, sw_next = 1\<rparr>, t) ops) (of_nat i) = Inr (log_appended ops ! (i - 1)))"
proof -
  let ?wt = "(\<lparr>sw_name = name, sw_next = 1\<rparr>, t)" and ?h = "log_appended ops" and ?f = "log_first 1 ops"
  have "sql_step wt op = sw.log_step wt op" for wt op by (cases op) (simp_all add: sql_step_def)
  then have st: "sql_step = sw.log_step" by (intro ext)
  have ok: "sw_ok ?wt" "sw_first ?wt = 1" "sw_entries ?wt = []" using assms(1) by (simp_all add: sw_ok_def sw_first_def sw_entries_def)
  define w where "w = foldl sql_step ?wt ops"
  have w: "sw_ok w" "sw_first w = ?f" "sw_entries w = drop (?f - 1) ?h"
    using sw.log_steps [OF ok(1), of "[]" ops] ok assms(2) by (simp_all add: w_def st)
  have bounds: "1 \<le> f \<Longrightarrow> f \<le> n + 1 \<Longrightarrow> log_ops_ok f n os \<Longrightarrow> 1 \<le> log_first f os \<and> log_first f os \<le> n + length (log_appended os) + 1" for f n os
    by (induction f n os rule: log_ops_ok.induct) auto
  have f: "1 \<le> ?f" "?f \<le> length ?h + 1" using bounds [of 1 0 ops] assms(2) by auto
  have "sw_last w = Inr (of_nat (length ?h))" using sw.last_law [OF w(1)] w f by simp
  moreover have "sw_read w (of_nat i) = Inr (?h ! (i - 1))" if "?f \<le> i" "i \<le> length ?h" for i
    using sw.read_law [OF w(1), of i] w f that by simp
  ultimately show ?thesis by (simp add: w_def)
qed

theorem sql_wal_history_witness:
  "sw_last (foldl sql_step (\<lparr>sw_name = ''a'', sw_next = 1\<rparr>, [(''b'', 7, [1])]) [Append [1], Append [2], Truncate 2, ReopenLog, Append [3]]) = Inr 3
   \<and> sw_read (foldl sql_step (\<lparr>sw_name = ''a'', sw_next = 1\<rparr>, [(''b'', 7, [1])]) [Append [1], Append [2], Truncate 2, ReopenLog, Append [3]]) 3 = Inr [3]"
  using sql_wal_history [of "[(''b'', 7, [1])]" "''a''" "[Append [1], Append [2], Truncate 2, ReopenLog, Append [3]]"]
  by (auto simp: rows_def dest: spec [of _ 3])

text \<open>C20: opening a log concurrently. In every state that concurrent calls of \<^verbatim>\<open>OpenWal\<close> can reach, at most one
  caller for a name is reading the last index, and all callers that have the log of a name have the
  same handle; with the MySQL backend a caller that has not returned can always go on, or waits for
  the one that reads the index, which can.\<close>

theorem OpenWal_shared:
  assumes "open_reach True nm pc st"
  shows "(pc t = Owner ch \<and> pc u = Owner ch' \<and> nm t = nm u \<longrightarrow> t = u)
    \<and> (pc t = Opened i \<and> pc u = Opened j \<and> nm t = nm u \<longrightarrow> i = j)
    \<and> ((\<forall>i. pc t \<noteq> Opened i) \<and> (\<forall>e. pc t \<noteq> Failed e) \<longrightarrow>
        (\<exists>v. nm v = nm t \<and> (\<forall>r. mysql_OpenWal (nm v) r (pc v) st \<noteq> None)))"
proof -
  note inv = open_reach_inv [OF assms]
  have "\<exists>v. nm v = nm t \<and> (\<forall>r. mysql_OpenWal (nm v) r (pc v) st \<noteq> None)"
    if nf: "\<forall>i. pc t \<noteq> Opened i" "\<forall>e. pc t \<noteq> Failed e"
  proof (cases "pc t")
    case (Waiting ch)
    show ?thesis
    proof (cases "ch \<in> set (o_closed st)")
      case True
      with Waiting show ?thesis by (auto simp: mysql_OpenWal_def intro!: exI [of _ t])
    next
      case False
      with mysql_waiting [OF assms Waiting] have "o_ready st (nm t) = Some ch" by blast
      then obtain v where "nm v = nm t" "pc v = Owner ch" using open_invD(4) [OF inv] by blast
      then show ?thesis by (auto simp: mysql_OpenWal_def Let_def intro!: exI [of _ v] split: sum.split)
    qed
  qed (use nf in \<open>auto simp: mysql_OpenWal_def Let_def intro!: exI [of _ t] split: sum.split option.split\<close>)
  moreover have "t = u" if o: "pc t = Owner ch" "pc u = Owner ch'" "nm t = nm u"
  proof -
    have "ch = ch'" using open_invD(1) [OF inv o(1)] open_invD(1) [OF inv o(2)] o(3) by simp
    with o show ?thesis using open_invD(5) [OF inv o(1), of u] by blast
  qed
  moreover have "i = j" if "pc t = Opened i" "pc u = Opened j" "nm t = nm u"
    using open_invD(6) [OF inv that(1)] open_invD(6) [OF inv that(2)] that by simp
  ultimately show ?thesis by blast
qed

lemma open_reach_waiter:
  "open_reach closes (\<lambda>_ :: nat. ''a'') ((\<lambda>_. Start)(0 := Owner 0, 1 := Waiting 0))
     \<lparr>o_map = Map.empty, o_ready = [''a'' \<mapsto> 0], o_closed = [], o_next = 1\<rparr>"
proof -
  have "open_reach closes (\<lambda>_ :: nat. ''a'') ((\<lambda>_. Start)(0 := Owner 0)) \<lparr>o_map = Map.empty, o_ready = [''a'' \<mapsto> 0], o_closed = [], o_next = 1\<rparr>"
    by (rule open_next [OF open_init, where t = 0 and r = "Inr 0"]) simp
  then show ?thesis by (rule open_next [where t = 1 and r = "Inr 0"]) simp
qed

theorem OpenWal_shared_witness:
  "\<exists>v. \<forall>r. mysql_OpenWal ''a'' r (((\<lambda>_. Start)(0 := Owner 0, 1 := Waiting 0)) (v :: nat))
     \<lparr>o_map = Map.empty, o_ready = [''a'' \<mapsto> 0], o_closed = [], o_next = 1\<rparr> \<noteq> None"
  using OpenWal_shared [OF open_reach_waiter, of 1 0 1 0 0 0] by simp

text \<open>C36: with the PostgreSQL backend nobody closes the channel: a caller that waits for another one to open
  the log can never go on, whatever the others do.\<close>

theorem pgsql_OpenWal_stuck:
  assumes "open_reach False nm pc st" and "pc t = Waiting ch"
  shows "pgsql_OpenWal (nm t) r (pc t) st = None"
  using pgsql_never_closes [OF assms(1)] assms(2) by (simp add: pgsql_OpenWal_def)

theorem pgsql_OpenWal_stuck_witness:
  "pgsql_OpenWal ''a'' (Inr 0) (Waiting 0) \<lparr>o_map = [''a'' \<mapsto> 1], o_ready = Map.empty, o_closed = [], o_next = 1\<rparr> = None"
proof -
  have "open_reach False (\<lambda>_ :: nat. ''a'') ((\<lambda>_. Start)(0 := Owner 0, 1 := Waiting 0, 0 := Opened 1))
     \<lparr>o_map = [''a'' \<mapsto> 1], o_ready = Map.empty, o_closed = [], o_next = 1\<rparr>"
    by (rule open_next [OF open_reach_waiter, where t = 0 and r = "Inr 0"]) (simp add: Let_def)
  from pgsql_OpenWal_stuck [OF this, of 1 0 "Inr 0"] show ?thesis by simp
qed

end
