(* ===== verification/Wal_Shard.thy ===== *)
theory Wal_Shard
  imports Wal_Merge Wal_Store
begin

text \<open>
  The write-ahead log of a shard, \<^verbatim>\<open>pkg/core/index_shards_wal.go\<close>: consuming the logged operations in
  batches between two redo records, undoing an interrupted batch when the log is opened, and the
  direct path of \<^verbatim>\<open>pkg/core/index_document.go\<close> that is taken without a log. The log and the redo log are used
  through their interfaces.
\<close>

section \<open>Decimal numbers\<close>

text \<open>\<^verbatim>\<open>strconv.ParseUint(s, 10, 64)\<close>, the string case of \<^verbatim>\<open>zutils.ToUint64\<close>.\<close>

definition ToUint64 :: "string \<Rightarrow> error + uint64" where
  "ToUint64 s =
     (case parse_nat s of
        None \<Rightarrow> Inl ''invalid syntax''
      | Some n \<Rightarrow> if n < 2 ^ 64 then Inr (of_nat n) else Inl ''value out of range'')"

section \<open>Model\<close>

text \<open>
  The environment of the log: the operations of the log and of the redo log, \<open>wl_decode\<close> for
  \<^verbatim>\<open>json.Unmarshal\<close>, \<open>wl_ids\<close> for the order in which the groups are ranged over, the configured sizes, the
  content of a new Bluge index and its statistics, and the error of storing the metadata.
\<close>

record ('c, 'w, 'r) wal_env =
  wl_last :: "'w \<Rightarrow> error + uint64"
  wl_read :: "'w \<Rightarrow> uint64 \<Rightarrow> error + byte list"
  wl_trunc :: "'w \<Rightarrow> uint64 \<Rightarrow> error option \<times> 'w"
  wl_put :: "'r \<Rightarrow> uint64 \<Rightarrow> byte list \<Rightarrow> 'r \<times> redo_error option"
  wl_get :: "'r \<Rightarrow> uint64 \<Rightarrow> redo_error + byte list"
  wl_decode :: "byte list \<Rightarrow> error + jdoc"
  wl_ids :: "int list \<Rightarrow> int list"
  wl_batch :: int
  wl_max :: nat
  wl_stats :: "'c \<Rightarrow> nat \<times> nat"
  wl_fresh :: 'c
  wl_store :: "error option"

record ('c, 'v, 'w, 'r) wal_shard =
  wa_shard :: "'c shard"
  wa_vec :: 'v
  wa_wal :: 'w
  wa_redo :: 'r
  wa_open :: bool
  wa_listed :: bool

definition MaxBatchSize :: uint64 where
  "MaxBatchSize = 10240"

definition RedoActionRead :: uint64 where
  "RedoActionRead = 1"

definition RedoActionWrite :: uint64 where
  "RedoActionWrite = 2"

definition writeRedoLog :: "('c, 'w, 'r) wal_env \<Rightarrow> uint64 \<Rightarrow> uint64 \<Rightarrow> uint64 \<Rightarrow> 'r \<Rightarrow> 'r \<times> redo_error option" where
  "writeRedoLog wl option minID maxID r = wl_put wl r option (bytes_of (format_nat (unat minID) @ '':'' @ format_nat (unat maxID)))"

definition readRedoLog :: "('c, 'w, 'r) wal_env \<Rightarrow> uint64 \<Rightarrow> 'r \<Rightarrow> redo_error + uint64 \<times> uint64" where
  "readRedoLog wl option r =
     (case wl_get wl r option of
        Inl e \<Rightarrow> Inl e
      | Inr v \<Rightarrow> (case split_at (CHR '':'') (string_of v) of
            [a, b] \<Rightarrow> (case ToUint64 a of
                Inl e \<Rightarrow> Inl (ErrIO e)
              | Inr minID \<Rightarrow> (case ToUint64 b of Inl e \<Rightarrow> Inl (ErrIO e) | Inr maxID \<Rightarrow> Inr (minID, maxID)))
          | _ \<Rightarrow> Inl (ErrIO (''invalid redo log: ['' @ string_of v @ '']''))))"

text \<open>Writing a batch between its two redo records. The first result is whether everything succeeded.\<close>

definition flush :: "('c, 'd, 'v) wenv \<Rightarrow> ('c, 'w, 'r) wal_env \<Rightarrow> uint64 \<Rightarrow> uint64 \<Rightarrow> merge_docs \<Rightarrow> ('c, 'v, 'w, 'r) wal_shard
    \<Rightarrow> (bool \<times> merge_docs \<times> ('c, 'v, 'w, 'r) wal_shard) option" where
  "flush env wl startID minID docs st =
     (case writeRedoLog wl RedoActionRead startID minID (wa_redo st) of
        (r1, Some _) \<Rightarrow> Some (False, docs, st\<lparr>wa_redo := r1\<rparr>)
      | (r1, None) \<Rightarrow>
          (case WriteTo env (wl_ids wl) False docs (wa_shard st) (wa_vec st) of
             None \<Rightarrow> None
           | Some (Some _, docs1, s1, v1) \<Rightarrow> Some (False, docs1, st\<lparr>wa_redo := r1, wa_shard := s1, wa_vec := v1\<rparr>)
           | Some (None, docs1, s1, v1) \<Rightarrow>
               (case writeRedoLog wl RedoActionWrite startID minID r1 of
                  (r2, Some _) \<Rightarrow> Some (False, docs1, st\<lparr>wa_redo := r2, wa_shard := s1, wa_vec := v1\<rparr>)
                | (r2, None) \<Rightarrow> Some (True, docs1, st\<lparr>wa_redo := r2, wa_shard := s1, wa_vec := v1\<rparr>))))"

text \<open>The loop over the entries; \<open>Inl\<close> is its early return. It counts with uint64 and so does not end when the
  last index is the largest one.\<close>

partial_function (option) consume_loop :: "('c, 'd, 'v) wenv \<Rightarrow> ('c, 'w, 'r) wal_env \<Rightarrow> uint64 \<Rightarrow> uint64 \<Rightarrow> uint64 \<Rightarrow> merge_docs
    \<Rightarrow> ('c, 'v, 'w, 'r) wal_shard
    \<Rightarrow> (('c, 'v, 'w, 'r) wal_shard + uint64 \<times> uint64 \<times> merge_docs \<times> ('c, 'v, 'w, 'r) wal_shard) option" where
  "consume_loop env wl maxID minID startID docs st =
     (if \<not> minID \<le> maxID then Some (Inr (minID, startID, docs, st))
      else case wl_read wl (wa_wal st) minID of
        Inl _ \<Rightarrow> Some (Inl st)
      | Inr entry \<Rightarrow> (case wl_decode wl entry of
            Inl _ \<Rightarrow> Some (Inl st)
          | Inr doc \<Rightarrow> (case AddDocument doc docs of
                None \<Rightarrow> None
              | Some docs1 \<Rightarrow>
                  if wl_batch wl \<le> int (MaxShardLen docs1)
                  then (case flush env wl startID minID docs1 st of
                      None \<Rightarrow> None
                    | Some (ok, docs2, st1) \<Rightarrow>
                        if ok then consume_loop env wl maxID (minID + 1) (minID + 1) docs2 st1 else Some (Inl st1))
                  else consume_loop env wl maxID (minID + 1) startID docs1 st)))"

text \<open>After the loop: the rest is written, the log truncated, the shard checked and its metadata updated.\<close>

definition consume_finish :: "('c, 'd, 'v) wenv \<Rightarrow> ('c, 'w, 'r) wal_env \<Rightarrow> uint64 \<Rightarrow> ('c, 'v, 'w, 'r) wal_shard
    \<Rightarrow> (bool \<times> ('c, 'v, 'w, 'r) wal_shard) option" where
  "consume_finish env wl minID st =
     (case wl_trunc wl (wa_wal st) minID of
        (Some _, w1) \<Rightarrow> Some (True, st\<lparr>wa_wal := w1\<rparr>)
      | (None, w1) \<Rightarrow>
          (case CheckShards (we_op env) (we_owal env) (wl_stats wl) (wl_max wl) (wl_fresh wl) (wl_store wl) (wa_shard st) of
             None \<Rightarrow> None
           | Some (Some _, s1) \<Rightarrow> Some (True, st\<lparr>wa_wal := w1, wa_shard := s1\<rparr>)
           | Some (None, s1) \<Rightarrow>
               map_option (\<lambda>s2. (True, st\<lparr>wa_wal := w1, wa_shard := s2\<rparr>)) (UpdateMetadataByShard (wl_stats wl) s1)))"

definition consume_tail :: "('c, 'd, 'v) wenv \<Rightarrow> ('c, 'w, 'r) wal_env \<Rightarrow> uint64 \<Rightarrow> uint64 \<Rightarrow> merge_docs \<Rightarrow> ('c, 'v, 'w, 'r) wal_shard
    \<Rightarrow> (bool \<times> ('c, 'v, 'w, 'r) wal_shard) option" where
  "consume_tail env wl minID startID docs st =
     (if 0 < MaxShardLen docs
      then (case flush env wl startID minID docs st of
          None \<Rightarrow> None
        | Some (ok, _, st1) \<Rightarrow> if ok then consume_finish env wl minID st1 else Some (False, st1))
      else consume_finish env wl minID st)"

definition consume_from :: "('c, 'd, 'v) wenv \<Rightarrow> ('c, 'w, 'r) wal_env \<Rightarrow> uint64 \<Rightarrow> uint64 \<Rightarrow> ('c, 'v, 'w, 'r) wal_shard
    \<Rightarrow> (bool \<times> ('c, 'v, 'w, 'r) wal_shard) option" where
  "consume_from env wl minID maxID st =
     (if minID = maxID then Some (False, st)
      else let maxID = (if MaxBatchSize < maxID - minID then minID + MaxBatchSize else maxID) in
        case consume_loop env wl maxID (minID + 1) (minID + 1) [] st of
          None \<Rightarrow> None
        | Some (Inl st1) \<Rightarrow> Some (False, st1)
        | Some (Inr (minID, startID, docs, st1)) \<Rightarrow> consume_tail env wl (minID - 1) startID docs st1)"

text \<open>Whether anything was updated. An error of syncing the log is only reported.\<close>

definition ConsumeWAL :: "('c, 'd, 'v) wenv \<Rightarrow> ('c, 'w, 'r) wal_env \<Rightarrow> ('c, 'v, 'w, 'r) wal_shard
    \<Rightarrow> (bool \<times> ('c, 'v, 'w, 'r) wal_shard) option" where
  "ConsumeWAL env wl st =
     (case wl_last wl (wa_wal st) of
        Inl _ \<Rightarrow> Some (False, st)
      | Inr maxID \<Rightarrow>
          (case readRedoLog wl RedoActionWrite (wa_redo st) of
             Inr (_, minID) \<Rightarrow> consume_from env wl minID maxID st
           | Inl ErrNotFound \<Rightarrow> consume_from env wl 0 maxID st
           | Inl Panic \<Rightarrow> None
           | Inl _ \<Rightarrow> Some (False, st)))"

text \<open>Undoing the batch between two redo records that differ. An error of truncating the log is only
  reported.\<close>

fun redo_msg :: "redo_error \<Rightarrow> error" where
  "redo_msg ErrNotFound = ''not found''"
| "redo_msg ErrValueTooLarge = ''value too large''"
| "redo_msg (ErrIO e) = e"
| "redo_msg Panic = ''panic''"

partial_function (option) rollback_docs :: "('c, 'w, 'r) wal_env \<Rightarrow> 'w \<Rightarrow> uint64 \<Rightarrow> uint64 \<Rightarrow> merge_docs \<Rightarrow> (error + merge_docs) option" where
  "rollback_docs wl w maxID minID docs =
     (if \<not> minID \<le> maxID then Some (Inr docs)
      else case wl_read wl w minID of
        Inl e \<Rightarrow> Some (Inl e)
      | Inr entry \<Rightarrow> (case wl_decode wl entry of
            Inl e \<Rightarrow> Some (Inl e)
          | Inr doc \<Rightarrow> (case AddDocument doc docs of
                None \<Rightarrow> None
              | Some docs1 \<Rightarrow> rollback_docs wl w maxID (minID + 1) docs1)))"

definition rollback_from :: "('c, 'd, 'v) wenv \<Rightarrow> ('c, 'w, 'r) wal_env \<Rightarrow> uint64 \<times> uint64 \<Rightarrow> uint64 \<times> uint64 \<Rightarrow> ('c, 'v, 'w, 'r) wal_shard
    \<Rightarrow> (error option \<times> ('c, 'v, 'w, 'r) wal_shard) option" where
  "rollback_from env wl rd wr st =
     (if rd = wr then Some (None, st)
      else case rollback_docs wl (wa_wal st) (snd rd) (fst rd) [] of
        None \<Rightarrow> None
      | Some (Inl e) \<Rightarrow> Some (Some e, st)
      | Some (Inr docs) \<Rightarrow>
          (case WriteTo env (wl_ids wl) True docs (wa_shard st) (wa_vec st) of
             None \<Rightarrow> None
           | Some (Some e, _, s1, v1) \<Rightarrow> Some (Some e, st\<lparr>wa_shard := s1, wa_vec := v1\<rparr>)
           | Some (None, _, s1, v1) \<Rightarrow>
               Some (None, st\<lparr>wa_shard := s1, wa_vec := v1, wa_wal := snd (wl_trunc wl (wa_wal st) (fst rd - 1))\<rparr>)))"

definition Rollback :: "('c, 'd, 'v) wenv \<Rightarrow> ('c, 'w, 'r) wal_env \<Rightarrow> ('c, 'v, 'w, 'r) wal_shard
    \<Rightarrow> (error option \<times> ('c, 'v, 'w, 'r) wal_shard) option" where
  "Rollback env wl st =
     (case readRedoLog wl RedoActionRead (wa_redo st) of
        Inl ErrNotFound \<Rightarrow> Some (None, st)
      | Inl Panic \<Rightarrow> None
      | Inl e \<Rightarrow> Some (Some (redo_msg e), st)
      | Inr rd \<Rightarrow>
          (case readRedoLog wl RedoActionWrite (wa_redo st) of
             Inr wr \<Rightarrow> rollback_from env wl rd wr st
           | Inl ErrNotFound \<Rightarrow> rollback_from env wl rd (0, 0) st
           | Inl Panic \<Rightarrow> None
           | Inl e \<Rightarrow> Some (Some (redo_msg e), st)))"

text \<open>Opening the log: \<open>wopen\<close> is the result of \<^verbatim>\<open>wal.Open\<close>; \<open>wa_open\<close> says that the shard has its log, \<open>wa_listed\<close> that
  it is on the list of those that are consumed.\<close>

definition OpenWAL :: "bool \<Rightarrow> error + 'w \<times> 'r \<Rightarrow> ('c, 'd, 'v) wenv \<Rightarrow> ('c, 'w, 'r) wal_env \<Rightarrow> ('c, 'v, 'w, 'r) wal_shard
    \<Rightarrow> (error option \<times> ('c, 'v, 'w, 'r) wal_shard) option" where
  "OpenWAL enable wopen env wl st =
     (if \<not> enable \<or> wa_open st then Some (None, st)
      else case wopen of
        Inl e \<Rightarrow> Some (Some e, st)
      | Inr (w, r) \<Rightarrow>
          (case Rollback env wl (st\<lparr>wa_wal := w, wa_redo := r, wa_open := True\<rparr>) of
             None \<Rightarrow> None
           | Some (Some e, st1) \<Rightarrow> Some (Some e, st1)
           | Some (None, st1) \<Rightarrow> Some (None, st1\<lparr>wa_listed := True\<rparr>)))"

text \<open>Writing operations without a log: they are cut into batches, which does not end for a batch size of
  zero and panics for a negative one.\<close>

partial_function (option) commit_batches :: "int \<Rightarrow> jdoc list \<Rightarrow> nat \<Rightarrow> merge_docs list \<Rightarrow> merge_docs list option" where
  "commit_batches b opList i acc =
     (if \<not> i < length opList then Some acc
      else if b < 0 then None
      else case add_all_docs (take (nat b) (drop i opList)) [] of
        None \<Rightarrow> None
      | Some docs \<Rightarrow> commit_batches b opList (i + nat b) (acc @ [docs]))"

fun commit_write :: "('c, 'd, 'v) wenv \<Rightarrow> (int list \<Rightarrow> int list) \<Rightarrow> merge_docs list \<Rightarrow> 'c shard \<Rightarrow> 'v
    \<Rightarrow> (error option \<times> 'c shard \<times> 'v) option" where
  "commit_write env ids [] s v = Some (None, s, v)"
| "commit_write env ids (docs # rest) s v =
     (case WriteTo env ids False docs s v of
        None \<Rightarrow> None
      | Some (Some e, _, s1, v1) \<Rightarrow> Some (Some e, s1, v1)
      | Some (None, _, s1, v1) \<Rightarrow> commit_write env ids rest s1 v1)"

definition CommitOperations :: "('c, 'd, 'v) wenv \<Rightarrow> ('c, 'w, 'r) wal_env \<Rightarrow> jdoc list \<Rightarrow> 'c shard \<Rightarrow> 'v
    \<Rightarrow> (error option \<times> 'c shard \<times> 'v) option" where
  "CommitOperations env wl opList s v =
     (case commit_batches (wl_batch wl) opList 0 [] of
        None \<Rightarrow> None
      | Some docsList \<Rightarrow>
          (case commit_write env (wl_ids wl) docsList s v of
             None \<Rightarrow> None
           | Some (Some e, s1, v1) \<Rightarrow> Some (Some e, s1, v1)
           | Some (None, s1, v1) \<Rightarrow>
               (case CheckShards (we_op env) (we_owal env) (wl_stats wl) (wl_max wl) (wl_fresh wl) (wl_store wl) s1 of
                  None \<Rightarrow> None
                | Some (Some e, s2) \<Rightarrow> Some (Some e, s2, v1)
                | Some (None, s2) \<Rightarrow> map_option (\<lambda>s3. (None, s3, v1)) (UpdateMetadataByShard (wl_stats wl) s2))))"

section \<open>Redo records\<close>

lemma format_nat_chars: "c \<in> set (format_nat n) \<Longrightarrow> is_dec c"
  by (rule format_nat_digits [of n]) (auto simp: dec_digit_simps)

lemma length_format_nat: "n < 2 ^ 64 \<Longrightarrow> length (format_nat n) \<le> 20"
  using le_digits_length [of 10 n 20] by (simp add: format_nat_def)

lemma ToUint64_format [simp]: "ToUint64 (format_nat (unat w)) = Inr w"
  using unat64_less [of w] by (simp add: ToUint64_def parse_format_nat)

lemma colon_not_dec: "\<not> is_dec (CHR '':'')"
  by (simp add: is_dec_def)

lemma split_record_ids:
  "split_at (CHR '':'') (format_nat m @ '':'' @ format_nat n) = [format_nat m, format_nat n]"
  using format_nat_chars colon_not_dec by (auto intro: split_at_once)

lemma length_record_ids: "length (bytes_of (format_nat (unat (a :: uint64)) @ '':'' @ format_nat (unat (b :: uint64)))) \<le> 64"
  using length_format_nat [OF unat64_less [of a]] length_format_nat [OF unat64_less [of b]] by (simp add: bytes_of_def)

section \<open>Writing a merged batch succeeds\<close>

definition op_ok :: "('c, 'd, 'v) wenv \<Rightarrow> int \<Rightarrow> string \<times> string \<times> int \<times> jdoc \<Rightarrow> bool" where
  "op_ok env n op = (case op of (a, k, i, d) \<Rightarrow>
     a \<in> {''insert'', ''update'', ''delete'', ''delete_vec_only''} \<and> (i = - 1 \<or> 0 \<le> i \<and> i < n) \<and> (\<exists>r. we_build env k d = Inr r))"

definition keys_ok :: "int \<Rightarrow> merge_docs \<Rightarrow> bool" where
  "keys_ok n w \<longleftrightarrow> (\<forall>i \<in> fst ` set w. i = - 1 \<or> 0 \<le> i \<and> i < n)"

lemma keys_ok_Reset [simp]: "keys_ok n (Reset w) = keys_ok n w"
  by (auto simp: keys_ok_def Reset_def)

lemma keys_ok_Add: "AddDocument d w = Some w' \<Longrightarrow> parsed d = Some op \<Longrightarrow> op_ok env n op \<Longrightarrow> keys_ok n w \<Longrightarrow> keys_ok n w'"
proof -
  assume add: "AddDocument d w = Some w'" and op: "parsed d = Some op" "op_ok env n op" and w: "keys_ok n w"
  obtain a k i where f: "op_fields d = Some (a, k, i)" and o: "op = (a, k, i, d)" using op(1) by (auto simp: parsed_def)
  have "\<exists>docs. w' = aput i docs w" using add by (auto simp: AddDocument_def f Let_def)
  then obtain docs where "w' = aput i docs w" ..
  then have "fst ` set w' = insert i (fst ` set w)" by (simp only: keys_aput)
  with w op(2) show ?thesis by (simp add: keys_ok_def op_ok_def o)
qed

lemma ops_writable:
  assumes "merges w ops" "map_of w i = Some docs" "\<forall>op \<in> set ops. op_ok env n op" "e \<in> set docs"
  shows "writable env (snd e)"
proof -
  let ?os = "ops_on ops i (fst e)"
  have e: "?os \<noteq> []" "merged_doc (fst e) ?os = Some (snd e)" using merges_group [OF assms(1,2)] assms(4) by auto
  have os: "fst o' \<in> {''insert'', ''update'', ''delete'', ''delete_vec_only''} \<and> (\<exists>r. we_build env (fst e) (snd o') = Inr r)"
    if "o' \<in> set ?os" for o'
    using that assms(3) unfolding ops_on_def op_ok_def by auto
  have d: "snd e = \<lparr>wd_id = fst e, wd_actions = map fst ?os, wd_data = snd (last ?os)\<rparr>" using e by (simp add: merged_doc_def)
  have "hd (map fst ?os) = fst (hd ?os)" using e(1) by (simp add: hd_map)
  with os [of "hd ?os"] e(1) have "merged_action (map fst ?os) \<noteq> None" by (auto simp: merged_action_def Let_def)
  moreover have "\<exists>r. we_build env (fst e) (snd (last ?os)) = Inr r" using os [of "last ?os"] e(1) by simp
  ultimately show ?thesis by (simp add: writable_def d)
qed

lemma CloseWriter_keeps:
  assumes "shard_ok s" and "0 \<le> i" "i < sh_num s"
  shows "\<exists>s'. CloseWriter i s = Some s' \<and> shard_ok s' \<and> sh_num s' = sh_num s"
  using assms second_ok [OF assms] by (simp add: CloseWriter_def upd_second_ok)

lemma WriteToShard_ok:
  assumes env: "no_faults env" and ok: "shard_ok s" and i: "i = - 1 \<or> 0 \<le> i \<and> i < sh_num s"
    and w: "\<And>docs e. map_of w i = Some docs \<Longrightarrow> e \<in> set docs \<Longrightarrow> writable env (snd e)"
  shows "\<exists>s' v'. WriteToShard env w i s v = Some (None, s', v') \<and> shard_ok s' \<and> sh_num s' = sh_num s"
proof (cases "map_of w i")
  case None
  with ok show ?thesis by (simp add: WriteToShard_def)
next
  case (Some docs)
  let ?i = "if i = ShardIDNeedLatest then GetLatestShardID s else i"
  have j: "0 \<le> ?i" "?i < sh_num s" using i latest_ok [OF ok] by (auto simp: ShardIDNeedLatest_def)
  obtain s1 v1 where s1: "write_group env ?i docs s v = Some (None, s1, v1)" "shard_ok s1" "sh_num s1 = sh_num s"
    using write_group_ok [OF env ok j, of docs v] w [OF Some] by blast
  obtain s2 where s2: "CloseWriter ?i s1 = Some s2" "shard_ok s2" "sh_num s2 = sh_num s1"
    using CloseWriter_keeps [OF s1(2) j(1)] j(2) s1(3) by auto
  have "WriteToShard env w i s v = Some (None, s2, v1)" by (simp only: WriteToShard_def Some option.case Let_def s1(1) prod.case s2(1) option.map)
  with s1 s2 show ?thesis by simp
qed

lemma write_shards_ok:
  assumes env: "no_faults env" and w: "\<And>i docs e. map_of w i = Some docs \<Longrightarrow> e \<in> set docs \<Longrightarrow> writable env (snd e)"
  shows "shard_ok s \<Longrightarrow> \<forall>i \<in> set is. i = - 1 \<or> 0 \<le> i \<and> i < sh_num s \<Longrightarrow>
    \<exists>s' v'. write_shards env False w is s v = Some (None, s', v') \<and> shard_ok s' \<and> sh_num s' = sh_num s"
proof (induction "is" arbitrary: s v)
  case (Cons i "is")
  then obtain s1 v1 where s1: "WriteToShard env w i s v = Some (None, s1, v1)" "shard_ok s1" "sh_num s1 = sh_num s"
    using WriteToShard_ok [OF env Cons.prems(1), of i w v] w by auto
  with Cons.IH [OF s1(2), of v1] Cons.prems(2) show ?case by simp
qed simp

lemma WriteTo_ok:
  assumes env: "no_faults env" and ok: "shard_ok s" and m: "merges w ops" "\<forall>op \<in> set ops. op_ok env (sh_num s) op" "keys_ok (sh_num s) w"
    and ids: "\<And>is. set (ids is) = set is"
  shows "\<exists>s' v'. WriteTo env ids False w s v = Some (None, Reset w, s', v') \<and> shard_ok s' \<and> sh_num s' = sh_num s"
proof -
  have "\<forall>i \<in> set (ids (map fst w)). i = - 1 \<or> 0 \<le> i \<and> i < sh_num s" using m(3) by (simp add: ids keys_ok_def)
  from write_shards_ok [OF env _ ok this, of w v] ops_writable [OF m(1) _ m(2)]
  show ?thesis by (fastforce simp: WriteTo_def)
qed

section \<open>Consuming the log\<close>

text \<open>Writing operations batch by batch, each batch merged.\<close>

fun write_chunks :: "('c, 'd, 'v) wenv \<Rightarrow> (int list \<Rightarrow> int list) \<Rightarrow> merge_docs \<Rightarrow> 'c shard \<Rightarrow> 'v \<Rightarrow> jdoc list list
    \<Rightarrow> (merge_docs \<times> 'c shard \<times> 'v) option" where
  "write_chunks env ids w s v [] = Some (w, s, v)"
| "write_chunks env ids w s v (ds # chunks) =
     (case add_all_docs ds w of
        None \<Rightarrow> None
      | Some w1 \<Rightarrow> (case WriteTo env ids False w1 s v of
            Some (None, w2, s2, v2) \<Rightarrow> write_chunks env ids w2 s2 v2 chunks
          | _ \<Rightarrow> None))"

definition doc_ok :: "('c, 'd, 'v) wenv \<Rightarrow> int \<Rightarrow> jdoc \<Rightarrow> bool" where
  "doc_ok env n d \<longleftrightarrow> (case parsed d of None \<Rightarrow> False | Some op \<Rightarrow> op_ok env n op)"

definition committed :: "('c, 'w, 'r) wal_env \<Rightarrow> 'r \<Rightarrow> uint64" where
  "committed wl r = (case readRedoLog wl RedoActionWrite r of Inl _ \<Rightarrow> 0 | Inr (_, m) \<Rightarrow> m)"

lemma add_all_docs_append: "add_all_docs (ds @ es) w = (case add_all_docs ds w of None \<Rightarrow> None | Some w1 \<Rightarrow> add_all_docs es w1)"
  by (induction ds arbitrary: w) (auto split: option.splits)

lemma add_all_docs_keys:
  "add_all_docs ds w = Some w' \<Longrightarrow> \<forall>d \<in> set ds. doc_ok env n d \<Longrightarrow> keys_ok n w \<Longrightarrow> keys_ok n w'"
proof (induction ds arbitrary: w)
  case (Cons d ds)
  from Cons.prems(1) obtain w1 where w1: "AddDocument d w = Some w1" "add_all_docs ds w1 = Some w'" by (auto split: option.splits)
  from Cons.prems(2) obtain op where "parsed d = Some op" "op_ok env n op" by (auto simp: doc_ok_def split: option.splits)
  from keys_ok_Add [OF w1(1) this Cons.prems(3)] Cons.IH [OF w1(2)] Cons.prems(2) show ?case by simp
qed simp

lemma docs_ok_merge:
  assumes "merges w []" "keys_ok n w" "\<forall>d \<in> set ds. doc_ok env n d"
  shows "\<exists>w'. add_all_docs ds w = Some w' \<and> merges w' (map (the \<circ> parsed) ds) \<and> keys_ok n w' \<and> (\<forall>op \<in> set (map (the \<circ> parsed) ds). op_ok env n op)"
proof -
  have p: "\<forall>d \<in> set ds. parsed d \<noteq> None" "\<forall>op \<in> set (map (the \<circ> parsed) ds). op_ok env n op"
    using assms(3) by (auto simp: doc_ok_def split: option.splits)
  from add_all_docs_ok [OF assms(1) p(1)] obtain w' where w': "add_all_docs ds w = Some w'" "merges w' (map (the \<circ> parsed) ds)" by auto
  with add_all_docs_keys [OF w'(1) assms(3,2)] p(2) show ?thesis by blast
qed

lemma MaxShardLen_iff: "0 < MaxShardLen w \<longleftrightarrow> (\<exists>e \<in> set w. snd e \<noteq> [])"
proof -
  have "0 < foldl (\<lambda>n e. if length (snd e) > n then length (snd e) else n) m w \<longleftrightarrow> 0 < m \<or> (\<exists>e \<in> set w. snd e \<noteq> [])" for m
    by (induction w arbitrary: m) auto
  then show ?thesis by (simp add: MaxShardLen_def)
qed

lemma MaxShardLen_merges:
  assumes "merges w ops"
  shows "0 < MaxShardLen w \<longleftrightarrow> ops \<noteq> []"
proof -
  have at: "doc_at w i k = merged_doc k (ops_on ops i k)" for i k using assms by (simp add: merges_def)
  have "ops \<noteq> []" if e: "e \<in> set w" "snd e \<noteq> []" for e
  proof
    assume "ops = []"
    then have "doc_at w (fst e) (fst (hd (snd e))) = None" by (simp add: at ops_on_def merged_doc_def)
    moreover have "map_of w (fst e) = Some (snd e)" using assms e(1) by (auto simp: merges_def merge_ok_def)
    ultimately show False using e(2) by (cases "snd e") (auto simp: doc_at_def split: prod.splits)
  qed
  moreover have "\<exists>e \<in> set w. snd e \<noteq> []" if ne: "ops \<noteq> []"
  proof -
    obtain a k i d where op: "(a, k, i, d) \<in> set ops" using ne by (cases ops) auto
    then have "ops_on ops i k \<noteq> []" by (force simp: ops_on_def filter_empty_conv)
    then have "doc_at w i k \<noteq> None" by (simp add: at merged_doc_def)
    then obtain docs where "map_of w i = Some docs" "map_of docs k \<noteq> None" by (auto simp: doc_at_def split: option.splits)
    then have "(i, docs) \<in> set w" "docs \<noteq> []" by (auto dest: map_of_SomeD)
    then show ?thesis by force
  qed
  ultimately show ?thesis by (auto simp: MaxShardLen_iff)
qed

lemma readRedoLog_record:
  "wl_get wl r k = Inr (bytes_of (format_nat (unat a) @ '':'' @ format_nat (unat b))) \<Longrightarrow> readRedoLog wl k r = Inr (a, b)"
  by (simp add: readRedoLog_def split_record_ids del: append.simps)

lemma write_chunks_append:
  "write_chunks env ids w s v chunks = Some (w1, s1, v1) \<Longrightarrow>
   write_chunks env ids w s v (chunks @ later) = write_chunks env ids w1 s1 v1 later"
proof (induction chunks arbitrary: w s v)
  case (Cons ds chunks)
  then show ?case by (auto split: option.splits prod.splits)
qed simp

lemma same_docs_of: "same_docs s s' \<Longrightarrow> docs_of s' = docs_of s"
  using same_docs_map [of s s'] by simp

lemma NewShard_docs:
  assumes ok: "shard_ok s"
  shows "\<exists>s'. NewShard st fresh io s = Some (io, s') \<and> shard_ok s' \<and> sh_num s' = sh_num s + 1 \<and> docs_of s' = docs_of s @ [fresh]"
proof -
  obtain s' where s': "NewShard st fresh io s = Some (io, s')" "shard_ok s'" "sh_num s' = sh_num s + 1" using NewShard_ok [OF ok] by blast
  obtain s0 where s0: "UpdateStatsBySecondShard st (GetLatestShardID s) s = Some s0" "same_docs s s0"
    using UpdateStats_ok [OF ok] latest_ok [OF ok] by blast
  have "docs_of s' = docs_of s0 @ [fresh]"
    using s'(1) s0(1) upd_second_map [of ss_docs "\<lambda>ss. ss\<lparr>ss_min := sh_min s0, ss_max := sh_max s0\<rparr>" id s0 "GetLatestShardID s0"]
    by (auto simp: NewShard_def Let_def)
  with s' same_docs_of [OF s0(2)] show ?thesis by simp
qed

lemma CheckShards_ok:
  assumes env: "no_faults env" and ok: "shard_ok s"
  shows "\<exists>s'. CheckShards (we_op env) (we_owal env) st mx fresh None s = Some (None, s') \<and> shard_ok s' \<and> sh_num s \<le> sh_num s'
    \<and> (docs_of s' = docs_of s \<or> docs_of s' = docs_of s @ [fresh])"
proof -
  let ?i = "GetLatestShardID s"
  have i: "0 \<le> ?i" "?i < sh_num s" using latest_ok [OF ok] by auto
  obtain s1 where s1: "GetWriter (we_op env) (we_owal env) ?i s = Some (None, s1)" "shard_ok s1" "sh_num s1 = sh_num s" "docs_of s1 = docs_of s"
    using GetWriter_ok [OF env ok i] by blast
  let ?grow = "case second s1 ?i of None \<Rightarrow> False | Some ss \<Rightarrow> mx < snd (st (ss_docs ss))"
  have "\<exists>s2. (if ?grow then NewShard st fresh None s1 else Some (None, s1)) = Some (None, s2) \<and> shard_ok s2 \<and> sh_num s1 \<le> sh_num s2
      \<and> (docs_of s2 = docs_of s1 \<or> docs_of s2 = docs_of s1 @ [fresh])"
  proof (cases ?grow)
    case True
    with NewShard_docs [OF s1(2), of st fresh None] show ?thesis unfolding if_P [OF True] by auto
  next
    case False
    with s1(2) show ?thesis unfolding if_not_P [OF False] by simp
  qed
  then obtain s2 where s2: "(if ?grow then NewShard st fresh None s1 else Some (None, s1)) = Some (None, s2)"
      "shard_ok s2" "sh_num s1 \<le> sh_num s2" "docs_of s2 = docs_of s1 \<or> docs_of s2 = docs_of s1 @ [fresh]" by blast
  obtain s3 where s3: "CloseWriter ?i s2 = Some s3" "shard_ok s3" "sh_num s3 = sh_num s2" "docs_of s3 = docs_of s2"
    using CloseWriter_keeps [OF s2(2) i(1)] CloseWriter_ok [OF s2(2) i(1)] i(2) s1(3) s2(3) by auto
  have "CheckShards (we_op env) (we_owal env) st mx fresh None s = Some (None, s3)"
    using s1(1) s2(1) s3(1) by (simp add: CheckShards_def Let_def)
  with s1 s2 s3 show ?thesis by simp
qed

lemma UpdateMetadata_ok:
  assumes "shard_ok s"
  shows "\<exists>s'. UpdateMetadataByShard st s = Some s' \<and> shard_ok s' \<and> sh_num s' = sh_num s \<and> docs_of s' = docs_of s"
proof -
  obtain s1 where s1: "same_docs s s1" "UpdateMetadataByShard st s =
      Some (upd_second s1 (GetLatestShardID s1) (\<lambda>ss. ss\<lparr>ss_min := sh_min s1, ss_max := sh_max s1\<rparr>))"
    using UpdateMetadata_eq [OF assms] by blast
  have "shard_ok (upd_second s1 (GetLatestShardID s1) (\<lambda>ss. ss\<lparr>ss_min := sh_min s1, ss_max := sh_max s1\<rparr>))"
    by (rule upd_second_ok [OF same_docs_ok [OF s1(1) assms]]) simp
  moreover have "docs_of (upd_second s1 (GetLatestShardID s1) (\<lambda>ss. ss\<lparr>ss_min := sh_min s1, ss_max := sh_max s1\<rparr>)) = docs_of s1"
    using upd_second_map [of ss_docs "\<lambda>ss. ss\<lparr>ss_min := sh_min s1, ss_max := sh_max s1\<rparr>" id s1 "GetLatestShardID s1"] by simp
  ultimately show ?thesis using s1 same_docs_of [OF s1(1)] by (simp add: same_docs_def)
qed

locale wal_client =
  wal_log wf first entries lastIndex readEntry truncateFront append reopen + redo_store rwf val rput rget
  for wf :: "'w \<Rightarrow> bool" and first entries lastIndex readEntry truncateFront append reopen
    and rwf :: "'r \<Rightarrow> bool" and val rput rget
begin

definition uses :: "('c, 'w, 'r) wal_env \<Rightarrow> bool" where
  "uses wl \<longleftrightarrow> wl_last wl = lastIndex \<and> wl_read wl = readEntry \<and> wl_trunc wl = truncateFront \<and> wl_put wl = rput \<and> wl_get wl = rget"

lemma redo_record:
  assumes u: "uses wl" and r: "rwf r"
  shows "\<exists>r'. writeRedoLog wl k a b r = (r', None) \<and> rwf r' \<and> readRedoLog wl k r' = Inr (a, b)
    \<and> (\<forall>k'. k' \<noteq> k \<longrightarrow> readRedoLog wl k' r' = readRedoLog wl k' r)"
proof -
  let ?v = "bytes_of (format_nat (unat a) @ '':'' @ format_nat (unat b))"
  obtain r' where r': "rput r k ?v = (r', None)" "rwf r'" "val r' = (val r)(k \<mapsto> ?v)"
    using put_law [OF r length_record_ids] by blast
  have "writeRedoLog wl k a b r = (r', None)" using u r'(1) by (simp add: writeRedoLog_def uses_def)
  moreover have "wl_get wl r' k = Inr ?v" using u get_law [OF r'(2), of k] r'(3) by (simp add: uses_def)
  then have "readRedoLog wl k r' = Inr (a, b)" by (rule readRedoLog_record)
  moreover have "readRedoLog wl k' r' = readRedoLog wl k' r" if "k' \<noteq> k" for k'
  proof -
    have "wl_get wl r' k' = wl_get wl r k'" using u get_law [OF r'(2), of k'] get_law [OF r, of k'] r'(3) that by (simp add: uses_def)
    then show ?thesis by (simp add: readRedoLog_def)
  qed
  ultimately show ?thesis using r'(2) by blast
qed

lemma flush_ok:
  assumes u: "uses wl" and r: "rwf (wa_redo st)" and w: "WriteTo env (wl_ids wl) False docs (wa_shard st) (wa_vec st) = Some (None, docs1, s1, v1)"
  shows "\<exists>r2. flush env wl a b docs st = Some (True, docs1, st\<lparr>wa_redo := r2, wa_shard := s1, wa_vec := v1\<rparr>)
    \<and> rwf r2 \<and> readRedoLog wl RedoActionRead r2 = Inr (a, b) \<and> readRedoLog wl RedoActionWrite r2 = Inr (a, b)"
proof -
  obtain r1 where r1: "writeRedoLog wl RedoActionRead a b (wa_redo st) = (r1, None)" "rwf r1" "readRedoLog wl RedoActionRead r1 = Inr (a, b)"
    using redo_record [OF u r] by blast
  obtain r2 where r2: "writeRedoLog wl RedoActionWrite a b r1 = (r2, None)" "rwf r2" "readRedoLog wl RedoActionWrite r2 = Inr (a, b)"
      "readRedoLog wl RedoActionRead r2 = readRedoLog wl RedoActionRead r1"
    using redo_record [OF u r1(2), of RedoActionWrite a b] by (auto simp: RedoActionRead_def RedoActionWrite_def)
  have "flush env wl a b docs st = Some (True, docs1, st\<lparr>wa_redo := r2, wa_shard := s1, wa_vec := v1\<rparr>)"
    using r1(1) r2(1) w by (simp add: flush_def)
  moreover have "readRedoLog wl RedoActionRead r2 = Inr (a, b)" by (simp only: r2(4) r1(3))
  ultimately show ?thesis using r2(2,3) by blast
qed

text \<open>The loop writes the entries in batches, in their order, and leaves the rest merged; the committed index
  is always the last one of the batches written.\<close>

definition looped :: "('c, 'd, 'v) wenv \<Rightarrow> ('c, 'w, 'r) wal_env \<Rightarrow> merge_docs \<Rightarrow> jdoc list \<Rightarrow> nat \<Rightarrow> ('c, 'v, 'w, 'r) wal_shard
    \<Rightarrow> jdoc list list \<Rightarrow> jdoc list \<Rightarrow> merge_docs \<Rightarrow> merge_docs \<Rightarrow> ('c, 'v, 'w, 'r) wal_shard \<Rightarrow> bool" where
  "looped env wl w0 ds n st chunks rest w1 docs' st' \<longleftrightarrow> ds = concat chunks @ rest
     \<and> write_chunks env (wl_ids wl) w0 (wa_shard st) (wa_vec st) chunks = Some (w1, wa_shard st', wa_vec st')
     \<and> add_all_docs rest w1 = Some docs' \<and> merges w1 [] \<and> keys_ok (sh_num (wa_shard st)) w1
     \<and> wa_wal st' = wa_wal st \<and> rwf (wa_redo st') \<and> shard_ok (wa_shard st') \<and> sh_num (wa_shard st') = sh_num (wa_shard st)
     \<and> committed wl (wa_redo st') = of_nat (n - length rest) \<and> length rest \<le> n"

lemma consume_loop_ok:
  assumes u: "uses wl" and env: "no_faults env" and ids: "\<And>is. set (wl_ids wl is) = set is"
  shows "\<forall>j < length ds. \<exists>e. readEntry (wa_wal st) (of_nat (i + j)) = Inr e \<and> wl_decode wl e = Inr (ds ! j) \<Longrightarrow>
    i + length ds < 2 ^ 64 \<Longrightarrow> length cur < i \<Longrightarrow> m = i + length ds - 1 \<Longrightarrow>
    rwf (wa_redo st) \<Longrightarrow> shard_ok (wa_shard st) \<Longrightarrow> committed wl (wa_redo st) = of_nat (i - 1 - length cur) \<Longrightarrow>
    merges w0 [] \<Longrightarrow> keys_ok (sh_num (wa_shard st)) w0 \<Longrightarrow> \<forall>d \<in> set (cur @ ds). doc_ok env (sh_num (wa_shard st)) d \<Longrightarrow>
    add_all_docs cur w0 = Some docs \<Longrightarrow>
    \<exists>chunks rest w1 docs' start' st'.
      consume_loop env wl (of_nat m) (of_nat i) start docs st = Some (Inr (of_nat (Suc m), start', docs', st'))
      \<and> looped env wl w0 (cur @ ds) m st chunks rest w1 docs' st'"
proof (induction ds arbitrary: i cur docs start st w0)
  case Nil
  have "\<not> (of_nat i :: uint64) \<le> of_nat m" using Nil.prems(2,3,4) by (simp add: not_le of_nat64_less del: of_nat_diff)
  then have "consume_loop env wl (of_nat m) (of_nat i) start docs st = Some (Inr (of_nat i, start, docs, st))"
    by (subst consume_loop.simps) simp
  moreover have "looped env wl w0 (cur @ []) m st [] cur w0 docs st" using Nil by (simp add: looped_def)
  moreover have "Suc m = i" using Nil.prems(3,4) by simp
  ultimately show ?case by blast
next
  case (Cons d ds)
  have "\<not> (of_nat m :: uint64) < of_nat i" by (subst of_nat64_less) (use Cons.prems(2,4) in auto)
  then have le: "(of_nat i :: uint64) \<le> of_nat m" by (simp only: not_less)
  have suc: "(of_nat i :: uint64) + 1 = of_nat (Suc i)" by simp
  from Cons.prems(1) obtain e where e: "readEntry (wa_wal st) (of_nat i) = Inr e" "wl_decode wl e = Inr d" by force
  have tail: "\<forall>j < length ds. \<exists>e. readEntry (wa_wal st) (of_nat (Suc i + j)) = Inr e \<and> wl_decode wl e = Inr (ds ! j)"
  proof (intro allI impI)
    fix j
    assume "j < length ds"
    then have "Suc j < length (d # ds)" by simp
    with Cons.prems(1) have "\<exists>e. readEntry (wa_wal st) (of_nat (i + Suc j)) = Inr e \<and> wl_decode wl e = Inr ((d # ds) ! Suc j)" by blast
    then show "\<exists>e. readEntry (wa_wal st) (of_nat (Suc i + j)) = Inr e \<and> wl_decode wl e = Inr (ds ! j)"
      by (simp only: add_Suc_right add_Suc nth_Cons_Suc)
  qed
  let ?n = "sh_num (wa_shard st)"
  have ok: "\<forall>d' \<in> set (cur @ [d]). doc_ok env ?n d'" using Cons.prems(10) by simp
  obtain docs1 where d1: "add_all_docs (cur @ [d]) w0 = Some docs1" "merges docs1 (map (the \<circ> parsed) (cur @ [d]))" "keys_ok ?n docs1"
      "\<forall>op \<in> set (map (the \<circ> parsed) (cur @ [d])). op_ok env ?n op"
    using docs_ok_merge [OF Cons.prems(8,9) ok] by blast
  have add: "AddDocument d docs = Some docs1" using d1(1) Cons.prems(11) by (simp add: add_all_docs_append split: option.splits)
  have step: "consume_loop env wl (of_nat m) (of_nat i) start docs st =
      (if wl_batch wl \<le> int (MaxShardLen docs1)
       then (case flush env wl start (of_nat i) docs1 st of None \<Rightarrow> None
         | Some (ok, docs2, st1) \<Rightarrow> if ok then consume_loop env wl (of_nat m) (of_nat (Suc i)) (of_nat (Suc i)) docs2 st1 else Some (Inl st1))
       else consume_loop env wl (of_nat m) (of_nat (Suc i)) start docs1 st)"
    unfolding suc [symmetric] using u le e add by (subst consume_loop.simps) (simp add: uses_def)
  show ?case
  proof (cases "wl_batch wl \<le> int (MaxShardLen docs1)")
    case True
    obtain s1 v1 where s1: "WriteTo env (wl_ids wl) False docs1 (wa_shard st) (wa_vec st) = Some (None, Reset docs1, s1, v1)" "shard_ok s1" "sh_num s1 = ?n"
      using WriteTo_ok [OF env Cons.prems(6) d1(2,4,3) ids] by blast
    obtain r2 where r2: "flush env wl start (of_nat i) docs1 st = Some (True, Reset docs1, st\<lparr>wa_redo := r2, wa_shard := s1, wa_vec := v1\<rparr>)"
        "rwf r2" "readRedoLog wl RedoActionWrite r2 = Inr (start, of_nat i)"
      using flush_ok [OF u Cons.prems(5) s1(1), of start "of_nat i"] by blast
    let ?st1 = "st\<lparr>wa_redo := r2, wa_shard := s1, wa_vec := v1\<rparr>"
    have "merges (Reset docs1) []" using d1(2) by (intro merges_Reset) (simp add: merges_def merge_ok_def)
    moreover have "committed wl r2 = of_nat (Suc i - 1 - length [])" using r2(3) by (simp add: committed_def)
    ultimately obtain chunks rest w1 docs' start' st' where IH:
      "consume_loop env wl (of_nat m) (of_nat (Suc i)) (of_nat (Suc i)) (Reset docs1) ?st1 = Some (Inr (of_nat (Suc m), start', docs', st'))"
      "looped env wl (Reset docs1) ([] @ ds) m ?st1 chunks rest w1 docs' st'"
      using Cons.IH [of ?st1 "Suc i" "[]" "Reset docs1" "Reset docs1" "of_nat (Suc i)"] tail Cons.prems(2,4,10) r2(2) s1 d1(3) by force
    have "looped env wl w0 (cur @ d # ds) m st ((cur @ [d]) # chunks) rest w1 docs' st'"
      using IH(2) d1(1) s1 by (simp add: looped_def)
    moreover have "consume_loop env wl (of_nat m) (of_nat i) start docs st = Some (Inr (of_nat (Suc m), start', docs', st'))"
      using IH(1) True r2(1) by (simp add: step)
    ultimately show ?thesis by blast
  next
    case False
    from Cons.IH [of st "Suc i" "cur @ [d]" w0 docs1 start] tail Cons.prems d1(1)
    have "\<exists>chunks rest w1 docs' start' st'.
      consume_loop env wl (of_nat m) (of_nat (Suc i)) start docs1 st = Some (Inr (of_nat (Suc m), start', docs', st'))
      \<and> looped env wl w0 ((cur @ [d]) @ ds) m st chunks rest w1 docs' st'"
      by simp
    with False show ?thesis by (simp add: step)
  qed
qed

lemma consume_finish_ok:
  assumes u: "uses wl" and env: "no_faults env" and store: "wl_store wl = None" and w: "wf (wa_wal st)" and ok: "shard_ok (wa_shard st)"
    and m: "first (wa_wal st) \<le> m" "m < first (wa_wal st) + length (entries (wa_wal st))"
  shows "\<exists>st'. consume_finish env wl (of_nat m) st = Some (True, st') \<and> wf (wa_wal st') \<and> first (wa_wal st') = m
    \<and> entries (wa_wal st') = drop (m - first (wa_wal st)) (entries (wa_wal st)) \<and> wa_redo st' = wa_redo st \<and> wa_vec st' = wa_vec st
    \<and> shard_ok (wa_shard st') \<and> sh_num (wa_shard st) \<le> sh_num (wa_shard st')
    \<and> (docs_of (wa_shard st') = docs_of (wa_shard st) \<or> docs_of (wa_shard st') = docs_of (wa_shard st) @ [wl_fresh wl])"
proof -
  obtain w1 where w1: "truncateFront (wa_wal st) (of_nat m) = (None, w1)" "wf w1" "first w1 = m"
      "entries w1 = drop (m - first (wa_wal st)) (entries (wa_wal st))"
    using truncate_law [OF w m] by blast
  obtain s1 where s1: "CheckShards (we_op env) (we_owal env) (wl_stats wl) (wl_max wl) (wl_fresh wl) None (wa_shard st) = Some (None, s1)"
      "shard_ok s1" "sh_num (wa_shard st) \<le> sh_num s1" "docs_of s1 = docs_of (wa_shard st) \<or> docs_of s1 = docs_of (wa_shard st) @ [wl_fresh wl]"
    using CheckShards_ok [OF env ok] by blast
  obtain s2 where s2: "UpdateMetadataByShard (wl_stats wl) s1 = Some s2" "shard_ok s2" "sh_num s2 = sh_num s1" "docs_of s2 = docs_of s1"
    using UpdateMetadata_ok [OF s1(2)] by blast
  have "consume_finish env wl (of_nat m) st = Some (True, st\<lparr>wa_wal := w1, wa_shard := s2\<rparr>)"
    using u w1(1) s1(1) s2(1) store by (simp add: consume_finish_def uses_def)
  with w1 s1 s2 show ?thesis by simp
qed

lemma consume_tail_ok:
  assumes u: "uses wl" and env: "no_faults env" and ids: "\<And>is. set (wl_ids wl is) = set is"
    and l: "looped env wl [] ds m st chunks rest w1 docs st1" and ok: "\<forall>d \<in> set ds. doc_ok env (sh_num (wa_shard st)) d"
  shows "\<exists>st2 chunks w2. consume_tail env wl (of_nat m) start docs st1 = consume_finish env wl (of_nat m) st2 \<and> concat chunks = ds
    \<and> write_chunks env (wl_ids wl) [] (wa_shard st) (wa_vec st) chunks = Some (w2, wa_shard st2, wa_vec st2)
    \<and> wa_wal st2 = wa_wal st \<and> rwf (wa_redo st2) \<and> shard_ok (wa_shard st2) \<and> sh_num (wa_shard st2) = sh_num (wa_shard st)
    \<and> (\<exists>a. readRedoLog wl RedoActionWrite (wa_redo st2) = Inr (a, of_nat m) \<or> wa_redo st2 = wa_redo st1 \<and> rest = [])"
proof -
  note lo = l [unfolded looped_def]
  have rest: "\<forall>d \<in> set rest. doc_ok env (sh_num (wa_shard st1)) d" using lo ok by auto
  have k: "keys_ok (sh_num (wa_shard st1)) w1" "merges w1 []" using lo by auto
  obtain docs' where d: "add_all_docs rest w1 = Some docs'" "merges docs' (map (the \<circ> parsed) rest)" "keys_ok (sh_num (wa_shard st1)) docs'"
      "\<forall>op \<in> set (map (the \<circ> parsed) rest). op_ok env (sh_num (wa_shard st1)) op"
    using docs_ok_merge [OF k(2,1) rest] by blast
  have docs: "docs = docs'" using d(1) lo by simp
  show ?thesis
  proof (cases "rest = []")
    case True
    then have "\<not> 0 < MaxShardLen docs" using MaxShardLen_merges [OF d(2)] by (simp add: docs)
    then have "consume_tail env wl (of_nat m) start docs st1 = consume_finish env wl (of_nat m) st1" by (simp add: consume_tail_def)
    moreover have "concat chunks = ds" using lo True by simp
    ultimately show ?thesis using lo True by blast
  next
    case False
    then have pos: "0 < MaxShardLen docs" using MaxShardLen_merges [OF d(2)] by (simp add: docs)
    obtain s2 v2 where s2: "WriteTo env (wl_ids wl) False docs (wa_shard st1) (wa_vec st1) = Some (None, Reset docs, s2, v2)" "shard_ok s2"
        "sh_num s2 = sh_num (wa_shard st1)"
      using WriteTo_ok [OF env _ d(2,4,3) ids] lo unfolding docs by blast
    have r: "rwf (wa_redo st1)" using lo by blast
    obtain r2 where r2: "flush env wl start (of_nat m) docs st1 = Some (True, Reset docs, st1\<lparr>wa_redo := r2, wa_shard := s2, wa_vec := v2\<rparr>)"
        "rwf r2" "readRedoLog wl RedoActionWrite r2 = Inr (start, of_nat m)"
      using flush_ok [OF u r s2(1)] by blast
    let ?st2 = "st1\<lparr>wa_redo := r2, wa_shard := s2, wa_vec := v2\<rparr>"
    have "consume_tail env wl (of_nat m) start docs st1 = consume_finish env wl (of_nat m) ?st2" using pos r2(1) by (simp add: consume_tail_def)
    moreover have "write_chunks env (wl_ids wl) [] (wa_shard st) (wa_vec st) (chunks @ [rest]) = Some (Reset docs, wa_shard ?st2, wa_vec ?st2)"
      using lo s2(1) d(1) by (simp add: write_chunks_append docs)
    moreover have "concat (chunks @ [rest]) = ds" using lo by simp
    moreover have "wa_wal ?st2 = wa_wal st" "sh_num (wa_shard ?st2) = sh_num (wa_shard st)" using lo s2(3) by simp_all
    moreover have "rwf (wa_redo ?st2)" "shard_ok (wa_shard ?st2)" "readRedoLog wl RedoActionWrite (wa_redo ?st2) = Inr (start, of_nat m)"
      using r2 s2(2) by simp_all
    ultimately show ?thesis by blast
  qed
qed

text \<open>A shard whose entries up to \<open>c\<close> are committed and whose later entries decode to \<open>ds\<close>.\<close>

definition consumable :: "('c, 'd, 'v) wenv \<Rightarrow> ('c, 'w, 'r) wal_env \<Rightarrow> nat \<Rightarrow> jdoc list \<Rightarrow> ('c, 'v, 'w, 'r) wal_shard \<Rightarrow> bool" where
  "consumable env wl c ds st \<longleftrightarrow> wf (wa_wal st) \<and> rwf (wa_redo st) \<and> shard_ok (wa_shard st)
     \<and> (readRedoLog wl RedoActionWrite (wa_redo st) = Inl ErrNotFound \<and> c = 0 \<or> (\<exists>a. readRedoLog wl RedoActionWrite (wa_redo st) = Inr (a, of_nat c)))
     \<and> first (wa_wal st) \<le> c + 1 \<and> c + length ds + 1 = first (wa_wal st) + length (entries (wa_wal st))
     \<and> (\<forall>j < length ds. wl_decode wl (entries (wa_wal st) ! (c + 1 + j - first (wa_wal st))) = Inr (ds ! j))
     \<and> (\<forall>d \<in> set ds. doc_ok env (sh_num (wa_shard st)) d)"

lemma consume_from_eq:
  assumes u: "uses wl" and w: "wf (wa_wal st)" and c: "c + n + 1 = first (wa_wal st) + length (entries (wa_wal st))"
    and r: "readRedoLog wl RedoActionWrite (wa_redo st) = Inl ErrNotFound \<and> c = 0 \<or> (\<exists>a. readRedoLog wl RedoActionWrite (wa_redo st) = Inr (a, of_nat c))"
  shows "ConsumeWAL env wl st = (if n = 0 then Some (False, st)
    else case consume_loop env wl (of_nat (c + min n 10240)) (of_nat (c + 1)) (of_nat (c + 1)) [] st of
        None \<Rightarrow> None
      | Some (Inl st1) \<Rightarrow> Some (False, st1)
      | Some (Inr (minID, startID, docs, st1)) \<Rightarrow> consume_tail env wl (minID - 1) startID docs st1)"
proof -
  have b: "c + n < 2 ^ 64" using bound_law [OF w] c by simp
  have "ConsumeWAL env wl st = consume_from env wl (of_nat c) (of_nat (c + n)) st"
    using u last_law [OF w] r c [symmetric] by (auto simp: ConsumeWAL_def uses_def)
  moreover have "(of_nat c :: uint64) = of_nat (c + n) \<longleftrightarrow> n = 0" using b by (subst of_nat64_eq) auto
  moreover have "(if MaxBatchSize < (of_nat (c + n) :: uint64) - of_nat c then of_nat c + MaxBatchSize else of_nat (c + n)) = (of_nat (c + min n 10240) :: uint64)"
  proof -
    have "(of_nat 10240 :: uint64) < of_nat n \<longleftrightarrow> 10240 < n" by (intro of_nat64_less) (use b in auto)
    then have "MaxBatchSize < (of_nat (c + n) :: uint64) - of_nat c \<longleftrightarrow> 10240 < n" by (simp add: MaxBatchSize_def)
    then show ?thesis by (cases "10240 < n") (simp_all add: MaxBatchSize_def min_def)
  qed
  moreover have "(of_nat c :: uint64) + 1 = of_nat (c + 1)" by simp
  ultimately show ?thesis by (simp only: consume_from_def Let_def)
qed

lemma ConsumeWAL_ok:
  assumes u: "uses wl" and env: "no_faults env" and ids: "\<And>is. set (wl_ids wl is) = set is" and store: "wl_store wl = None"
    and c: "consumable env wl c ds st" and ne: "ds \<noteq> []"
  shows "\<exists>st' chunks w1 s1. ConsumeWAL env wl st = Some (True, st') \<and> concat chunks = take 10240 ds
    \<and> write_chunks env (wl_ids wl) [] (wa_shard st) (wa_vec st) chunks = Some (w1, s1, wa_vec st')
    \<and> (docs_of (wa_shard st') = docs_of s1 \<or> docs_of (wa_shard st') = docs_of s1 @ [wl_fresh wl])
    \<and> consumable env wl (c + length (take 10240 ds)) (drop 10240 ds) st'"
proof -
  note co = c [unfolded consumable_def]
  have w: "wf (wa_wal st)" "rwf (wa_redo st)" "shard_ok (wa_shard st)"
    and len: "c + length ds + 1 = first (wa_wal st) + length (entries (wa_wal st))" and f: "first (wa_wal st) \<le> c + 1" using co by auto
  have dec: "\<forall>j < length ds. wl_decode wl (entries (wa_wal st) ! (c + 1 + j - first (wa_wal st))) = Inr (ds ! j)" using co by blast
  let ?ds = "take 10240 ds" and ?m = "c + length (take 10240 ds)"
  have b: "c + length ds + 1 < 2 ^ 64" "0 < first (wa_wal st)" using bound_law [OF w(1)] len by simp_all
  have m: "?m = c + min (length ds) 10240" "?m = c + 1 + length ?ds - 1" by simp_all
  have reads: "\<forall>j < length ?ds. \<exists>e. readEntry (wa_wal st) (of_nat (c + 1 + j)) = Inr e \<and> wl_decode wl e = Inr (?ds ! j)"
  proof (intro allI impI)
    fix j
    assume j: "j < length ?ds"
    have "readEntry (wa_wal st) (of_nat (c + 1 + j)) = Inr (entries (wa_wal st) ! (c + 1 + j - first (wa_wal st)))"
      by (rule read_law [OF w(1)]) (use f len j in auto)
    moreover have "wl_decode wl (entries (wa_wal st) ! (c + 1 + j - first (wa_wal st))) = Inr (?ds ! j)" using co j by simp
    ultimately show "\<exists>e. readEntry (wa_wal st) (of_nat (c + 1 + j)) = Inr e \<and> wl_decode wl e = Inr (?ds ! j)" by blast
  qed
  have oks: "\<forall>d \<in> set ([] @ ?ds). doc_ok env (sh_num (wa_shard st)) d" using co by (auto dest: in_set_takeD)
  have com: "committed wl (wa_redo st) = of_nat (c + 1 - 1 - length [])" using co by (auto simp: committed_def)
  have nil: "merges [] []" "keys_ok (sh_num (wa_shard st)) []" using merges_Reset [of "[]"] by (simp_all add: Reset_def keys_ok_def)
  have b2: "c + 1 + length ?ds < 2 ^ 64" using b(1) by auto
  obtain chunks0 rest w0 docs start st1 where
    l: "consume_loop env wl (of_nat ?m) (of_nat (c + 1)) (of_nat (c + 1)) [] st = Some (Inr (of_nat (Suc ?m), start, docs, st1))"
      "looped env wl [] ([] @ ?ds) ?m st chunks0 rest w0 docs st1"
    using consume_loop_ok [OF u env ids reads b2 _ m(2) w(2,3) com nil oks add_all_docs.simps(1)] by (metis length_greater_0_conv list.size(3) trans_less_add2 zero_less_one)
  obtain st2 chunks w2 where t: "consume_tail env wl (of_nat ?m) start docs st1 = consume_finish env wl (of_nat ?m) st2" "concat chunks = ?ds"
      "write_chunks env (wl_ids wl) [] (wa_shard st) (wa_vec st) chunks = Some (w2, wa_shard st2, wa_vec st2)"
      "wa_wal st2 = wa_wal st" "rwf (wa_redo st2)" "shard_ok (wa_shard st2)" "sh_num (wa_shard st2) = sh_num (wa_shard st)"
      "\<exists>a. readRedoLog wl RedoActionWrite (wa_redo st2) = Inr (a, of_nat ?m) \<or> wa_redo st2 = wa_redo st1 \<and> rest = []"
    using consume_tail_ok [OF u env ids l(2) [unfolded append_Nil] oks [unfolded append_Nil], of start] by blast
  have mb: "first (wa_wal st) \<le> ?m" "?m < first (wa_wal st) + length (entries (wa_wal st))" using f len ne by (cases ds; simp; linarith)+
  obtain st' where st': "consume_finish env wl (of_nat ?m) st2 = Some (True, st')" "wf (wa_wal st')" "first (wa_wal st') = ?m"
      "entries (wa_wal st') = drop (?m - first (wa_wal st)) (entries (wa_wal st))" "wa_redo st' = wa_redo st2" "wa_vec st' = wa_vec st2"
      "shard_ok (wa_shard st')" "sh_num (wa_shard st2) \<le> sh_num (wa_shard st')"
      "docs_of (wa_shard st') = docs_of (wa_shard st2) \<or> docs_of (wa_shard st') = docs_of (wa_shard st2) @ [wl_fresh wl]"
    using consume_finish_ok [OF u env store _ t(6), of ?m] mb w(1) t(4) by auto
  have run: "ConsumeWAL env wl st = Some (True, st')"
    using consume_from_eq [OF u w(1) len, of env] co l(1) t(1) st'(1) ne by (simp add: m(1))
  have c1: "committed wl (wa_redo st1) = of_nat (?m - length rest)" using l(2) unfolding looped_def by blast
  have "0 < ?m" using ne by (cases ds) auto
  moreover have "?m < 2 ^ 64" using b2 by linarith
  ultimately have nz: "(of_nat ?m :: uint64) \<noteq> of_nat 0" by (subst of_nat64_eq) auto
  have "\<exists>a. readRedoLog wl RedoActionWrite r = Inr (a, of_nat ?m)" if "committed wl r = of_nat ?m" for r
    using that nz unfolding committed_def by (auto split: sum.splits simp del: of_nat_add)
  then have "\<exists>a. readRedoLog wl RedoActionWrite (wa_redo st') = Inr (a, of_nat ?m)"
    using t(8) c1 unfolding st'(5) by fastforce
  moreover have "\<forall>j < length (drop 10240 ds). wl_decode wl (entries (wa_wal st') ! (?m + 1 + j - first (wa_wal st'))) = Inr (drop 10240 ds ! j)"
  proof (intro allI impI)
    fix j
    assume j: "j < length (drop 10240 ds)"
    then have "?m = c + 10240" by simp
    then have "?m - first (wa_wal st) + (?m + 1 + j - first (wa_wal st')) = c + 1 + (10240 + j) - first (wa_wal st)"
      using mb(1) by (simp add: st'(3))
    moreover have "entries (wa_wal st') ! (?m + 1 + j - first (wa_wal st')) = entries (wa_wal st) ! (?m - first (wa_wal st) + (?m + 1 + j - first (wa_wal st')))"
      unfolding st'(4) by (rule nth_drop) (use mb in simp)
    moreover have "wl_decode wl (entries (wa_wal st) ! (c + 1 + (10240 + j) - first (wa_wal st))) = Inr (ds ! (10240 + j))"
      by (rule dec [rule_format]) (use j in simp)
    moreover have "drop 10240 ds ! j = ds ! (10240 + j)" using j by simp
    ultimately show "wl_decode wl (entries (wa_wal st') ! (?m + 1 + j - first (wa_wal st'))) = Inr (drop 10240 ds ! j)" by (simp only:)
  qed
  moreover have "\<forall>d \<in> set (drop 10240 ds). doc_ok env (sh_num (wa_shard st')) d" using co t(7) st'(8) by (auto dest!: in_set_dropD simp: doc_ok_def op_ok_def split: option.splits)
  ultimately have "consumable env wl ?m (drop 10240 ds) st'"
    unfolding consumable_def using st' t(5) len mb by simp
  with run t(2,3) st'(6,9) show ?thesis by metis
qed

end

interpretation sql_client: wal_client sw_ok sw_first sw_entries sw_last sw_read sw_truncate sw_append sw_reopen
  "\<lambda>_. True" "sql_val name" "sql_redo_Write (None, None, None, None) name" "sql_redo_Read None name" for name ..

section \<open>Writing without a log\<close>

lemma commit_batches_ok:
  assumes b: "0 < b" and ok: "\<forall>d \<in> set ops. doc_ok env n d"
  shows "\<exists>chunks. concat chunks = drop i ops \<and> (\<forall>ds \<in> set chunks. ds \<noteq> [] \<and> int (length ds) \<le> b)
    \<and> commit_batches b ops i acc = Some (acc @ map (\<lambda>ds. the (add_all_docs ds [])) chunks)"
proof (induction "length ops - i" arbitrary: i acc rule: less_induct)
  case less
  show ?case
  proof (cases "i < length ops")
    case False
    then have "commit_batches b ops i acc = Some acc" by (subst commit_batches.simps) simp
    with False show ?thesis by (intro exI [of _ "[]"]) simp
  next
    case True
    let ?c = "take (nat b) (drop i ops)"
    have "\<forall>d \<in> set ?c. doc_ok env n d" using ok by (auto dest: in_set_takeD in_set_dropD)
    moreover have "merges [] []" "keys_ok n []" using merges_Reset [of "[]"] by (simp_all add: Reset_def keys_ok_def)
    ultimately obtain w where w: "add_all_docs ?c [] = Some w" using docs_ok_merge by blast
    have "length ops - (i + nat b) < length ops - i" using True b by simp
    from less.hyps [OF this, of "acc @ [w]"] obtain chunks where
      c: "concat chunks = drop (i + nat b) ops" "\<forall>ds \<in> set chunks. ds \<noteq> [] \<and> int (length ds) \<le> b"
        "commit_batches b ops (i + nat b) (acc @ [w]) = Some ((acc @ [w]) @ map (\<lambda>ds. the (add_all_docs ds [])) chunks)" by blast
    have "commit_batches b ops i acc = commit_batches b ops (i + nat b) (acc @ [w])"
      using True b w by (subst commit_batches.simps) simp
    moreover have "concat (?c # chunks) = drop i ops" using c(1) append_take_drop_id [of "nat b" "drop i ops"] by (simp add: add.commute)
    moreover have "?c \<noteq> []" "int (length ?c) \<le> b" using True b by auto
    ultimately show ?thesis using c w by (intro exI [of _ "?c # chunks"]) simp
  qed
qed

lemma commit_batches_stuck:
  assumes "commit_batches b ops i acc = Some r"
  shows "i < length ops \<longrightarrow> 0 < b"
proof (rule commit_batches.raw_induct [where P = "\<lambda>b ops i acc r. i < length ops \<longrightarrow> 0 < b", OF _ assms])
  fix f :: "int \<Rightarrow> jdoc list \<Rightarrow> nat \<Rightarrow> merge_docs list \<Rightarrow> merge_docs list option" and b ops i acc r
  assume IH: "\<And>b ops i acc r. f b ops i acc = Some r \<Longrightarrow> i < length ops \<longrightarrow> 0 < b"
    and eq: "(if \<not> i < length ops then Some acc
      else if b < 0 then None
      else case add_all_docs (take (nat b) (drop i ops)) [] of None \<Rightarrow> None | Some docs \<Rightarrow> f b ops (i + nat b) (acc @ [docs])) = Some r"
  show "i < length ops \<longrightarrow> 0 < b"
  proof (intro impI, rule ccontr)
    assume i: "i < length ops" and "\<not> 0 < b"
    with eq have b: "b = 0" by (cases "b < 0") auto
    with i eq obtain docs where "f b ops (i + nat b) (acc @ [docs]) = Some r" by (auto split: option.splits)
    from IH [OF this] i b show False by simp
  qed
qed

lemma commit_write_ok:
  assumes env: "no_faults env" and ids: "\<And>is. set (ids is) = set is"
  shows "shard_ok s \<Longrightarrow> \<forall>ds \<in> set chunks. \<forall>d \<in> set ds. doc_ok env (sh_num s) d \<Longrightarrow>
    \<exists>s' v'. commit_write env ids (map (\<lambda>ds. the (add_all_docs ds [])) chunks) s v = Some (None, s', v') \<and> shard_ok s'"
proof (induction chunks arbitrary: s v)
  case (Cons ds chunks)
  have "merges [] []" "keys_ok (sh_num s) []" using merges_Reset [of "[]"] by (simp_all add: Reset_def keys_ok_def)
  with Cons.prems(2) obtain w where w: "add_all_docs ds [] = Some w" "merges w (map (the \<circ> parsed) ds)" "keys_ok (sh_num s) w"
      "\<forall>op \<in> set (map (the \<circ> parsed) ds). op_ok env (sh_num s) op"
    using docs_ok_merge [of "[]" "sh_num s" ds env] by auto
  obtain s1 v1 where "WriteTo env ids False w s v = Some (None, Reset w, s1, v1)" "shard_ok s1" "sh_num s1 = sh_num s"
    using WriteTo_ok [OF env Cons.prems(1) w(2,4,3) ids] by blast
  with Cons.IH [of s1 v1] Cons.prems(2) w(1) show ?case by simp
qed simp

section \<open>Properties\<close>

text \<open>The log and the redo log on an SQL database that does not fail.\<close>

definition sql_wal_env :: "string \<Rightarrow> (byte list \<Rightarrow> error + jdoc) \<Rightarrow> (int list \<Rightarrow> int list) \<Rightarrow> int \<Rightarrow> nat \<Rightarrow> ('c \<Rightarrow> nat \<times> nat) \<Rightarrow> 'c
    \<Rightarrow> ('c, sql_wal \<times> sql_row list, sql_row list) wal_env" where
  "sql_wal_env name decode ids b mx stats fresh =
     \<lparr>wl_last = sw_last, wl_read = sw_read, wl_trunc = sw_truncate, wl_put = sql_redo_Write (None, None, None, None) name,
      wl_get = sql_redo_Read None name, wl_decode = decode, wl_ids = ids, wl_batch = b, wl_max = mx, wl_stats = stats,
      wl_fresh = fresh, wl_store = None\<rparr>"

text \<open>The entries up to \<open>c\<close> are committed, and the later ones are the valid operations \<open>ds\<close>.\<close>

definition pending :: "('c, 'd, 'v) wenv \<Rightarrow> ('c, sql_wal \<times> sql_row list, 'r) wal_env \<Rightarrow> nat \<Rightarrow> jdoc list
    \<Rightarrow> ('c, 'v, sql_wal \<times> sql_row list, 'r) wal_shard \<Rightarrow> bool" where
  "pending env wl c ds st \<longleftrightarrow> sw_ok (wa_wal st) \<and> shard_ok (wa_shard st)
     \<and> (readRedoLog wl RedoActionWrite (wa_redo st) = Inl ErrNotFound \<and> c = 0 \<or> (\<exists>a. readRedoLog wl RedoActionWrite (wa_redo st) = Inr (a, of_nat c)))
     \<and> sw_first (wa_wal st) \<le> c + 1 \<and> c + length ds + 1 = sw_first (wa_wal st) + length (sw_entries (wa_wal st))
     \<and> (\<forall>j < length ds. wl_decode wl (sw_entries (wa_wal st) ! (c + 1 + j - sw_first (wa_wal st))) = Inr (ds ! j))
     \<and> (\<forall>d \<in> set ds. doc_ok env (sh_num (wa_shard st)) d)"

text \<open>C5: consuming the log processes every logged operation once and in order. When nothing fails, a run of
  \<^verbatim>\<open>ConsumeWAL\<close> takes the operations after the committed index, at most 10240 of them, writes them in their
  order, cut into merged batches, and leaves a shard in which exactly these are committed and the
  following ones are pending; without pending operations it changes nothing.\<close>

theorem ConsumeWAL_once:
  assumes "no_faults env" and "\<forall>is. set (ids is) = set is" and "wl = sql_wal_env name decode ids b mx stats fresh" and "pending env wl c ds st"
  shows "(ds = [] \<longrightarrow> ConsumeWAL env wl st = Some (False, st))
    \<and> (ds \<noteq> [] \<longrightarrow> (\<exists>st' chunks w1 s1. ConsumeWAL env wl st = Some (True, st') \<and> concat chunks = take 10240 ds
        \<and> write_chunks env ids [] (wa_shard st) (wa_vec st) chunks = Some (w1, s1, wa_vec st')
        \<and> (docs_of (wa_shard st') = docs_of s1 \<or> docs_of (wa_shard st') = docs_of s1 @ [fresh])
        \<and> pending env wl (c + length (take 10240 ds)) (drop 10240 ds) st'))"
proof -
  have u: "sql_client.uses name wl" and wl: "wl_store wl = None" "wl_fresh wl = fresh" "wl_ids wl = ids"
    by (simp_all add: assms(3) sql_wal_env_def sql_client.uses_def)
  have p: "sql_client.consumable env wl k es st' = pending env wl k es st'" for k es st'
    by (simp add: sql_client.consumable_def pending_def)
  have "ConsumeWAL env wl st = Some (False, st)" if "ds = []"
    using sql_client.consume_from_eq [OF u, of st c 0 env] assms(4) that by (simp add: pending_def)
  with sql_client.ConsumeWAL_ok [OF u assms(1) _ wl(1), of c ds st] assms(2,4) show ?thesis
    unfolding p wl by blast
qed

definition one_decode :: "byte list \<Rightarrow> error + jdoc" where
  "one_decode bs = (case bs of [n] \<Rightarrow> Inr (int_op ''insert'' ''x'' (- 1) (int (unat n))) | _ \<Rightarrow> Inl ''invalid'')"

definition one_wal_shard :: "((string \<times> int) list, vec_action list, sql_wal \<times> sql_row list, sql_row list) wal_shard" where
  "one_wal_shard = \<lparr>wa_shard = new_shard ''0'' [], wa_vec = [], wa_wal = (\<lparr>sw_name = ''a'', sw_next = 2\<rparr>, [(''a'', 1, [7])]), wa_redo = [],
     wa_open = True, wa_listed = True\<rparr>"

theorem ConsumeWAL_once_witness:
  "\<exists>st'. ConsumeWAL int_env (sql_wal_env ''a'' one_decode (\<lambda>is. is) 1024 1000 (\<lambda>_. (0, 0)) []) one_wal_shard = Some (True, st')
     \<and> pending int_env (sql_wal_env ''a'' one_decode (\<lambda>is. is) 1024 1000 (\<lambda>_. (0, 0)) []) 1 [] st'"
proof -
  let ?wl = "sql_wal_env ''a'' one_decode (\<lambda>is. is) 1024 1000 (\<lambda>_. (0, 0)) ([] :: (string \<times> int) list)"
  have "pending int_env ?wl 0 [int_op ''insert'' ''x'' (- 1) 7] one_wal_shard"
    by (auto simp: pending_def one_wal_shard_def sw_ok_def sw_first_def sw_entries_def rows_def shard_ok_def new_shard_def readRedoLog_def
        sql_wal_env_def sql_redo_Read_def one_decode_def doc_ok_def parsed_def op_fields_def int_op_def op_ok_def int_env_def upt_rec)
  from ConsumeWAL_once [OF int_env_ok(1) _ refl this] show ?thesis by auto
qed

text \<open>C21: without a log, writing a list of operations ends exactly when there is nothing to write or the
  configured batch size is positive; then the list is cut, in its order, into batches of at most that
  size, which are written one after the other. A batch size of zero makes the call loop for ever and a
  negative one makes it panic.\<close>

theorem CommitOperations_ends:
  assumes env: "no_faults env" and ids: "\<forall>is. set (wl_ids wl is) = set is" and store: "wl_store wl = None" and ok: "shard_ok s"
    and docs: "\<forall>d \<in> set ops. doc_ok env (sh_num s) d"
  shows "(CommitOperations env wl ops s v \<noteq> None \<longleftrightarrow> ops = [] \<or> 0 < wl_batch wl)
    \<and> (0 < wl_batch wl \<longrightarrow> (\<exists>chunks s1 v1 s2. concat chunks = ops \<and> (\<forall>ds \<in> set chunks. ds \<noteq> [] \<and> int (length ds) \<le> wl_batch wl)
        \<and> commit_write env (wl_ids wl) (map (\<lambda>ds. the (add_all_docs ds [])) chunks) s v = Some (None, s1, v1)
        \<and> CommitOperations env wl ops s v = Some (None, s2, v1) \<and> (docs_of s2 = docs_of s1 \<or> docs_of s2 = docs_of s1 @ [wl_fresh wl])))"
proof -
  have run: "\<exists>s1 v1 s2. commit_write env (wl_ids wl) (map (\<lambda>ds. the (add_all_docs ds [])) chunks) s v = Some (None, s1, v1)
      \<and> CommitOperations env wl ops s v = Some (None, s2, v1) \<and> (docs_of s2 = docs_of s1 \<or> docs_of s2 = docs_of s1 @ [wl_fresh wl])"
    if c: "concat chunks = ops" "commit_batches (wl_batch wl) ops 0 [] = Some (map (\<lambda>ds. the (add_all_docs ds [])) chunks)" for chunks
  proof -
    have "\<forall>ds \<in> set chunks. \<forall>d \<in> set ds. doc_ok env (sh_num s) d" using docs c(1) by auto
    then obtain s1 v1 where s1: "commit_write env (wl_ids wl) (map (\<lambda>ds. the (add_all_docs ds [])) chunks) s v = Some (None, s1, v1)" "shard_ok s1"
      using commit_write_ok [OF env _ ok, of "wl_ids wl" chunks v] ids by blast
    obtain s2 where s2: "CheckShards (we_op env) (we_owal env) (wl_stats wl) (wl_max wl) (wl_fresh wl) None s1 = Some (None, s2)" "shard_ok s2"
        "docs_of s2 = docs_of s1 \<or> docs_of s2 = docs_of s1 @ [wl_fresh wl]"
      using CheckShards_ok [OF env s1(2)] by blast
    obtain s3 where s3: "UpdateMetadataByShard (wl_stats wl) s2 = Some s3" "docs_of s3 = docs_of s2" using UpdateMetadata_ok [OF s2(2)] by blast
    have "CommitOperations env wl ops s v = Some (None, s3, v1)" using c(2) s1(1) s2(1) s3(1) store by (simp add: CommitOperations_def)
    with s1 s2(3) s3(2) show ?thesis by auto
  qed
  have pos: "\<exists>chunks. concat chunks = ops \<and> (\<forall>ds \<in> set chunks. ds \<noteq> [] \<and> int (length ds) \<le> wl_batch wl)
      \<and> commit_batches (wl_batch wl) ops 0 [] = Some (map (\<lambda>ds. the (add_all_docs ds [])) chunks)" if "0 < wl_batch wl"
    using commit_batches_ok [OF that docs, of 0 "[]"] by simp
  have "CommitOperations env wl ops s v \<noteq> None" if "ops = []"
  proof -
    have "commit_batches (wl_batch wl) ops 0 [] = Some (map (\<lambda>ds. the (add_all_docs ds [])) [])" using that by (subst commit_batches.simps) simp
    with run [of "[]"] that show ?thesis by auto
  qed
  moreover have "0 < wl_batch wl" if "CommitOperations env wl ops s v \<noteq> None" "ops \<noteq> []"
    using that commit_batches_stuck [of "wl_batch wl" ops 0 "[]"] by (auto simp: CommitOperations_def split: option.splits)
  ultimately show ?thesis using run pos by (metis option.distinct(1))
qed

theorem CommitOperations_ends_witness:
  "\<exists>s2 v2. CommitOperations int_env (sql_wal_env ''a'' one_decode (\<lambda>is. is) 1 1000 (\<lambda>_. (0, 0)) [])
     [int_op ''insert'' ''x'' (- 1) 1, int_op ''insert'' ''y'' (- 1) 2] (new_shard ''0'' []) [] = Some (None, s2, v2)"
proof -
  let ?wl = "sql_wal_env ''a'' one_decode (\<lambda>is. is) 1 1000 (\<lambda>_. (0, 0)) ([] :: (string \<times> int) list)"
  let ?ops = "[int_op ''insert'' ''x'' (- 1) 1, int_op ''insert'' ''y'' (- 1) 2]"
  have d: "\<forall>d \<in> set ?ops. doc_ok int_env (sh_num (new_shard ''0'' [])) d"
    by (simp add: doc_ok_def parsed_def op_fields_def int_op_def op_ok_def int_env_def)
  have wl: "\<forall>is. set (wl_ids ?wl is) = set is" "wl_store ?wl = None" "0 < wl_batch ?wl" by (simp_all add: sql_wal_env_def)
  have "shard_ok (new_shard ''0'' ([] :: (string \<times> int) list))" by (simp add: shard_ok_def new_shard_def)
  from CommitOperations_ends [OF int_env_ok(1) wl(1,2) this d, of "[]"] wl(3) show ?thesis by blast
qed

lemma Rollback_keeps:
  "Rollback env wl st = Some (e, st') \<Longrightarrow> wa_open st' = wa_open st \<and> wa_listed st' = wa_listed st"
  by (auto simp: Rollback_def rollback_from_def split: sum.splits redo_error.splits if_splits option.splits prod.splits)

text \<open>C35: when undoing an interrupted batch fails, \<^verbatim>\<open>OpenWAL\<close> returns the error but leaves the shard marked as open
  and not on the list of the shards whose log is consumed; every later call then succeeds without
  doing anything, so the log of the shard is filled and never consumed.\<close>

theorem OpenWAL_failed:
  assumes "OpenWAL True (Inr wr) env wl st = Some (Some e, st')" and "\<not> wa_open st"
  shows "wa_open st' \<and> wa_listed st' = wa_listed st \<and> (\<forall>wopen. OpenWAL True wopen env wl st' = Some (None, st'))"
proof -
  obtain w r where wr: "wr = (w, r)" by (cases wr)
  have "Rollback env wl (st\<lparr>wa_wal := w, wa_redo := r, wa_open := True\<rparr>) = Some (Some e, st')"
    using assms by (auto simp: OpenWAL_def wr split: option.splits prod.splits)
  from Rollback_keeps [OF this] show ?thesis by (simp add: OpenWAL_def)
qed

theorem OpenWAL_failed_witness:
  "\<exists>st'. OpenWAL True (Inr ((\<lparr>sw_name = ''a'', sw_next = 1\<rparr>, []), [(''a'', 1, bytes_of ''x'')])) int_env
       (sql_wal_env ''a'' one_decode (\<lambda>is. is) 1 1000 (\<lambda>_. (0, 0)) []) (one_wal_shard\<lparr>wa_open := False, wa_listed := False\<rparr>) = Some (Some ''invalid redo log: [x]'', st')
     \<and> wa_open st' \<and> \<not> wa_listed st'"
proof -
  let ?st = "one_wal_shard\<lparr>wa_open := False, wa_listed := False\<rparr>"
  let ?wl = "sql_wal_env ''a'' one_decode (\<lambda>is. is) 1 1000 (\<lambda>_. (0, 0)) ([] :: (string \<times> int) list)"
  let ?wr = "((\<lparr>sw_name = ''a'', sw_next = 1\<rparr>, [] :: sql_row list), [(''a'', 1, bytes_of ''x'')] :: sql_row list)"
  obtain st' where r: "OpenWAL True (Inr ?wr) int_env ?wl ?st = Some (Some ''invalid redo log: [x]'', st')"
    by (simp add: OpenWAL_def Rollback_def readRedoLog_def sql_wal_env_def sql_redo_Read_def RedoActionRead_def one_wal_shard_def)
  from OpenWAL_failed [OF r] show ?thesis using r by (simp add: one_wal_shard_def)
qed

end
