(* ===== verification/Key_Cache.thy ===== *)
theory Key_Cache
  imports Json
begin

text \<open>
  The cache of object listings, \<^verbatim>\<open>pkg/bluge/directory/keycache.go\<close>. A listing is fetched without the lock, so a
  change of the objects may be made while it is on its way; the cache notes this in the item. The
  object store behind it holds a list of keys; reading a listing from it and changing it are atomic.
\<close>

section \<open>Model\<close>

record cache_item =
  ci_ready :: bool
  ci_invalid :: bool
  ci_keys :: "string list"

text \<open>Items are shared by reference: \<open>kc_items\<close> gives the item of a prefix, in the order in which the map is
  ranged over.\<close>

record key_cache =
  kc_items :: "(string \<times> nat) list"
  kc_heap :: "nat \<Rightarrow> cache_item"
  kc_next :: nat

definition new_item :: cache_item where
  "new_item = \<lparr>ci_ready = False, ci_invalid = False, ci_keys = []\<rparr>"

definition newObjectKeyCache :: key_cache where
  "newObjectKeyCache = \<lparr>kc_items = [], kc_heap = (\<lambda>_. new_item), kc_next = 0\<rparr>"

definition HasPrefix :: "string \<Rightarrow> string \<Rightarrow> bool" where
  "HasPrefix key pre \<longleftrightarrow> take (length pre) key = pre"

definition store_list :: "string list \<Rightarrow> string \<Rightarrow> string list" where
  "store_list objs pre = filter (\<lambda>k. HasPrefix k pre) objs"

text \<open>\<^verbatim>\<open>List\<close> up to its first unlock: the cached keys (\<open>Inl\<close>), or a new item whose keys are to be fetched.\<close>

definition list_begin :: "string \<Rightarrow> key_cache \<Rightarrow> string list + nat \<times> key_cache" where
  "list_begin pre c =
     (let fetch = Inr (kc_next c, c\<lparr>kc_items := aput pre (kc_next c) (kc_items c),
            kc_heap := (kc_heap c)(kc_next c := new_item), kc_next := kc_next c + 1\<rparr>) in
      case map_of (kc_items c) pre of
        Some i \<Rightarrow> if ci_ready (kc_heap c i) then Inl (ci_keys (kc_heap c i)) else fetch
      | None \<Rightarrow> fetch)"

text \<open>\<^verbatim>\<open>List\<close> after the keys have been fetched: they are kept when the item is still the one of the prefix.\<close>

definition list_end :: "string \<Rightarrow> nat \<Rightarrow> string list \<Rightarrow> key_cache \<Rightarrow> key_cache" where
  "list_end pre i keys c =
     (if map_of (kc_items c) pre = Some i \<and> \<not> ci_invalid (kc_heap c i)
      then c\<lparr>kc_heap := (kc_heap c)(i := (kc_heap c i)\<lparr>ci_ready := True, ci_keys := keys\<rparr>)\<rparr>
      else c)"

definition matches :: "string list \<Rightarrow> string \<Rightarrow> bool" where
  "matches keys pre \<longleftrightarrow> list_ex (\<lambda>key. HasPrefix key pre) keys"

fun invalidate_loop :: "string list \<Rightarrow> (string \<times> nat) list \<Rightarrow> key_cache \<Rightarrow> key_cache" where
  "invalidate_loop keys [] c = c"
| "invalidate_loop keys ((pre, i) # rest) c =
     invalidate_loop keys rest
       (if \<not> matches keys pre then c
        else if ci_ready (kc_heap c i) then c\<lparr>kc_items := adel pre (kc_items c)\<rparr>
        else c\<lparr>kc_heap := (kc_heap c)(i := (kc_heap c i)\<lparr>ci_invalid := True\<rparr>)\<rparr>)"

definition Invalidate :: "string list \<Rightarrow> key_cache \<Rightarrow> key_cache" where
  "Invalidate keys c = invalidate_loop keys (kc_items c) c"

text \<open>
  Concurrent callers. A caller of \<^verbatim>\<open>List\<close> fetches the keys for its item; a caller of \<^verbatim>\<open>Write\<close>, \<^verbatim>\<open>Remove\<close> or \<^verbatim>\<open>Copy\<close> of
  \<^verbatim>\<open>KeyCacheClient\<close> changes the objects with some keys (the destination of a copy), in one or more steps and whether or
  not the store reports an error, and then invalidates these keys.
\<close>

datatype kc_pc = Idle | Fetching string nat | Fetched string nat "string list" | Changing "string list"

inductive kc_reach :: "('t \<Rightarrow> kc_pc) \<Rightarrow> string list \<Rightarrow> key_cache \<Rightarrow> bool" where
  kc_init: "kc_reach (\<lambda>_. Idle) objs newObjectKeyCache"
| kc_begin: "kc_reach pc objs c \<Longrightarrow> pc t = Idle \<Longrightarrow> list_begin pre c = Inr (i, c') \<Longrightarrow> kc_reach (pc(t := Fetching pre i)) objs c'"
| kc_fetch: "kc_reach pc objs c \<Longrightarrow> pc t = Fetching pre i \<Longrightarrow> kc_reach (pc(t := Fetched pre i (store_list objs pre))) objs c"
| kc_fail: "kc_reach pc objs c \<Longrightarrow> pc t = Fetching pre i \<Longrightarrow> kc_reach (pc(t := Idle)) objs c"
| kc_end: "kc_reach pc objs c \<Longrightarrow> pc t = Fetched pre i keys \<Longrightarrow> kc_reach (pc(t := Idle)) objs (list_end pre i keys c)"
| kc_change: "kc_reach pc objs c \<Longrightarrow> pc t \<in> {Idle, Changing keys} \<Longrightarrow> filter (\<lambda>k. k \<notin> set keys) objs' = filter (\<lambda>k. k \<notin> set keys) objs \<Longrightarrow>
    kc_reach (pc(t := Changing keys)) objs' c"
| kc_invalidate: "kc_reach pc objs c \<Longrightarrow> pc t = Changing keys \<Longrightarrow> kc_reach (pc(t := Idle)) objs (Invalidate keys c)"

section \<open>Invalidation\<close>

lemma invalidate_loop_keeps:
  "(map_of (kc_items (invalidate_loop keys items c)) pre = Some i \<longrightarrow> map_of (kc_items c) pre = Some i)
   \<and> ci_ready (kc_heap (invalidate_loop keys items c) j) = ci_ready (kc_heap c j)
   \<and> ci_keys (kc_heap (invalidate_loop keys items c) j) = ci_keys (kc_heap c j)
   \<and> (ci_invalid (kc_heap c j) \<longrightarrow> ci_invalid (kc_heap (invalidate_loop keys items c) j))
   \<and> kc_next (invalidate_loop keys items c) = kc_next c"
proof (induction keys items c rule: invalidate_loop.induct)
  case (2 keys pre' k rest c)
  let ?c = "if \<not> matches keys pre' then c
        else if ci_ready (kc_heap c k) then c\<lparr>kc_items := adel pre' (kc_items c)\<rparr>
        else c\<lparr>kc_heap := (kc_heap c)(k := (kc_heap c k)\<lparr>ci_invalid := True\<rparr>)\<rparr>"
  have "(map_of (kc_items ?c) pre = Some i \<longrightarrow> map_of (kc_items c) pre = Some i) \<and> ci_ready (kc_heap ?c j) = ci_ready (kc_heap c j)
     \<and> ci_keys (kc_heap ?c j) = ci_keys (kc_heap c j) \<and> (ci_invalid (kc_heap c j) \<longrightarrow> ci_invalid (kc_heap ?c j)) \<and> kc_next ?c = kc_next c"
    by auto
  with "2.IH" show ?case by simp
qed simp

lemma invalidate_loop_hit:
  "(pre, i) \<in> set items \<Longrightarrow> matches keys pre \<Longrightarrow> map_of (kc_items (invalidate_loop keys items c)) pre = Some i \<Longrightarrow>
   ci_invalid (kc_heap (invalidate_loop keys items c) i) \<and> \<not> ci_ready (kc_heap c i)"
proof (induction keys items c rule: invalidate_loop.induct)
  case (2 keys pre' k rest c)
  let ?c = "if \<not> matches keys pre' then c
        else if ci_ready (kc_heap c k) then c\<lparr>kc_items := adel pre' (kc_items c)\<rparr>
        else c\<lparr>kc_heap := (kc_heap c)(k := (kc_heap c k)\<lparr>ci_invalid := True\<rparr>)\<rparr>"
  have step: "invalidate_loop keys ((pre', k) # rest) c = invalidate_loop keys rest ?c" by simp
  have ready: "ci_ready (kc_heap ?c j) = ci_ready (kc_heap c j)" for j by auto
  note keep = invalidate_loop_keeps [of keys rest ?c pre i i]
  show ?case
  proof (cases "(pre, i) = (pre', k)")
    case True
    have "map_of (kc_items ?c) pre = Some i" using keep "2.prems"(3) unfolding step by blast
    with True "2.prems"(2) have "\<not> ci_ready (kc_heap c i)" "ci_invalid (kc_heap ?c i)" by (auto split: if_splits)
    with keep show ?thesis unfolding step by blast
  next
    case False
    with "2.prems" have "(pre, i) \<in> set rest" by auto
    from "2.IH" [OF this "2.prems"(2)] "2.prems"(3) ready [of i] show ?thesis unfolding step by blast
  qed
qed simp

section \<open>Cached listings are up to date\<close>

definition changing :: "('t \<Rightarrow> kc_pc) \<Rightarrow> string \<Rightarrow> bool" where
  "changing pc pre \<longleftrightarrow> (\<exists>t keys. pc t = Changing keys \<and> matches keys pre)"

definition current :: "('t \<Rightarrow> kc_pc) \<Rightarrow> string list \<Rightarrow> string \<Rightarrow> string list \<Rightarrow> bool" where
  "current pc objs pre keys \<longleftrightarrow> keys = store_list objs pre \<or> changing pc pre"

definition kc_inv :: "('t \<Rightarrow> kc_pc) \<Rightarrow> string list \<Rightarrow> key_cache \<Rightarrow> bool" where
  "kc_inv pc objs c \<longleftrightarrow>
     (\<forall>pre i. map_of (kc_items c) pre = Some i \<longrightarrow> i < kc_next c
        \<and> (ci_ready (kc_heap c i) \<longrightarrow> current pc objs pre (ci_keys (kc_heap c i))))
     \<and> (\<forall>pre pre' i. map_of (kc_items c) pre = Some i \<longrightarrow> map_of (kc_items c) pre' = Some i \<longrightarrow> pre = pre')
     \<and> (\<forall>t pre i. pc t = Fetching pre i \<longrightarrow> i < kc_next c)
     \<and> (\<forall>t pre i keys. pc t = Fetched pre i keys \<longrightarrow> i < kc_next c
        \<and> (map_of (kc_items c) pre = Some i \<and> \<not> ci_invalid (kc_heap c i) \<longrightarrow> current pc objs pre keys))"

lemma kc_invD:
  assumes "kc_inv pc objs c"
  shows "map_of (kc_items c) pre = Some i \<Longrightarrow> i < kc_next c"
    "map_of (kc_items c) pre = Some i \<Longrightarrow> ci_ready (kc_heap c i) \<Longrightarrow> current pc objs pre (ci_keys (kc_heap c i))"
    "map_of (kc_items c) pre = Some i \<Longrightarrow> map_of (kc_items c) pre' = Some i \<Longrightarrow> pre = pre'"
    "pc t = Fetching pre i \<Longrightarrow> i < kc_next c" "pc t = Fetched pre i keys \<Longrightarrow> i < kc_next c"
    "pc t = Fetched pre i keys \<Longrightarrow> map_of (kc_items c) pre = Some i \<Longrightarrow> \<not> ci_invalid (kc_heap c i) \<Longrightarrow> current pc objs pre keys"
  using assms unfolding kc_inv_def by blast+

lemma kc_invI:
  assumes "\<And>pre i. map_of (kc_items c) pre = Some i \<Longrightarrow> i < kc_next c"
    and "\<And>pre i. map_of (kc_items c) pre = Some i \<Longrightarrow> ci_ready (kc_heap c i) \<Longrightarrow> current pc objs pre (ci_keys (kc_heap c i))"
    and "\<And>pre pre' i. map_of (kc_items c) pre = Some i \<Longrightarrow> map_of (kc_items c) pre' = Some i \<Longrightarrow> pre = pre'"
    and "\<And>t pre i. pc t = Fetching pre i \<Longrightarrow> i < kc_next c" and "\<And>t pre i keys. pc t = Fetched pre i keys \<Longrightarrow> i < kc_next c"
    and "\<And>t pre i keys. pc t = Fetched pre i keys \<Longrightarrow> map_of (kc_items c) pre = Some i \<Longrightarrow> \<not> ci_invalid (kc_heap c i) \<Longrightarrow> current pc objs pre keys"
  shows "kc_inv pc objs c"
  using assms unfolding kc_inv_def by blast

lemma current_upd:
  assumes "\<And>keys. pc t \<noteq> Changing keys"
  shows "current pc objs pre ks \<Longrightarrow> current (pc(t := p)) objs pre ks"
  using assms unfolding current_def changing_def by (metis fun_upd_other)

lemma current_list [simp]: "current pc objs pre (store_list objs pre)"
  by (simp add: current_def)

lemma list_begin_fetch:
  assumes "list_begin pre c = Inr (i, c')"
  shows "i = kc_next c" "c' = c\<lparr>kc_items := aput pre (kc_next c) (kc_items c), kc_heap := (kc_heap c)(kc_next c := new_item), kc_next := kc_next c + 1\<rparr>"
  using assms by (auto simp: list_begin_def Let_def split: option.splits if_splits)

lemma kc_inv_begin:
  assumes inv: "kc_inv pc objs c" and t: "pc t = Idle" and b: "list_begin pre c = Inr (i, c')"
  shows "kc_inv (pc(t := Fetching pre i)) objs c'"
proof -
  note c' = list_begin_fetch [OF b]
  let ?pc = "pc(t := Fetching pre i)"
  have cu: "current pc objs p ks \<Longrightarrow> current ?pc objs p ks" for p ks by (rule current_upd) (simp_all add: t)
  have old: "p \<noteq> pre \<and> map_of (kc_items c) p = Some j" if "map_of (kc_items c') p = Some j" "j \<noteq> kc_next c" for p j
    using that by (auto simp: c'(2) split: if_splits)
  have lt: "p \<noteq> pre \<Longrightarrow> map_of (kc_items c') p = Some j \<Longrightarrow> j < kc_next c" for p j
    using kc_invD(1) [OF inv, of p j] by (auto simp: c'(2))
  have new: "map_of (kc_items c') pre = Some (kc_next c)" by (simp add: c'(2))
  show ?thesis
  proof (rule kc_invI)
    show "j < kc_next c'" if "map_of (kc_items c') p = Some j" for p j
      using that lt [of p j] by (cases "p = pre") (auto simp: c'(2))
    show "current ?pc objs p (ci_keys (kc_heap c' j))" if "map_of (kc_items c') p = Some j" "ci_ready (kc_heap c' j)" for p j
    proof -
      have j: "j \<noteq> kc_next c" using that(2) by (auto simp: c'(2) new_item_def)
      with that(2) have "kc_heap c' j = kc_heap c j" by (simp add: c'(2))
      with old [OF that(1) j] that(2) show ?thesis by (auto intro: cu kc_invD(2) [OF inv])
    qed
    show "p = q" if "map_of (kc_items c') p = Some j" "map_of (kc_items c') q = Some j" for p q j
    proof (cases "j = kc_next c")
      case True
      with that lt show ?thesis by (metis less_irrefl)
    next
      case False
      with that old show ?thesis by (blast intro: kc_invD(3) [OF inv])
    qed
    show "j < kc_next c'" if "?pc u = Fetching p j" for u p j
      using that kc_invD(4) [OF inv, of u p j] by (auto simp: c' split: if_splits)
    show "j < kc_next c'" if "?pc u = Fetched p j ks" for u p j ks
      using that kc_invD(5) [OF inv, of u p j ks] by (auto simp: c' split: if_splits)
    show "current ?pc objs p ks" if "?pc u = Fetched p j ks" "map_of (kc_items c') p = Some j" "\<not> ci_invalid (kc_heap c' j)" for u p j ks
    proof -
      have "pc u = Fetched p j ks" using that(1) by (auto split: if_splits)
      with kc_invD(5) [OF inv this] old [OF that(2)] that(3) show ?thesis
        by (intro cu kc_invD(6) [OF inv, of u p j ks]) (auto simp: c'(2))
    qed
  qed
qed

lemma kc_inv_fetch:
  assumes inv: "kc_inv pc objs c" and t: "pc t = Fetching pre i" and p: "p = Idle \<or> p = Fetched pre i (store_list objs pre)"
  shows "kc_inv (pc(t := p)) objs c"
proof -
  have cu: "current pc objs q ks \<Longrightarrow> current (pc(t := p)) objs q ks" for q ks by (rule current_upd) (simp_all add: t)
  show ?thesis
    by (rule kc_invI) (use p kc_invD [OF inv] kc_invD(4) [OF inv t] cu in \<open>auto split: if_splits\<close>)
qed

lemma kc_inv_end:
  assumes inv: "kc_inv pc objs c" and t: "pc t = Fetched pre i keys"
  shows "kc_inv (pc(t := Idle)) objs (list_end pre i keys c)"
proof -
  have cu: "current pc objs q ks \<Longrightarrow> current (pc(t := Idle)) objs q ks" for q ks by (rule current_upd) (simp_all add: t)
  let ?c = "list_end pre i keys c"
  have same: "kc_items ?c = kc_items c" "kc_next ?c = kc_next c" "ci_invalid (kc_heap ?c j) = ci_invalid (kc_heap c j)" for j
    by (simp_all add: list_end_def)
  have "current pc objs q (ci_keys (kc_heap ?c j))" if q: "map_of (kc_items c) q = Some j" "ci_ready (kc_heap ?c j)" for q j
  proof (cases "j = i \<and> map_of (kc_items c) pre = Some i \<and> \<not> ci_invalid (kc_heap c i)")
    case True
    with q kc_invD(3) [OF inv, of q j pre] kc_invD(6) [OF inv t] show ?thesis by (simp add: list_end_def)
  next
    case False
    with q kc_invD(2) [OF inv, of q j] show ?thesis by (auto simp: list_end_def split: if_splits)
  qed
  with cu show ?thesis
    by (intro kc_invI; unfold same) (use kc_invD [OF inv] in \<open>auto split: if_splits\<close>)
qed

lemma store_list_change:
  assumes "filter (\<lambda>k. k \<notin> set keys) objs' = filter (\<lambda>k. k \<notin> set keys) objs" and "\<not> matches keys pre"
  shows "store_list objs' pre = store_list objs pre"
proof -
  have "store_list os pre = filter (\<lambda>k. HasPrefix k pre) (filter (\<lambda>k. k \<notin> set keys) os)" for os
    unfolding store_list_def filter_filter using assms(2) by (intro filter_cong) (auto simp: matches_def list_ex_iff)
  with assms(1) show ?thesis by metis
qed

lemma kc_inv_change:
  assumes inv: "kc_inv pc objs c" and t: "pc t \<in> {Idle, Changing keys}"
    and o: "filter (\<lambda>k. k \<notin> set keys) objs' = filter (\<lambda>k. k \<notin> set keys) objs"
  shows "kc_inv (pc(t := Changing keys)) objs' c"
proof -
  have cu: "current (pc(t := Changing keys)) objs' q ks" if q: "current pc objs q ks" for q ks
  proof (cases "matches keys q \<or> changing pc q")
    case True
    then show ?thesis using t unfolding current_def changing_def by (metis fun_upd_other fun_upd_same insertE kc_pc.distinct(5) kc_pc.inject(3) singletonD)
  next
    case False
    with q store_list_change [OF o] show ?thesis by (simp add: current_def)
  qed
  show ?thesis by (rule kc_invI) (use kc_invD [OF inv] cu in \<open>auto split: if_splits\<close>)
qed

lemma kc_inv_invalidate:
  assumes inv: "kc_inv pc objs c" and t: "pc t = Changing keys"
  shows "kc_inv (pc(t := Idle)) objs (Invalidate keys c)"
proof -
  let ?c = "Invalidate keys c"
  note keep = invalidate_loop_keeps [of keys "kc_items c" c, folded Invalidate_def]
  have same: "map_of (kc_items ?c) q = Some j \<Longrightarrow> map_of (kc_items c) q = Some j" "ci_ready (kc_heap ?c j) = ci_ready (kc_heap c j)"
      "ci_keys (kc_heap ?c j) = ci_keys (kc_heap c j)" "\<not> ci_invalid (kc_heap ?c j) \<Longrightarrow> \<not> ci_invalid (kc_heap c j)" "kc_next ?c = kc_next c" for q j
    using keep [of q j j] by blast+
  have hit: "\<not> matches keys q" if "map_of (kc_items ?c) q = Some j" "ci_ready (kc_heap c j) \<or> \<not> ci_invalid (kc_heap ?c j)" for q j
    using invalidate_loop_hit [OF map_of_SomeD [OF same(1) [OF that(1)]], of keys c] that unfolding Invalidate_def by blast
  have cu: "current (pc(t := Idle)) objs q ks" if "\<not> matches keys q" "current pc objs q ks" for q ks
    using that t unfolding current_def changing_def by (metis fun_upd_other kc_pc.inject(3))
  show ?thesis
  proof (rule kc_invI)
    show "current (pc(t := Idle)) objs q (ci_keys (kc_heap ?c j))" if "map_of (kc_items ?c) q = Some j" "ci_ready (kc_heap ?c j)" for q j
      unfolding same(3) by (intro cu hit [of _ j] kc_invD(2) [OF inv] same(1)) (use that same(2) in auto)
    show "current (pc(t := Idle)) objs q ks"
      if "(pc(t := Idle)) u = Fetched q j ks" "map_of (kc_items ?c) q = Some j" "\<not> ci_invalid (kc_heap ?c j)" for u q j ks
      by (intro cu hit [of _ j] kc_invD(6) [OF inv, of u _ j] same) (use that in \<open>auto split: if_splits\<close>)
  qed (use kc_invD(1,3,4,5) [OF inv] in \<open>auto dest!: same(1) simp: same(5) split: if_splits\<close>)
qed

lemma kc_reach_inv: "kc_reach pc objs c \<Longrightarrow> kc_inv pc objs c"
proof (induction rule: kc_reach.induct)
  case (kc_init objs)
  show ?case by (rule kc_invI) (simp_all add: newObjectKeyCache_def)
next
  case (kc_begin pc objs c t pre i c')
  from kc_inv_begin [OF kc_begin.IH kc_begin.hyps(2,3)] show ?case .
next
  case (kc_fetch pc objs c t pre i)
  from kc_inv_fetch [OF kc_fetch.IH kc_fetch.hyps(2)] show ?case by blast
next
  case (kc_fail pc objs c t pre i)
  from kc_inv_fetch [OF kc_fail.IH kc_fail.hyps(2)] show ?case by blast
next
  case (kc_end pc objs c t pre i keys)
  from kc_inv_end [OF kc_end.IH kc_end.hyps(2)] show ?case .
next
  case (kc_change pc objs c t keys objs')
  from kc_inv_change [OF kc_change.IH kc_change.hyps(2,3)] show ?case .
next
  case (kc_invalidate pc objs c t keys)
  from kc_inv_invalidate [OF kc_invalidate.IH kc_invalidate.hyps(2)] show ?case .
qed

text \<open>C25: However callers that list objects and callers that change them are interleaved, a listing that
  the cache answers from memory is the listing of the store at that moment, unless a change of an
  object under this prefix has been made and its caller has not yet invalidated it.\<close>

theorem cached_list_current:
  assumes "kc_reach pc objs c" and "\<not> changing pc pre" and "list_begin pre c = Inl keys"
  shows "keys = store_list objs pre"
proof -
  from assms(3) obtain i where i: "map_of (kc_items c) pre = Some i" "ci_ready (kc_heap c i)" "keys = ci_keys (kc_heap c i)"
    by (auto simp: list_begin_def Let_def split: option.splits if_splits)
  from kc_invD(2) [OF kc_reach_inv [OF assms(1)] i(1,2)] assms(2) i(3) show ?thesis by (simp add: current_def)
qed

text \<open>An object is written while a listing is on its way: the listing is not kept. The next one is.\<close>

definition race_cache :: key_cache where
  "race_cache =
     (let c1 = newObjectKeyCache\<lparr>kc_items := [(''a/'', 0)], kc_next := 1\<rparr>;
          c2 = list_end ''a/'' 0 [''a/1''] (Invalidate [''a/2''] c1);
          c3 = c2\<lparr>kc_items := [(''a/'', 1)], kc_heap := (kc_heap c2)(1 := new_item), kc_next := 2\<rparr>
      in list_end ''a/'' 1 [''a/1'', ''a/2''] c3)"

lemma kc_list:
  assumes "kc_reach pc objs c" and "pc t = Idle" and "list_begin pre c = Inr (i, c')"
  shows "kc_reach pc objs (list_end pre i (store_list objs pre) c')"
proof -
  from kc_end [OF kc_fetch [OF kc_begin [OF assms], of t pre i], of t pre i "store_list objs pre"]
  have "kc_reach (pc(t := Idle)) objs (list_end pre i (store_list objs pre) c')" by simp
  with assms(2) show ?thesis by (metis fun_upd_triv)
qed

lemma race_reach: "kc_reach (\<lambda>_ :: bool. Idle) [''a/1'', ''a/2''] race_cache"
proof -
  let ?i = "\<lambda>_ :: bool. Idle" and ?o = "[''a/1'', ''a/2'']" and ?l = "Fetched ''a/'' 0 [''a/1'']"
  let ?c1 = "newObjectKeyCache\<lparr>kc_items := [(''a/'', 0)], kc_next := 1\<rparr>"
  have l: "store_list [''a/1''] ''a/'' = [''a/1'']" "store_list ?o ''a/'' = ?o" by (simp_all add: store_list_def HasPrefix_def)
  have "list_begin ''a/'' newObjectKeyCache = Inr (0, ?c1)"
    by (simp add: list_begin_def newObjectKeyCache_def new_item_def fun_eq_iff)
  from kc_fetch [OF kc_begin [OF kc_init _ this, of True], of True "''a/''" 0 "[''a/1'']"]
  have "kc_reach (?i(True := ?l)) [''a/1''] ?c1" by (simp add: l)
  from kc_change [OF this, of False "[''a/2'']" ?o]
  have "kc_reach (?i(True := ?l, False := Changing [''a/2''])) ?o ?c1" by simp
  from kc_end [OF kc_invalidate [OF this, of False "[''a/2'']"], of True "''a/''" 0 "[''a/1'']"]
  have 1: "kc_reach (?i(True := ?l, False := Idle, True := Idle)) ?o (list_end ''a/'' 0 [''a/1''] (Invalidate [''a/2''] ?c1))" by simp
  have 2: "?i(True := ?l, False := Idle, True := Idle) = ?i" by (simp add: fun_eq_iff)
  show ?thesis
    using kc_list [OF 1 [unfolded 2] refl, of "''a/''" 1]
    by (simp add: numeral_2_eq_2 race_cache_def Let_def l list_begin_def list_end_def Invalidate_def matches_def HasPrefix_def newObjectKeyCache_def new_item_def)
qed

theorem cached_list_current_witness:
  "list_begin ''a/'' race_cache = Inl [''a/1'', ''a/2''] \<and> [''a/1'', ''a/2''] = store_list [''a/1'', ''a/2''] ''a/''"
proof -
  have "list_begin ''a/'' race_cache = Inl [''a/1'', ''a/2'']" by (simp add: race_cache_def Let_def list_begin_def list_end_def Invalidate_def matches_def HasPrefix_def newObjectKeyCache_def new_item_def)
  moreover have "\<not> changing (\<lambda>_ :: bool. Idle) ''a/''" by (simp add: changing_def)
  ultimately show ?thesis using cached_list_current [OF race_reach] by blast
qed

end
