(* ===== verification/Lru_Cache.thy ===== *)
theory Lru_Cache
  imports Json Base62
begin

text \<open>
  The cache of object-store files on the local disk, \<^verbatim>\<open>pkg/lru_cache/cache_manager.go\<close>: the file system as far
  as the cache uses it, the operations of \<^verbatim>\<open>LruCache\<close> in the parts between two acquisitions of its lock, and
  their sequential composition. Paths are absolute and clean, as the list of their components. A
  \<open>fault\<close> argument says which calls of the operating system fail.
\<close>

section \<open>File system\<close>

type_synonym path = "string list"

datatype node = File nat | Folder

type_synonym fs = "(path \<times> node) list"

datatype os_op = Stat path | Mkdir path | CreateTemp | CopyTemp | RenameTemp | SyncTemp | StatTemp | CloseTemp
  | Unlink path | UnlinkAll path | ReadDir path

type_synonym fault = "os_op \<Rightarrow> bool"

definition children :: "path \<Rightarrow> fs \<Rightarrow> fs" where
  "children d fs = filter (\<lambda>(p, _). p \<noteq> [] \<and> butlast p = d) fs"

definition below :: "path \<Rightarrow> path \<Rightarrow> bool" where
  "below d p \<longleftrightarrow> take (length d) p = d"

definition RemoveAll :: "path \<Rightarrow> fs \<Rightarrow> fs" where
  "RemoveAll d fs = filter (\<lambda>(p, _). \<not> below d p) fs"

definition unlink_ok :: "path \<Rightarrow> fs \<Rightarrow> bool" where
  "unlink_ok p fs \<longleftrightarrow> (case map_of fs p of None \<Rightarrow> False | Some (File _) \<Rightarrow> True | Some Folder \<Rightarrow> children p fs = [])"

fun mkdir_loop :: "path list \<Rightarrow> fs \<Rightarrow> error + fs" where
  "mkdir_loop [] fs = Inr fs"
| "mkdir_loop (d # ds) fs =
     (case map_of fs d of
        None \<Rightarrow> mkdir_loop ds (fs @ [(d, Folder)])
      | Some Folder \<Rightarrow> mkdir_loop ds fs
      | Some (File _) \<Rightarrow> Inl ''not a directory'')"

definition MkdirAll :: "path \<Rightarrow> fs \<Rightarrow> error + fs" where
  "MkdirAll d fs = mkdir_loop (map (\<lambda>k. take k d) [0..<Suc (length d)]) fs"

definition rename_to :: "path \<Rightarrow> path \<Rightarrow> fs \<Rightarrow> error + fs" where
  "rename_to old new fs =
     (case map_of fs old of
        Some (File n) \<Rightarrow>
          if map_of fs new = Some Folder \<or> map_of fs (butlast new) \<noteq> Some Folder then Inl ''rename''
          else Inr (aput new (File n) (adel old fs))
      | _ \<Rightarrow> Inl ''rename'')"

section \<open>State\<close>

record cache_file =
  cf_path :: path
  cf_refCount :: uint64
  cf_size :: nat
  cf_atime :: int

text \<open>\<open>lc_caches\<close> and \<open>lc_ready\<close> are the maps \<^verbatim>\<open>caches\<close> and \<^verbatim>\<open>readyMap\<close>; cache files are shared by reference, so they
  live in a heap. \<open>lc_closed\<close> are the channels that have been closed.\<close>

record lru =
  lc_caches :: "(path \<times> nat) list"
  lc_heap :: "nat \<Rightarrow> cache_file"
  lc_next :: nat
  lc_ready :: "(path \<times> nat) list"
  lc_chan :: nat
  lc_closed :: "nat list"
  lc_fs :: fs

record lru_conf =
  lc_maxSize :: nat
  lc_fileExt :: "string \<Rightarrow> bool"
  lc_tempExt :: string
  lc_rootPath :: path

definition register :: "path \<Rightarrow> cache_file \<Rightarrow> lru \<Rightarrow> lru" where
  "register p f c = c\<lparr>lc_caches := aput p (lc_next c) (lc_caches c), lc_heap := (lc_heap c)(lc_next c := f), lc_next := lc_next c + 1\<rparr>"

definition acquire :: "nat \<Rightarrow> int \<Rightarrow> lru \<Rightarrow> lru" where
  "acquire h now c = c\<lparr>lc_heap := (lc_heap c)(h := (lc_heap c h)\<lparr>cf_refCount := cf_refCount (lc_heap c h) + 1, cf_atime := now\<rparr>)\<rparr>"

definition CacheFile_Close :: "nat \<Rightarrow> lru \<Rightarrow> lru" where
  "CacheFile_Close h c = c\<lparr>lc_heap := (lc_heap c)(h := (lc_heap c h)\<lparr>cf_refCount := cf_refCount (lc_heap c h) - 1\<rparr>)\<rparr>"

section \<open>Start\<close>

definition Ext :: "string \<Rightarrow> string" where
  "Ext s = (if CHR ''.'' \<in> set s then CHR ''.'' # rev (takeWhile (\<lambda>x. x \<noteq> CHR ''.'') (rev s)) else [])"

fun init_walk :: "lru_conf \<Rightarrow> fault \<Rightarrow> (path \<Rightarrow> int) \<Rightarrow> fs \<Rightarrow> lru \<Rightarrow> error + lru" where
  "init_walk conf flt atime [] c = Inr c"
| "init_walk conf flt atime ((p, Folder) # es) c = init_walk conf flt atime es c"
| "init_walk conf flt atime ((p, File n) # es) c =
     (let ext = Ext (last p) in
      if ext = lc_tempExt conf
      then if flt (Unlink p) then Inl ''remove'' else init_walk conf flt atime es (c\<lparr>lc_fs := adel p (lc_fs c)\<rparr>)
      else if \<not> lc_fileExt conf ext then init_walk conf flt atime es c
      else if flt (Stat p) then Inl ''stat''
      else init_walk conf flt atime es (register p \<lparr>cf_path = p, cf_refCount = 0, cf_size = n, cf_atime = atime p\<rparr> c))"

definition init :: "lru_conf \<Rightarrow> fault \<Rightarrow> (path \<Rightarrow> int) \<Rightarrow> lru \<Rightarrow> error + lru" where
  "init conf flt atime c =
     (case (if map_of (lc_fs c) (lc_rootPath conf) = None
            then if flt (Mkdir (lc_rootPath conf)) then Inl ''mkdir'' else MkdirAll (lc_rootPath conf) (lc_fs c)
            else Inr (lc_fs c)) of
        Inl e \<Rightarrow> Inl e
      | Inr fs \<Rightarrow> init_walk conf flt atime (filter (\<lambda>(p, _). below (lc_rootPath conf) p) fs) (c\<lparr>lc_fs := fs\<rparr>))"

section \<open>Making room\<close>

definition curSize :: "lru \<Rightarrow> nat" where
  "curSize c = sum_list (map (\<lambda>(p, h). cf_size (lc_heap c h)) (lc_caches c))"

text \<open>The size is compared with \<^verbatim>\<open>float64(maxSize) * 0.7\<close>; the constant is 6305039478318694 / 2^53.\<close>

definition at_target :: "nat \<Rightarrow> nat \<Rightarrow> bool" where
  "at_target maxSize cur \<longleftrightarrow> float_round cur * 2 ^ 53 \<le> float_round (float_round maxSize * 6305039478318694)"

definition room_snapshot :: "lru_conf \<Rightarrow> lru \<Rightarrow> (nat \<times> nat list) option" where
  "room_snapshot conf c = (if curSize c < lc_maxSize conf then None else Some (curSize c, map snd (lc_caches c)))"

fun sweep :: "nat \<Rightarrow> fault \<Rightarrow> nat list \<Rightarrow> nat \<Rightarrow> lru \<Rightarrow> lru" where
  "sweep maxSize flt [] cur c = c"
| "sweep maxSize flt (h # hs) cur c =
     (let f = lc_heap c h; p = cf_path f;
          refered = (case map_of (lc_caches c) p of Some g \<Rightarrow> cf_refCount (lc_heap c g) > 0 | None \<Rightarrow> False);
          c' = c\<lparr>lc_caches := adel p (lc_caches c)\<rparr>
      in if refered then sweep maxSize flt hs cur c
         else if flt (Unlink p) \<or> \<not> unlink_ok p (lc_fs c) then sweep maxSize flt hs cur c'
         else let c'' = c'\<lparr>lc_fs := adel p (lc_fs c)\<rparr>; cur' = cur - cf_size f
              in if at_target maxSize cur' then c'' else sweep maxSize flt hs cur' c'')"

text \<open>\<open>srt\<close> is \<^verbatim>\<open>sort.Slice\<close>, which leaves the order of equal access times open.\<close>

definition sorts :: "((nat \<Rightarrow> int) \<Rightarrow> nat list \<Rightarrow> nat list) \<Rightarrow> bool" where
  "sorts srt \<longleftrightarrow> (\<forall>f xs. mset (srt f xs) = mset xs \<and> sorted (map f (srt f xs)))"

definition makeRoomForCacheFile :: "lru_conf \<Rightarrow> fault \<Rightarrow> ((nat \<Rightarrow> int) \<Rightarrow> nat list \<Rightarrow> nat list) \<Rightarrow> lru \<Rightarrow> lru" where
  "makeRoomForCacheFile conf flt srt c =
     (case room_snapshot conf c of
        None \<Rightarrow> c
      | Some (cur, hs) \<Rightarrow>
          if hs = [] then c else sweep (lc_maxSize conf) flt (srt (\<lambda>h. cf_atime (lc_heap c h)) hs) cur c)"

section \<open>Operations\<close>

text \<open>\<open>Inl\<close> is an error; \<^verbatim>\<open>dirExists\<close> is also true of a file.\<close>

definition dirExists :: "fault \<Rightarrow> path \<Rightarrow> fs \<Rightarrow> error + bool" where
  "dirExists flt d fs = (if flt (Stat d) then Inl ''stat'' else Inr (map_of fs d \<noteq> None))"

definition Setup :: "fault \<Rightarrow> path \<Rightarrow> lru \<Rightarrow> error + lru" where
  "Setup flt d c =
     (case dirExists flt d (lc_fs c) of
        Inl e \<Rightarrow> Inl ''setup err: error checking if directory exists''
      | Inr True \<Rightarrow> Inr c
      | Inr False \<Rightarrow>
          if flt (Mkdir d) then Inl ''setup err: error creating directory''
          else (case MkdirAll d (lc_fs c) of Inl e \<Rightarrow> Inl ''setup err: error creating directory'' | Inr fs \<Rightarrow> Inr (c\<lparr>lc_fs := fs\<rparr>)))"

definition GetCacheFile :: "fault \<Rightarrow> path \<Rightarrow> int \<Rightarrow> lru \<Rightarrow> nat option \<times> lru" where
  "GetCacheFile flt p now c =
     (case map_of (lc_caches c) p of
        None \<Rightarrow> (None, c)
      | Some h \<Rightarrow>
          let c' = acquire h now c in
          if flt (Stat p) \<or> map_of (lc_fs c) p = None then (None, c'\<lparr>lc_caches := adel p (lc_caches c')\<rparr>)
          else (Some h, c'))"

function removeParentIfEmpty :: "lru_conf \<Rightarrow> fault \<Rightarrow> path \<Rightarrow> fs \<Rightarrow> error option \<times> fs" where
  "removeParentIfEmpty conf flt p fs =
     (if p = lc_rootPath conf then (None, fs)
      else let dirPath = butlast p in
        if map_of fs dirPath = None then (None, fs)
        else if flt (ReadDir dirPath) \<or> map_of fs dirPath \<noteq> Some Folder then (Some ''remove parent err: read parent dir err'', fs)
        else if children dirPath fs \<noteq> [] then (None, fs)
        else if flt (UnlinkAll dirPath) then (Some ''remove parent dir err'', fs)
        else removeParentIfEmpty conf flt dirPath (RemoveAll dirPath fs))"
  by pat_completeness auto

lemma RemoveAll_shrinks: "map_of fs d \<noteq> None \<Longrightarrow> length (RemoveAll d fs) < length fs"
  unfolding RemoveAll_def by (rule length_filter_less [of "(d, the (map_of fs d))"]) (auto simp: below_def dest: map_of_SomeD)

termination removeParentIfEmpty
  by (relation "measure (\<lambda>(conf, flt, p, fs). length fs)") (auto intro: RemoveAll_shrinks)

declare removeParentIfEmpty.simps [simp del]

definition LruCache_Remove :: "lru_conf \<Rightarrow> fault \<Rightarrow> path \<Rightarrow> lru \<Rightarrow> error option \<times> lru" where
  "LruCache_Remove conf flt p c =
     (let c' = c\<lparr>lc_caches := adel p (lc_caches c)\<rparr> in
      if flt (UnlinkAll p) then (Some ''remove file'', c')
      else let (e, fs) = removeParentIfEmpty conf flt p (RemoveAll p (lc_fs c)) in (e, c'\<lparr>lc_fs := fs\<rparr>))"

text \<open>One round of the loop of \<^verbatim>\<open>CacheFile\<close> under the lock: a registered file, the channel of a caller that is
  downloading the file, or a new channel of this caller.\<close>

datatype lookup = Hit nat | Wait nat | Start nat

definition cache_lookup :: "path \<Rightarrow> int \<Rightarrow> lru \<Rightarrow> lookup \<times> lru" where
  "cache_lookup p now c =
     (case map_of (lc_caches c) p of
        Some h \<Rightarrow> (Hit h, acquire h now c)
      | None \<Rightarrow>
          (case map_of (lc_ready c) p of
             Some ch \<Rightarrow> (Wait ch, c)
           | None \<Rightarrow> (Start (lc_chan c), c\<lparr>lc_ready := aput p (lc_chan c) (lc_ready c), lc_chan := lc_chan c + 1\<rparr>)))"

definition close_ready :: "path \<Rightarrow> nat \<Rightarrow> lru \<Rightarrow> lru" where
  "close_ready p ch c = c\<lparr>lc_closed := ch # lc_closed c, lc_ready := adel p (lc_ready c)\<rparr>"

definition cache_publish :: "path \<Rightarrow> nat \<Rightarrow> nat \<Rightarrow> int \<Rightarrow> lru \<Rightarrow> lru" where
  "cache_publish p ch n now c = register p \<lparr>cf_path = p, cf_refCount = 1, cf_size = n, cf_atime = now\<rparr> (close_ready p ch c)"

definition cleanup :: "lru_conf \<Rightarrow> fault \<Rightarrow> path \<Rightarrow> path \<Rightarrow> nat \<Rightarrow> lru \<Rightarrow> lru" where
  "cleanup conf flt tmp p ch c = close_ready p ch (snd (LruCache_Remove conf flt tmp c))"

text \<open>A call ends with an error or a result, waits for a channel that is open, or panics.\<close>

datatype 'a run = Returns "error + 'a" lru | Blocks lru | Panics lru

text \<open>A download: \<open>tmp\<close> is the name that \<^verbatim>\<open>os.CreateTemp\<close> chooses and \<open>n\<close> the length of the data. When no file can be
  created, \<^verbatim>\<open>cleanup\<close> asks a nil file for its name.\<close>

definition download :: "lru_conf \<Rightarrow> fault \<Rightarrow> path \<Rightarrow> nat \<Rightarrow> int \<Rightarrow> path \<Rightarrow> nat \<Rightarrow> lru \<Rightarrow> nat run" where
  "download conf flt tmp n now p ch c =
     (if flt CreateTemp \<or> map_of (lc_fs c) (lc_rootPath conf) \<noteq> Some Folder then Panics c
      else let c1 = c\<lparr>lc_fs := aput tmp (File n) (lc_fs c)\<rparr> in
        if flt CopyTemp then Returns (Inl ''cache file err: copy temp file err'') (cleanup conf flt tmp p ch c1)
        else case (if flt RenameTemp then Inl ''rename'' else rename_to tmp p (lc_fs c1)) of
            Inl e \<Rightarrow> Returns (Inl ''cache file err: rename temp file err'') (cleanup conf flt tmp p ch c1)
          | Inr fs \<Rightarrow>
              let c2 = c1\<lparr>lc_fs := fs\<rparr> in
              if flt SyncTemp then Returns (Inl ''cache file err: sync temp file err'') (cleanup conf flt tmp p ch c2)
              else if flt CloseTemp then Returns (Inl ''cache file err: close temp file err'') (cleanup conf flt tmp p ch c2)
              else Returns (Inr (lc_next c2)) (cache_publish p ch n now c2))"

definition CacheFile :: "lru_conf \<Rightarrow> fault \<Rightarrow> ((nat \<Rightarrow> int) \<Rightarrow> nat list \<Rightarrow> nat list) \<Rightarrow> path \<Rightarrow> nat \<Rightarrow> int \<Rightarrow> path \<Rightarrow> lru \<Rightarrow> nat run" where
  "CacheFile conf flt srt tmp n now p c =
     (case Setup flt (butlast p) c of
        Inl e \<Rightarrow> Returns (Inl e) c
      | Inr c1 \<Rightarrow>
          (case cache_lookup p now (makeRoomForCacheFile conf flt srt c1) of
             (Hit h, c2) \<Rightarrow> Returns (Inr h) c2
           | (Wait ch, c2) \<Rightarrow> Blocks c2
           | (Start ch, c2) \<Rightarrow> download conf flt tmp n now p ch c2))"

definition UpdateCacheFile :: "lru_conf \<Rightarrow> fault \<Rightarrow> ((nat \<Rightarrow> int) \<Rightarrow> nat list \<Rightarrow> nat list) \<Rightarrow> int \<Rightarrow> path \<Rightarrow> path \<Rightarrow> lru \<Rightarrow> error option \<times> lru" where
  "UpdateCacheFile conf flt srt now inputFile p c =
     (case Setup flt (butlast p) c of
        Inl e \<Rightarrow> (Some e, c)
      | Inr c1 \<Rightarrow>
          let c2 = makeRoomForCacheFile conf flt srt c1 in
          (case (if flt RenameTemp then Inl ''rename'' else rename_to inputFile p (lc_fs c2)) of
             Inl e \<Rightarrow> (Some ''update cache file err: rename temp file err'', c2)
           | Inr fs \<Rightarrow>
               let c3 = c2\<lparr>lc_fs := fs\<rparr> in
               (case map_of fs p of
                  Some (File n) \<Rightarrow>
                    if flt (Stat p) then (Some ''update cache file err: stat file err'', c3)
                    else (None, register p \<lparr>cf_path = p, cf_refCount = 0, cf_size = n, cf_atime = now\<rparr> c3)
                | _ \<Rightarrow> (Some ''update cache file err: stat file err'', c3))))"

record tempWriteFile =
  tw_cf :: nat
  tw_tempPath :: path
  tw_realPath :: path

definition writer_lookup :: "path \<Rightarrow> int \<Rightarrow> lru \<Rightarrow> nat \<times> lru" where
  "writer_lookup p now c =
     (case map_of (lc_caches c) p of
        Some h \<Rightarrow> (h, acquire h now c)
      | None \<Rightarrow> (lc_next c, register p \<lparr>cf_path = p, cf_refCount = 1, cf_size = 0, cf_atime = now\<rparr> c))"

definition OpenWriter :: "lru_conf \<Rightarrow> fault \<Rightarrow> ((nat \<Rightarrow> int) \<Rightarrow> nat list \<Rightarrow> nat list) \<Rightarrow> path \<Rightarrow> int \<Rightarrow> path \<Rightarrow> lru \<Rightarrow> (error + tempWriteFile) \<times> lru" where
  "OpenWriter conf flt srt tmp now p c =
     (let c1 = makeRoomForCacheFile conf flt srt c in
      case Setup flt (butlast p) c1 of
        Inl e \<Rightarrow> (Inl e, c1)
      | Inr c2 \<Rightarrow>
          let (h, c3) = writer_lookup p now c2 in
          if flt CreateTemp \<or> map_of (lc_fs c3) (lc_rootPath conf) \<noteq> Some Folder then (Inl ''open cache writer err: crate temp file err'', c3)
          else (Inr \<lparr>tw_cf = h, tw_tempPath = tmp, tw_realPath = p\<rparr>, c3\<lparr>lc_fs := aput tmp (File 0) (lc_fs c3)\<rparr>))"

definition tempWriteFile_Close :: "fault \<Rightarrow> int \<Rightarrow> tempWriteFile \<Rightarrow> lru \<Rightarrow> error option \<times> lru" where
  "tempWriteFile_Close flt now t c =
     (let p = tw_realPath t;
          c1 = CacheFile_Close (tw_cf t) c;
          c2 = c1\<lparr>lc_caches := adel p (lc_caches c1)\<rparr>;
          clear = (\<lambda>c. if flt (UnlinkAll (tw_tempPath t)) then c else c\<lparr>lc_fs := RemoveAll (tw_tempPath t) (lc_fs c)\<rparr>)
      in case (if flt RenameTemp then Inl ''rename'' else rename_to (tw_tempPath t) p (lc_fs c2)) of
           Inl e \<Rightarrow> (Some ''close temp write file err: rename err'', clear c2)
         | Inr fs \<Rightarrow>
             let c3 = c2\<lparr>lc_fs := fs\<rparr> in
             if flt SyncTemp then (Some ''close temp write file err: sync err'', clear c3)
             else (case map_of fs p of
                Some (File n) \<Rightarrow>
                  if flt StatTemp then (Some ''close temp write file err: stat file err'', clear c3)
                  else let c4 = register p \<lparr>cf_path = p, cf_refCount = 0, cf_size = n, cf_atime = now\<rparr> c3
                       in (if flt CloseTemp then Some ''close'' else None, clear c4)
              | _ \<Rightarrow> (Some ''close temp write file err: stat file err'', clear c3)))"

section \<open>The sweep\<close>

lemma sweep_keeps:
  "lc_heap (sweep maxSize flt hs cur c) = lc_heap c" "lc_next (sweep maxSize flt hs cur c) = lc_next c"
  "lc_ready (sweep maxSize flt hs cur c) = lc_ready c" "lc_chan (sweep maxSize flt hs cur c) = lc_chan c"
  "lc_closed (sweep maxSize flt hs cur c) = lc_closed c"
  by (induction maxSize flt hs cur c rule: sweep.induct) (simp_all add: Let_def)

lemma sweep_refered:
  assumes "map_of (lc_caches c) p = Some g" and "cf_refCount (lc_heap c g) > 0"
  shows "map_of (lc_caches (sweep maxSize flt hs cur c)) p = Some g \<and> map_of (lc_fs (sweep maxSize flt hs cur c)) p = map_of (lc_fs c) p"
  using assms
proof (induction maxSize flt hs cur c rule: sweep.induct)
  case (2 maxSize flt h hs cur c)
  show ?case
  proof (cases "cf_path (lc_heap c h) = p")
    case True
    with "2.prems" "2.IH"(1) [OF refl refl refl refl] show ?thesis by (simp add: Let_def)
  next
    case False
    with "2.prems" "2.IH" [OF refl refl refl refl] show ?thesis by (simp add: Let_def)
  qed
qed simp

text \<open>What a sweep does to a cache that nobody else uses: it evicts the files chosen by \<open>victims\<close>.\<close>

definition idle :: "lru \<Rightarrow> nat \<Rightarrow> bool" where
  "idle c h \<longleftrightarrow> cf_refCount (lc_heap c h) = 0"

definition evict :: "nat list \<Rightarrow> lru \<Rightarrow> lru" where
  "evict hs c =
     (let gone = map (\<lambda>h. cf_path (lc_heap c h)) hs in
      c\<lparr>lc_caches := filter (\<lambda>e. fst e \<notin> set gone) (lc_caches c), lc_fs := filter (\<lambda>e. fst e \<notin> set gone) (lc_fs c)\<rparr>)"

fun victims :: "nat \<Rightarrow> lru \<Rightarrow> nat list \<Rightarrow> nat \<Rightarrow> nat list" where
  "victims maxSize c [] cur = []"
| "victims maxSize c (h # hs) cur =
     (if \<not> idle c h then victims maxSize c hs cur
      else h # (let cur' = cur - cf_size (lc_heap c h) in if at_target maxSize cur' then [] else victims maxSize c hs cur'))"

definition lru_wf :: "lru \<Rightarrow> bool" where
  "lru_wf c \<longleftrightarrow> distinct (map fst (lc_caches c))
     \<and> (\<forall>(p, h)\<in>set (lc_caches c). cf_path (lc_heap c h) = p \<and> (\<exists>n. map_of (lc_fs c) p = Some (File n)))"

lemma evict_Nil [simp]: "evict [] c = c"
  by (simp add: evict_def)

lemma evict_Cons: "evict (h # hs) c = evict hs (evict [h] c)"
  by (simp add: evict_def Let_def conj_commute)

lemma evict_heap [simp]: "lc_heap (evict hs c) = lc_heap c"
  by (simp add: evict_def Let_def)

lemma map_of_filter_keys: "map_of (filter (\<lambda>e. fst e \<notin> K) xs) k = (if k \<in> K then None else map_of xs k)"
  by (induction xs) auto

lemma evict_map_of:
  "map_of (lc_caches (evict hs c)) k = (if k \<in> (\<lambda>h. cf_path (lc_heap c h)) ` set hs then None else map_of (lc_caches c) k)"
  "map_of (lc_fs (evict hs c)) k = (if k \<in> (\<lambda>h. cf_path (lc_heap c h)) ` set hs then None else map_of (lc_fs c) k)"
  by (simp_all add: evict_def Let_def map_of_filter_keys)

lemma victims_cong: "lc_heap c = lc_heap c' \<Longrightarrow> victims maxSize c hs cur = victims maxSize c' hs cur"
  by (induction maxSize c hs cur rule: victims.induct) (simp_all add: idle_def Let_def)

lemma sweep_victims:
  assumes "\<And>p. \<not> flt (Unlink p)" and "distinct (map (\<lambda>h. cf_path (lc_heap c h)) hs)"
    and "\<And>h. h \<in> set hs \<Longrightarrow> map_of (lc_caches c) (cf_path (lc_heap c h)) = Some h \<and> (\<exists>n. map_of (lc_fs c) (cf_path (lc_heap c h)) = Some (File n))"
  shows "sweep maxSize flt hs cur c = evict (victims maxSize c hs cur) c"
  using assms(2,3)
proof (induction hs arbitrary: cur c)
  case (Cons h hs)
  let ?p = "cf_path (lc_heap c h)" and ?cur = "cur - cf_size (lc_heap c h)"
  have h: "map_of (lc_caches c) ?p = Some h" "unlink_ok ?p (lc_fs c)" using Cons.prems(2) [of h] by (auto simp: unlink_ok_def)
  show ?case
  proof (cases "idle c h")
    case True
    have e: "c\<lparr>lc_caches := adel ?p (lc_caches c), lc_fs := adel ?p (lc_fs c)\<rparr> = evict [h] c" by (simp add: evict_def adel_def)
    have "map_of (lc_caches (evict [h] c)) (cf_path (lc_heap c g)) = Some g
        \<and> (\<exists>n. map_of (lc_fs (evict [h] c)) (cf_path (lc_heap c g)) = Some (File n))" if "g \<in> set hs" for g
      using Cons.prems that by (auto simp: evict_map_of) (metis image_eqI)+
    with Cons.IH [of "evict [h] c" ?cur] Cons.prems(1)
    have "sweep maxSize flt hs ?cur (evict [h] c) = evict (victims maxSize c hs ?cur) (evict [h] c)"
      by (simp add: victims_cong [of "evict [h] c" c])
    with True h assms(1) show ?thesis by (simp add: Let_def e idle_def evict_Cons [of h "victims maxSize c hs ?cur"])
  next
    case False
    with h Cons.IH [of c cur] Cons.prems show ?thesis by (simp add: Let_def idle_def word_gt_0)
  qed
qed simp

definition sizes :: "lru \<Rightarrow> nat list \<Rightarrow> nat" where
  "sizes c hs = sum_list (map (\<lambda>h. cf_size (lc_heap c h)) hs)"

lemma victims_split:
  "\<exists>ws. filter (idle c) hs = victims maxSize c hs cur @ ws
     \<and> (ws = [] \<or> at_target maxSize (cur - sizes c (victims maxSize c hs cur)))
     \<and> (\<forall>vs us. victims maxSize c hs cur = vs @ us \<longrightarrow> vs \<noteq> [] \<longrightarrow> us \<noteq> [] \<longrightarrow> \<not> at_target maxSize (cur - sizes c vs))"
proof (induction maxSize c hs cur rule: victims.induct)
  case (2 maxSize c h hs cur)
  show ?case
  proof (cases "idle c h \<and> \<not> at_target maxSize (cur - cf_size (lc_heap c h))")
    case True
    with "2.IH"(2) [OF _ refl] obtain ws where ws: "filter (idle c) hs = victims maxSize c hs (cur - cf_size (lc_heap c h)) @ ws"
        "ws = [] \<or> at_target maxSize (cur - cf_size (lc_heap c h) - sizes c (victims maxSize c hs (cur - cf_size (lc_heap c h))))"
        "\<forall>vs us. victims maxSize c hs (cur - cf_size (lc_heap c h)) = vs @ us \<longrightarrow> vs \<noteq> [] \<longrightarrow> us \<noteq> [] \<longrightarrow>
           \<not> at_target maxSize (cur - cf_size (lc_heap c h) - sizes c vs)" by blast
    let ?V = "victims maxSize c hs (cur - cf_size (lc_heap c h))"
    have "\<not> at_target maxSize (cur - sizes c vs)" if v: "h # ?V = vs @ us" "vs \<noteq> []" "us \<noteq> []" for vs us
    proof -
      from v obtain vs' where vs: "vs = h # vs'" "?V = vs' @ us" by (cases vs) auto
      show ?thesis
        using True ws(3) [rule_format, OF vs(2) _ v(3)] unfolding vs(1) sizes_def by (cases "vs' = []") (simp_all add: diff_diff_left)
    qed
    moreover have "ws = [] \<or> at_target maxSize (cur - sizes c (h # ?V))" using ws(2) by (simp add: sizes_def diff_diff_left)
    ultimately show ?thesis using True ws(1) by (simp add: Let_def)
  next
    case False
    then show ?thesis using "2.IH"(1) by (auto simp: Let_def sizes_def Cons_eq_append_conv)
  qed
qed simp

lemma lru_wf_path: "lru_wf c \<Longrightarrow> (p, h) \<in> set (lc_caches c) \<Longrightarrow> cf_path (lc_heap c h) = p"
  unfolding lru_wf_def by blast

lemma lru_wf_handle:
  assumes "lru_wf c" and "h \<in> set (map snd (lc_caches c))"
  shows "map_of (lc_caches c) (cf_path (lc_heap c h)) = Some h" "\<exists>n. map_of (lc_fs c) (cf_path (lc_heap c h)) = Some (File n)"
  using assms unfolding lru_wf_def by (auto intro: map_of_is_SomeI)

lemma lru_wf_paths: "lru_wf c \<Longrightarrow> map (\<lambda>h. cf_path (lc_heap c h)) (map snd (lc_caches c)) = map fst (lc_caches c)"
  by (auto simp: lru_wf_path)

lemma lru_wf_distinct:
  assumes "lru_wf c"
  shows "distinct (map snd (lc_caches c))"
proof -
  have "distinct (map (\<lambda>h. cf_path (lc_heap c h)) (map snd (lc_caches c)))"
    unfolding lru_wf_paths [OF assms] using assms by (simp add: lru_wf_def)
  then show ?thesis by (rule distinct_map [THEN iffD1, THEN conjunct1])
qed

lemma curSize_sizes: "curSize c = sizes c (map snd (lc_caches c))"
  by (simp add: curSize_def sizes_def split_def comp_def)

lemma sizes_set: "distinct hs \<Longrightarrow> sizes c hs = (\<Sum>h\<in>set hs. cf_size (lc_heap c h))"
  unfolding sizes_def by (rule sum_list_distinct_conv_sum_set)

lemma curSize_evict:
  assumes wf: "lru_wf c" and vs: "distinct vs" "set vs \<subseteq> set (map snd (lc_caches c))"
  shows "curSize (evict vs c) = curSize c - sizes c vs"
proof -
  let ?f = "\<lambda>h. cf_size (lc_heap c h)" and ?H = "set (map snd (lc_caches c))"
  have gone: "p \<in> (\<lambda>h. cf_path (lc_heap c h)) ` set vs \<longleftrightarrow> h \<in> set vs" if "(p, h) \<in> set (lc_caches c)" for p h
  proof -
    have p: "cf_path (lc_heap c h) = p" and h: "h \<in> ?H" using lru_wf_path [OF wf that] that by force+
    have "h = g" if "g \<in> set vs" "p = cf_path (lc_heap c g)" for g
      using that vs(2) lru_wf_handle(1) [OF wf h] lru_wf_handle(1) [OF wf, of g] p by auto
    with p show ?thesis by auto
  qed
  have "set (map snd (lc_caches (evict vs c))) = ?H - set vs"
    using gone by (force simp: evict_def Let_def)
  moreover have "distinct (map snd (lc_caches (evict vs c)))"
    unfolding evict_def Let_def by (simp add: lru_wf_distinct [OF wf] distinct_map_filter)
  ultimately have "curSize (evict vs c) = (\<Sum>h\<in>?H - set vs. ?f h)"
    by (simp only: curSize_sizes sizes_set evict_heap)
  also have "\<dots> = (\<Sum>h\<in>?H. ?f h) - (\<Sum>h\<in>set vs. ?f h)" by (rule sum_diff_nat) (use vs(2) in auto)
  finally show ?thesis by (simp only: curSize_sizes sizes_set vs(1) lru_wf_distinct [OF wf])
qed

text \<open>C15: In a cache that has reached its limit, making room removes the files that nobody refers to in
  the order of their last access, from the map and from the disk: as many as are needed to come down
  to 70 percent of the limit and not one more, or all of them when that is not enough.\<close>

theorem makeRoom_lru:
  assumes "sorts srt" and wf: "lru_wf c" and "\<And>p. \<not> flt (Unlink p)" and full: "lc_maxSize conf \<le> curSize c"
  shows "\<exists>vs ws. mset (vs @ ws) = mset (filter (idle c) (map snd (lc_caches c)))
    \<and> sorted (map (\<lambda>h. cf_atime (lc_heap c h)) (vs @ ws))
    \<and> makeRoomForCacheFile conf flt srt c = evict vs c
    \<and> (ws = [] \<or> at_target (lc_maxSize conf) (curSize (evict vs c)))
    \<and> (\<forall>us us'. vs = us @ us' \<longrightarrow> us \<noteq> [] \<longrightarrow> us' \<noteq> [] \<longrightarrow> \<not> at_target (lc_maxSize conf) (curSize (evict us c)))"
proof -
  let ?hs = "map snd (lc_caches c)" and ?M = "lc_maxSize conf"
  define ss where "ss = srt (\<lambda>h. cf_atime (lc_heap c h)) ?hs"
  let ?vs = "victims ?M c ss (curSize c)"
  have ss: "mset ss = mset ?hs" "sorted (map (\<lambda>h. cf_atime (lc_heap c h)) ss)" using assms(1) by (simp_all add: sorts_def ss_def)
  then have set: "set ss = set ?hs" "distinct ss" using lru_wf_distinct [OF wf] by (metis set_mset_mset) (metis ss(1) lru_wf_distinct [OF wf] mset_eq_imp_distinct_iff)
  from victims_split [of c ss ?M "curSize c"] obtain ws where ws: "filter (idle c) ss = ?vs @ ws"
      "ws = [] \<or> at_target ?M (curSize c - sizes c ?vs)"
      "\<forall>us us'. ?vs = us @ us' \<longrightarrow> us \<noteq> [] \<longrightarrow> us' \<noteq> [] \<longrightarrow> \<not> at_target ?M (curSize c - sizes c us)" by blast
  have sub: "curSize (evict us c) = curSize c - sizes c us" if "?vs = us @ us'" for us us'
  proof (rule curSize_evict [OF wf])
    have "distinct (filter (idle c) ss)" using set(2) by simp
    then show "distinct us" by (simp add: ws(1) that)
    have "set us \<subseteq> set (filter (idle c) ss)" by (simp add: ws(1) that)
    then have "set us \<subseteq> set ss" by auto
    then show "set us \<subseteq> set ?hs" by (simp only: set(1))
  qed
  have "mset (map (\<lambda>h. cf_path (lc_heap c h)) ss) = mset (map (\<lambda>h. cf_path (lc_heap c h)) ?hs)" by (metis mset_map ss(1))
  then have "distinct (map (\<lambda>h. cf_path (lc_heap c h)) ss)"
    unfolding lru_wf_paths [OF wf] using wf unfolding lru_wf_def by (metis mset_eq_imp_distinct_iff)
  from sweep_victims [of flt c ss, OF assms(3) this] lru_wf_handle [OF wf] set(1)
  have "makeRoomForCacheFile conf flt srt c = evict ?vs c"
    using full set(1) by (auto simp: makeRoomForCacheFile_def room_snapshot_def simp flip: ss_def)
  moreover have "mset (?vs @ ws) = mset (filter (idle c) ?hs)" unfolding ws(1) [symmetric] by (simp add: ss(1))
  moreover have "sorted (map (\<lambda>h. cf_atime (lc_heap c h)) (?vs @ ws))" unfolding ws(1) [symmetric] by (rule sorted_filter [OF ss(2)])
  ultimately show ?thesis using ws(2,3) sub [of ?vs "[]"] sub by (intro exI [of _ ?vs] exI [of _ ws]) auto
qed

definition demo_file :: "string \<Rightarrow> uint64 \<Rightarrow> nat \<Rightarrow> int \<Rightarrow> cache_file" where
  "demo_file s r n t = \<lparr>cf_path = [''data'', s], cf_refCount = r, cf_size = n, cf_atime = t\<rparr>"

definition demo_lru :: lru where
  "demo_lru = \<lparr>lc_caches = [([''data'', ''c''], 2), ([''data'', ''a''], 0), ([''data'', ''b''], 1)],
     lc_heap = (\<lambda>h. if h = 0 then demo_file ''a'' 0 4 10 else if h = 1 then demo_file ''b'' 1 3 5 else demo_file ''c'' 0 4 20),
     lc_next = 3, lc_ready = [], lc_chan = 0, lc_closed = [],
     lc_fs = [([], Folder), ([''data''], Folder), ([''data'', ''a''], File 4), ([''data'', ''b''], File 3), ([''data'', ''c''], File 4)]\<rparr>"

definition demo_conf :: lru_conf where
  "demo_conf = \<lparr>lc_maxSize = 10, lc_fileExt = (\<lambda>_. True), lc_tempExt = ''.temp'', lc_rootPath = [''data'']\<rparr>"

lemma sorts_sort_key: "sorts (\<lambda>f. sort_key f)"
  by (simp add: sorts_def)

lemma demo_wf: "lru_wf demo_lru" "lc_maxSize demo_conf \<le> curSize demo_lru"
  by (simp_all add: lru_wf_def demo_lru_def demo_file_def demo_conf_def curSize_def)

text \<open>The file that was used longest ago is referred to; one of the others has to go.\<close>

theorem makeRoom_lru_witness:
  "lc_caches (makeRoomForCacheFile demo_conf (\<lambda>_. False) (\<lambda>f. sort_key f) demo_lru) = [([''data'', ''c''], 2), ([''data'', ''b''], 1)]
   \<and> (\<exists>vs ws. mset (vs @ ws) = mset (filter (idle demo_lru) (map snd (lc_caches demo_lru)))
        \<and> makeRoomForCacheFile demo_conf (\<lambda>_. False) (\<lambda>f. sort_key f) demo_lru = evict vs demo_lru)"
proof
  have "at_target 10 7" by (simp add: at_target_def float_round_def nbits.simps)
  then show "lc_caches (makeRoomForCacheFile demo_conf (\<lambda>_. False) (\<lambda>f. sort_key f) demo_lru) = [([''data'', ''c''], 2), ([''data'', ''b''], 1)]"
    by (simp add: makeRoomForCacheFile_def room_snapshot_def curSize_def demo_conf_def demo_lru_def demo_file_def Let_def unlink_ok_def adel_def)
  from makeRoom_lru [of "\<lambda>f. sort_key f" demo_lru "\<lambda>_. False" demo_conf, OF sorts_sort_key demo_wf(1) _ demo_wf(2)]
  show "\<exists>vs ws. mset (vs @ ws) = mset (filter (idle demo_lru) (map snd (lc_caches demo_lru)))
        \<and> makeRoomForCacheFile demo_conf (\<lambda>_. False) (\<lambda>f. sort_key f) demo_lru = evict vs demo_lru" by blast
qed

section \<open>Concurrent callers\<close>

text \<open>
  The runs of the cache: callers take references (\<open>held\<close> counts them), give them back, and the sections
  under the lock of all operations are interleaved freely. A sweep may work on any list of files, so
  also on one that was collected long before. The file system may change at any time.
  A caller of \<^verbatim>\<open>CacheFile\<close> gets the file it has just registered, that is, nobody replaces the entry before it
  reads the map again without the lock.
\<close>

inductive lru_reach :: "nat multiset \<Rightarrow> lru \<Rightarrow> bool" where
  lr_init: "lc_caches c0 = [] \<Longrightarrow> init conf flt atime c0 = Inr c \<Longrightarrow> lru_reach {#} c"
| lr_get: "lru_reach held c \<Longrightarrow> GetCacheFile flt p now c = (Some h, c') \<Longrightarrow> lru_reach (add_mset h held) c'"
| lr_miss: "lru_reach held c \<Longrightarrow> GetCacheFile flt p now c = (None, c') \<Longrightarrow> lru_reach held c'"
| lr_hit: "lru_reach held c \<Longrightarrow> cache_lookup p now c = (Hit h, c') \<Longrightarrow> lru_reach (add_mset h held) c'"
| lr_begin: "lru_reach held c \<Longrightarrow> cache_lookup p now c = (Start ch, c') \<Longrightarrow> lru_reach held c'"
| lr_abort: "lru_reach held c \<Longrightarrow> lru_reach held (close_ready p ch c)"
| lr_publish: "lru_reach held c \<Longrightarrow> lru_reach (add_mset (lc_next c) held) (cache_publish p ch n now c)"
| lr_update: "lru_reach held c \<Longrightarrow> lru_reach held (register p \<lparr>cf_path = p, cf_refCount = 0, cf_size = n, cf_atime = now\<rparr> c)"
| lr_writer: "lru_reach held c \<Longrightarrow> writer_lookup p now c = (h, c') \<Longrightarrow> lru_reach (add_mset h held) c'"
| lr_close: "lru_reach held c \<Longrightarrow> h \<in># held \<Longrightarrow> lru_reach (held - {#h#}) (CacheFile_Close h c)"
| lr_remove: "lru_reach held c \<Longrightarrow> lru_reach held (c\<lparr>lc_caches := adel p (lc_caches c)\<rparr>)"
| lr_sweep: "lru_reach held c \<Longrightarrow> lru_reach held (sweep maxSize flt hs cur c)"
| lr_disk: "lru_reach held c \<Longrightarrow> lru_reach held (c\<lparr>lc_fs := fs\<rparr>)"

definition lru_inv :: "nat multiset \<Rightarrow> lru \<Rightarrow> bool" where
  "lru_inv held c \<longleftrightarrow> (\<forall>h\<in>#held. h < lc_next c)
     \<and> (\<forall>p h. map_of (lc_caches c) p = Some h \<longrightarrow> h < lc_next c \<and> cf_path (lc_heap c h) = p \<and> cf_refCount (lc_heap c h) = of_nat (count held h))"

lemma lru_inv_fresh: "lru_inv held c \<Longrightarrow> count held (lc_next c) = 0"
  unfolding lru_inv_def by (metis less_irrefl not_in_iff)

lemma lru_inv_acquire:
  assumes "lru_inv held c" and "map_of (lc_caches c) p = Some h"
  shows "lru_inv (add_mset h held) (acquire h now c)"
  using assms unfolding lru_inv_def acquire_def by (auto simp: add.commute)

lemma lru_inv_lost:
  assumes "lru_inv held c" and "map_of (lc_caches c) p = Some h"
  shows "lru_inv held ((acquire h now c)\<lparr>lc_caches := adel p (lc_caches c)\<rparr>)"
proof -
  have "g \<noteq> h \<and> map_of (lc_caches c) q = Some g" if "map_of (adel p (lc_caches c)) q = Some g" for q g
    using assms that unfolding lru_inv_def by (metis fun_upd_apply map_of_adel option.distinct(1))
  with assms(1) show ?thesis unfolding lru_inv_def by (auto simp del: map_of_adel simp: acquire_def) blast+
qed

lemma lru_inv_register:
  assumes "lru_inv held c"
  shows "lru_inv held (register p \<lparr>cf_path = p, cf_refCount = 0, cf_size = n, cf_atime = now\<rparr> c)"
    and "lru_inv (add_mset (lc_next c) held) (register p \<lparr>cf_path = p, cf_refCount = 1, cf_size = n, cf_atime = now\<rparr> c)"
  using assms lru_inv_fresh [OF assms] unfolding lru_inv_def register_def by (auto simp: less_Suc_eq)

lemma lru_inv_less_caches:
  assumes "lru_inv held c" and "\<And>p h. map_of (lc_caches c') p = Some h \<Longrightarrow> map_of (lc_caches c) p = Some h"
    and "lc_heap c' = lc_heap c" "lc_next c' = lc_next c"
  shows "lru_inv held c'"
  using assms(1,2) unfolding lru_inv_def assms(3,4) by blast

lemma lru_inv_close:
  assumes "lru_inv held c" and "h \<in># held"
  shows "lru_inv (held - {#h#}) (CacheFile_Close h c)"
proof -
  have "count held h = Suc (count (held - {#h#}) h)" using assms(2) by simp
  then have "(of_nat (count held h) :: uint64) - 1 = of_nat (count (held - {#h#}) h)" by (simp only: of_nat_Suc add_diff_cancel_left')
  with assms show ?thesis unfolding lru_inv_def CacheFile_Close_def by (auto dest: in_diffD)
qed

lemma sweep_caches: "map_of (lc_caches (sweep maxSize flt hs cur c)) p = Some h \<Longrightarrow> map_of (lc_caches c) p = Some h"
proof (induction maxSize flt hs cur c rule: sweep.induct)
  case (2 maxSize flt g hs cur c)
  from "2.prems" "2.IH"(1,2) [OF refl refl refl refl] "2.IH"(3) [OF refl refl refl refl _ _ refl refl]
  show ?case by (auto simp: Let_def split: if_splits)
qed simp

lemma init_walk_inv: "init_walk conf flt atime es c = Inr c' \<Longrightarrow> lru_inv {#} c \<Longrightarrow> lru_inv {#} c'"
proof (induction conf flt atime es c rule: init_walk.induct)
  case (3 conf flt atime p n es c)
  have "lru_inv {#} (c\<lparr>lc_fs := fs\<rparr>)" for fs by (rule lru_inv_less_caches [OF "3.prems"(2)]) simp_all
  with 3 lru_inv_register(1) [OF "3.prems"(2)] show ?case by (auto simp: Let_def split: if_splits)
qed simp_all

lemma lru_reach_inv: "lru_reach held c \<Longrightarrow> lru_inv held c"
proof (induction rule: lru_reach.induct)
  case (lr_init c0 conf flt atime c)
  from lr_init.hyps(1) have "lru_inv {#} (c0\<lparr>lc_fs := fs\<rparr>)" for fs by (simp add: lru_inv_def)
  with lr_init.hyps(2) show ?case by (auto simp: init_def dest: init_walk_inv split: sum.splits)
next
  case (lr_get held c flt p now h c')
  then have "map_of (lc_caches c) p = Some h" "c' = acquire h now c"
    by (auto simp: GetCacheFile_def Let_def split: option.splits if_splits)
  with lru_inv_acquire [OF lr_get.IH] show ?case by simp
next
  case (lr_miss held c flt p now c')
  then consider "c' = c" | h where "c' = (acquire h now c)\<lparr>lc_caches := adel p (lc_caches c)\<rparr>" "map_of (lc_caches c) p = Some h"
    by (fastforce simp: GetCacheFile_def Let_def acquire_def split: option.splits if_splits)
  then show ?case
  proof cases
    case 2
    with lru_inv_lost [OF lr_miss.IH] show ?thesis by simp
  qed (simp add: lr_miss.IH)
next
  case (lr_hit held c p now h c')
  then have "map_of (lc_caches c) p = Some h" "c' = acquire h now c"
    by (auto simp: cache_lookup_def split: option.splits)
  with lru_inv_acquire [OF lr_hit.IH] show ?case by simp
next
  case (lr_begin held c p now ch c')
  show ?case by (rule lru_inv_less_caches [OF lr_begin.IH]) (use lr_begin.hyps(2) in \<open>auto simp: cache_lookup_def split: option.splits\<close>)
next
  case (lr_abort held c p ch)
  show ?case by (rule lru_inv_less_caches [OF lr_abort.IH]) (simp_all add: close_ready_def)
next
  case (lr_publish held c p ch n now)
  have "lru_inv held (close_ready p ch c)" by (rule lru_inv_less_caches [OF lr_publish.IH]) (simp_all add: close_ready_def)
  from lru_inv_register(2) [OF this] show ?case by (simp add: cache_publish_def close_ready_def)
next
  case (lr_update held c p n now)
  from lru_inv_register(1) [OF lr_update.IH] show ?case .
next
  case (lr_writer held c p now h c')
  show ?case
  proof (cases "map_of (lc_caches c) p")
    case None
    with lr_writer.hyps(2) lru_inv_register(2) [OF lr_writer.IH] show ?thesis by (auto simp: writer_lookup_def)
  next
    case (Some g)
    with lr_writer.hyps(2) lru_inv_acquire [OF lr_writer.IH Some] show ?thesis by (auto simp: writer_lookup_def)
  qed
next
  case (lr_close held c h)
  from lru_inv_close [OF lr_close.IH lr_close.hyps(2)] show ?case .
next
  case (lr_remove held c p)
  show ?case by (rule lru_inv_less_caches [OF lr_remove.IH]) (auto split: if_splits)
next
  case (lr_sweep held c maxSize flt hs cur)
  show ?case by (rule lru_inv_less_caches [OF lr_sweep.IH]) (auto simp: sweep_keeps dest: sweep_caches)
next
  case (lr_disk held c fs)
  show ?case by (rule lru_inv_less_caches [OF lr_disk.IH]) simp_all
qed


definition used_lru :: lru where
  "used_lru = \<lparr>lc_caches = [([''data'', ''a''], 0)],
     lc_heap = (\<lambda>_. demo_file ''a'' 0 20 0)(0 := demo_file ''a'' 0 20 10), lc_next = 1, lc_ready = [], lc_chan = 0, lc_closed = [],
     lc_fs = [([], Folder), ([''data''], Folder), ([''data'', ''a''], File 20)]\<rparr>"

lemma used_reach: "lru_reach {#0#} (acquire 0 30 used_lru)"
proof -
  let ?c0 = "\<lparr>lc_caches = [], lc_heap = (\<lambda>_. demo_file ''a'' 0 20 0), lc_next = 0, lc_ready = [], lc_chan = 0, lc_closed = [],
     lc_fs = [([], Folder), ([''data''], Folder), ([''data'', ''a''], File 20)]\<rparr>"
  have "init demo_conf (\<lambda>_. False) (\<lambda>_. 10) ?c0 = Inr used_lru"
    by (simp add: init_def demo_conf_def below_def Ext_def Let_def register_def used_lru_def demo_file_def)
  then have "lru_reach {#} used_lru" by (rule lr_init [rotated]) simp
  moreover have "GetCacheFile (\<lambda>_. False) [''data'', ''a''] 30 used_lru = (Some 0, acquire 0 30 used_lru)"
    by (simp add: GetCacheFile_def used_lru_def Let_def)
  ultimately show ?thesis by (rule lr_get)
qed


section \<open>Downloads\<close>

lemma makeRoom_keeps:
  "lc_ready (makeRoomForCacheFile conf flt srt c) = lc_ready c" "lc_chan (makeRoomForCacheFile conf flt srt c) = lc_chan c"
  "map_of (lc_caches c) p = None \<Longrightarrow> map_of (lc_caches (makeRoomForCacheFile conf flt srt c)) p = None"
proof -
  have "map_of (lc_caches (sweep m flt hs cur c)) p = None" if "map_of (lc_caches c) p = None" for m hs cur
    using sweep_caches [of m flt hs cur c p] that by (metis option.exhaust option.distinct(1))
  then show "map_of (lc_caches c) p = None \<Longrightarrow> map_of (lc_caches (makeRoomForCacheFile conf flt srt c)) p = None"
    by (simp add: makeRoomForCacheFile_def split: option.split)
qed (simp_all add: makeRoomForCacheFile_def sweep_keeps split: option.split)

lemma Setup_keeps: "Setup flt d c = Inr c' \<Longrightarrow> lc_caches c' = lc_caches c \<and> lc_ready c' = lc_ready c"
  by (auto simp: Setup_def split: sum.splits bool.splits if_splits)

text \<open>C37: When the temporary file of a download cannot be created, the call panics and leaves its channel
  open in the map: from then on no call for this file gets past it, they fail or wait for ever.\<close>

theorem CacheFile_stuck:
  assumes "Setup flt (butlast p) c = Inr c1" and "flt CreateTemp" and "map_of (lc_caches c) p = None" and "map_of (lc_ready c) p = None"
  shows "\<exists>c'. CacheFile conf flt srt tmp n now p c = Panics c'
    \<and> (\<forall>flt' srt' tmp' n' now'. (\<exists>e. CacheFile conf flt' srt' tmp' n' now' p c' = Returns (Inl e) c')
         \<or> (\<exists>c''. CacheFile conf flt' srt' tmp' n' now' p c' = Blocks c'' \<and> map_of (lc_ready c'') p = map_of (lc_ready c') p))"
proof -
  note room = makeRoom_keeps(1-3)
  obtain c2 where c2: "cache_lookup p now (makeRoomForCacheFile conf flt srt c1) = (Start (lc_chan c1), c2)"
      "map_of (lc_caches c2) p = None" "map_of (lc_ready c2) p = Some (lc_chan c1)"
    using Setup_keeps [OF assms(1)] assms(3,4) room(3) [of c1 p conf flt srt] by (simp add: cache_lookup_def room(1,2))
  have "CacheFile conf flt srt tmp n now p c = Panics c2"
    using assms(1,2) c2(1) by (simp add: CacheFile_def download_def)
  moreover have "(\<exists>e. CacheFile conf f s t m now' p c2 = Returns (Inl e) c2)
      \<or> (\<exists>c''. CacheFile conf f s t m now' p c2 = Blocks c'' \<and> map_of (lc_ready c'') p = map_of (lc_ready c2) p)" for f s t m now'
  proof (cases "Setup f (butlast p) c2")
    case (Inr d)
    let ?d = "makeRoomForCacheFile conf f s d"
    have "map_of (lc_caches ?d) p = None" "map_of (lc_ready ?d) p = Some (lc_chan c1)"
      using Setup_keeps [OF Inr] c2(2,3) room(3) [of d p conf f s] by (simp_all add: room(1))
    with Inr c2(3) show ?thesis by (simp add: CacheFile_def cache_lookup_def)
  qed (simp add: CacheFile_def)
  ultimately show ?thesis by blast
qed

theorem CacheFile_stuck_witness:
  "\<exists>c'. CacheFile demo_conf (\<lambda>op. op = CreateTemp) (\<lambda>f. sort_key f) [''data'', ''1.temp''] 7 40 [''data'', ''x''] used_lru = Panics c'"
  using CacheFile_stuck [of "\<lambda>op. op = CreateTemp" "[''data'', ''x'']" used_lru used_lru demo_conf "\<lambda>f. sort_key f" "[''data'', ''1.temp'']" 7 40]
  by (simp add: Setup_def dirExists_def used_lru_def) blast

lemma Remove_keeps:
  "lc_ready (snd (LruCache_Remove conf flt p c)) = lc_ready c" "lc_heap (snd (LruCache_Remove conf flt p c)) = lc_heap c"
  "lc_caches (snd (LruCache_Remove conf flt p c)) = adel p (lc_caches c)"
  by (simp_all add: LruCache_Remove_def Let_def split: prod.split)

lemma cleanup_keeps:
  "lc_ready (cleanup conf flt tmp p ch c) = adel p (lc_ready c)" "lc_caches (cleanup conf flt tmp p ch c) = adel tmp (lc_caches c)"
  by (simp_all add: cleanup_def close_ready_def Remove_keeps)

lemma download_result:
  assumes "download conf flt tmp n now p ch c = Returns r c'" and "map_of (lc_caches c) p = None" and "tmp \<noteq> p"
  shows "map_of (lc_ready c') p = None
    \<and> (case r of Inl e \<Rightarrow> map_of (lc_caches c') p = None
       | Inr h \<Rightarrow> map_of (lc_caches c') p = Some h \<and> lc_heap c' h = \<lparr>cf_path = p, cf_refCount = 1, cf_size = n, cf_atime = now\<rparr>
           \<and> map_of (lc_fs c') p = Some (File n) \<and> map_of (lc_fs c') tmp = None)"
  using assms
  by (auto simp: download_def Let_def cleanup_keeps cache_publish_def register_def close_ready_def rename_to_def
      split: if_splits sum.splits option.splits node.splits)

text \<open>C27: A call of \<^verbatim>\<open>CacheFile\<close> for a file that is not in the cache and that returns leaves no channel behind;
  it has either registered the file, with one reference and the downloaded data in place of the
  temporary file, or reports an error and has not registered it.\<close>

theorem CacheFile_result:
  assumes "CacheFile conf flt srt tmp n now p c = Returns r c'" and "map_of (lc_caches c) p = None" and "map_of (lc_ready c) p = None" and "tmp \<noteq> p"
  shows "map_of (lc_ready c') p = None
    \<and> (case r of Inl e \<Rightarrow> map_of (lc_caches c') p = None
       | Inr h \<Rightarrow> map_of (lc_caches c') p = Some h \<and> lc_heap c' h = \<lparr>cf_path = p, cf_refCount = 1, cf_size = n, cf_atime = now\<rparr>
           \<and> map_of (lc_fs c') p = Some (File n) \<and> map_of (lc_fs c') tmp = None)"
proof (cases "Setup flt (butlast p) c")
  case (Inl e)
  with assms show ?thesis by (auto simp: CacheFile_def)
next
  case (Inr c1)
  let ?d = "makeRoomForCacheFile conf flt srt c1"
  have "map_of (lc_caches ?d) p = None" "map_of (lc_ready ?d) p = None"
    using Setup_keeps [OF Inr] assms(2,3) by (simp_all add: makeRoom_keeps)
  then obtain c2 where c2: "cache_lookup p now ?d = (Start (lc_chan ?d), c2)" "map_of (lc_caches c2) p = None"
    by (simp add: cache_lookup_def)
  with assms(1) Inr have "download conf flt tmp n now p (lc_chan ?d) c2 = Returns r c'" by (simp add: CacheFile_def)
  from download_result [OF this c2(2) assms(4)] show ?thesis .
qed

definition empty_lru :: lru where
  "empty_lru = \<lparr>lc_caches = [], lc_heap = (\<lambda>_. demo_file ''a'' 0 0 0), lc_next = 0, lc_ready = [], lc_chan = 0, lc_closed = [],
     lc_fs = [([], Folder), ([''data''], Folder)]\<rparr>"

theorem CacheFile_result_witness:
  "\<exists>c'. CacheFile demo_conf (\<lambda>_. False) (\<lambda>f. sort_key f) [''data'', ''1.temp''] 7 40 [''data'', ''i'', ''x''] empty_lru = Returns (Inr 0) c'
     \<and> map_of (lc_caches c') [''data'', ''i'', ''x''] = Some 0 \<and> map_of (lc_fs c') [''data'', ''i'', ''x''] = Some (File 7)"
proof -
  let ?run = "CacheFile demo_conf (\<lambda>_. False) (\<lambda>f. sort_key f) [''data'', ''1.temp''] 7 40 [''data'', ''i'', ''x''] empty_lru"
  have "\<exists>c'. ?run = Returns (Inr 0) c'"
    by (simp add: CacheFile_def Setup_def dirExists_def empty_lru_def MkdirAll_def upt_rec makeRoomForCacheFile_def room_snapshot_def
        curSize_def demo_conf_def cache_lookup_def download_def Let_def rename_to_def adel_def)
  then obtain c' where "?run = Returns (Inr 0) c'" by blast
  with CacheFile_result [OF this] show ?thesis by (simp add: empty_lru_def)
qed

section \<open>Removal\<close>

text \<open>In a file system every node lies in a directory.\<close>

definition fs_wf :: "fs \<Rightarrow> bool" where
  "fs_wf fs \<longleftrightarrow> (\<forall>q. map_of fs q \<noteq> None \<longrightarrow> q \<noteq> [] \<longrightarrow> map_of fs (butlast q) = Some Folder)"

lemma map_of_RemoveAll [simp]: "map_of (RemoveAll d fs) q = (if below d q then None else map_of fs q)"
  by (induction fs) (auto simp: RemoveAll_def)

lemma below_iff: "below d q \<longleftrightarrow> (\<exists>r. q = d @ r)"
  unfolding below_def by (metis append_eq_conv_conj append_take_drop_id)

lemma below_refl [simp]: "below d d"
  by (simp add: below_def)

lemma below_trans: "below a b \<Longrightarrow> below b c \<Longrightarrow> below a c"
  unfolding below_iff by auto

lemma below_butlast: "below (butlast q) q"
  by (simp add: below_def butlast_conv_take)

lemma below_butlast_neq: "below d q \<Longrightarrow> q \<noteq> d \<Longrightarrow> below d (butlast q)"
  unfolding below_iff by (auto simp: butlast_append)

lemma fs_wf_RemoveAll: "fs_wf fs \<Longrightarrow> fs_wf (RemoveAll d fs)"
  unfolding fs_wf_def using below_trans [OF _ below_butlast] by (metis map_of_RemoveAll)

lemma no_children:
  assumes wf: "fs_wf fs" and "children d fs = []"
  shows "below d q \<Longrightarrow> q \<noteq> d \<Longrightarrow> map_of fs q = None"
proof (induction q rule: rev_induct)
  case (snoc x q)
  show ?case
  proof (cases "q = d")
    case True
    with assms(2) show ?thesis by (force simp: children_def filter_empty_conv dest: map_of_SomeD intro: ccontr)
  next
    case False
    with snoc below_butlast_neq [of d "q @ [x]"] have "map_of fs q = None" by simp
    with wf show ?thesis unfolding fs_wf_def by (metis butlast_snoc option.distinct(1) snoc_eq_iff_butlast)
  qed
qed (simp add: below_def)

lemma removeParentIfEmpty_scope:
  assumes "fs_wf fs"
  shows "fs_wf (snd (removeParentIfEmpty conf flt p fs))
    \<and> (map_of (snd (removeParentIfEmpty conf flt p fs)) q = map_of fs q
       \<or> map_of (snd (removeParentIfEmpty conf flt p fs)) q = None \<and> map_of fs q = Some Folder \<and> below q p)"
  using assms
proof (induction conf flt p fs rule: removeParentIfEmpty.induct)
  case (1 conf flt p fs)
  let ?d = "butlast p"
  show ?case
  proof (cases "p = lc_rootPath conf \<or> map_of fs ?d \<noteq> Some Folder \<or> flt (ReadDir ?d) \<or> children ?d fs \<noteq> [] \<or> flt (UnlinkAll ?d)")
    case True
    have "snd (removeParentIfEmpty conf flt p fs) = fs"
      by (subst removeParentIfEmpty.simps) (use True in \<open>auto simp: Let_def\<close>)
    with "1.prems" show ?thesis by simp
  next
    case False
    then have step: "removeParentIfEmpty conf flt p fs = removeParentIfEmpty conf flt ?d (RemoveAll ?d fs)"
      by (subst removeParentIfEmpty.simps) (simp add: Let_def)
    have IH: "fs_wf (snd (removeParentIfEmpty conf flt ?d (RemoveAll ?d fs))) \<and>
      (map_of (snd (removeParentIfEmpty conf flt ?d (RemoveAll ?d fs))) q = map_of (RemoveAll ?d fs) q
       \<or> map_of (snd (removeParentIfEmpty conf flt ?d (RemoveAll ?d fs))) q = None \<and> map_of (RemoveAll ?d fs) q = Some Folder \<and> below q ?d)"
      using "1.IH" [OF _ refl] False fs_wf_RemoveAll [OF "1.prems"] by simp
    have "map_of (RemoveAll ?d fs) q = map_of fs q \<or> q = ?d"
      using no_children [OF "1.prems", of ?d q] False by auto
    with IH False below_trans [OF _ below_butlast [of p]] below_butlast [of p] show ?thesis
      unfolding step by (auto split: if_splits)
  qed
qed

text \<open>C28: Removing a path takes its entry out of the cache, deletes nothing but the path with what is below
  it and directories above it, and these only when they have become empty: every node that is left
  still lies in a directory.\<close>

theorem Remove_scope:
  assumes "fs_wf (lc_fs c)" and "LruCache_Remove conf flt p c = (e, c')"
  shows "map_of (lc_caches c') = (map_of (lc_caches c))(p := None) \<and> fs_wf (lc_fs c')
    \<and> (e = None \<longrightarrow> (\<forall>q. below p q \<longrightarrow> map_of (lc_fs c') q = None))
    \<and> (\<forall>q. map_of (lc_fs c') q = map_of (lc_fs c) q
         \<or> map_of (lc_fs c') q = None \<and> (below p q \<or> map_of (lc_fs c) q = Some Folder \<and> below q p))"
proof (cases "flt (UnlinkAll p)")
  case True
  with assms show ?thesis by (auto simp: LruCache_Remove_def Let_def)
next
  case False
  let ?fs = "RemoveAll p (lc_fs c)"
  from False assms(2) have c': "lc_caches c' = adel p (lc_caches c)" "lc_fs c' = snd (removeParentIfEmpty conf flt p ?fs)"
    by (auto simp: LruCache_Remove_def Let_def split: prod.splits)
  note scope = removeParentIfEmpty_scope [OF fs_wf_RemoveAll [OF assms(1)], of conf flt p p]
  have "map_of (lc_fs c') q = map_of ?fs q \<or> map_of (lc_fs c') q = None \<and> map_of ?fs q = Some Folder \<and> below q p" for q
    using removeParentIfEmpty_scope [OF fs_wf_RemoveAll [OF assms(1)], of conf flt p p q] unfolding c'(2) by blast
  then have "map_of (lc_fs c') q = map_of (lc_fs c) q \<or> map_of (lc_fs c') q = None \<and> (below p q \<or> map_of (lc_fs c) q = Some Folder \<and> below q p)"
      "below p q \<Longrightarrow> map_of (lc_fs c') q = None" for q
    by (metis map_of_RemoveAll)+
  with scope show ?thesis by (simp add: c')
qed

definition tree_lru :: lru where
  "tree_lru = empty_lru\<lparr>lc_caches := [([''data'', ''i'', ''x''], 0), ([''data'', ''y''], 1)],
     lc_fs := [([], Folder), ([''data''], Folder), ([''data'', ''i''], Folder), ([''data'', ''i'', ''x''], File 3), ([''data'', ''y''], File 4)]\<rparr>"

lemma tree_wf: "fs_wf (lc_fs tree_lru)"
  by (auto simp: fs_wf_def tree_lru_def)

theorem Remove_scope_witness:
  "\<exists>c'. LruCache_Remove demo_conf (\<lambda>_. False) [''data'', ''i'', ''x''] tree_lru = (None, c') \<and> map_of (lc_fs c') [''data'', ''i''] = None \<and> fs_wf (lc_fs c')"
proof -
  let ?c = "tree_lru\<lparr>lc_caches := [([''data'', ''y''], 1)], lc_fs := [([], Folder), ([''data''], Folder), ([''data'', ''y''], File 4)]\<rparr>"
  have r: "LruCache_Remove demo_conf (\<lambda>_. False) [''data'', ''i'', ''x''] tree_lru = (None, ?c)"
    by (simp add: LruCache_Remove_def tree_lru_def demo_conf_def removeParentIfEmpty.simps Let_def RemoveAll_def below_def children_def adel_def)
  from Remove_scope [OF tree_wf r] have "fs_wf (lc_fs ?c)" by blast
  with r show ?thesis by (intro exI [of _ ?c]) simp
qed

text \<open>Removing the last file directly below the cache's root also removes the root directory itself:
  the check for the root is made for the removed path and not for its parent.\<close>

lemma Remove_root:
  assumes "\<And>op. \<not> flt op" and p: "butlast p = lc_rootPath conf" "p \<noteq> lc_rootPath conf"
    and "map_of (lc_fs c) (lc_rootPath conf) = Some Folder"
    and last: "\<And>q. map_of (lc_fs c) q \<noteq> None \<Longrightarrow> below (lc_rootPath conf) q \<Longrightarrow> q = lc_rootPath conf \<or> below p q"
  shows "\<exists>c'. LruCache_Remove conf flt p c = (None, c') \<and> map_of (lc_fs c') (lc_rootPath conf) = None"
proof -
  let ?d = "lc_rootPath conf" and ?fs = "RemoveAll p (lc_fs c)"
  have len: "q \<noteq> [] \<Longrightarrow> butlast q = ?d \<Longrightarrow> length ?d < length q" for q by (metis length_butlast diff_less length_greater_0_conv zero_less_one)
  have "p \<noteq> []" using p by auto
  from len [OF this p(1)] have np: "\<not> below p ?d" unfolding below_iff by auto
  have "q \<noteq> [] \<Longrightarrow> butlast q \<noteq> ?d" if "(q, x) \<in> set ?fs" for q x
  proof
    assume q: "q \<noteq> []" "butlast q = ?d"
    from that have "map_of ?fs q \<noteq> None" by (metis domIff dom_map_of_conv_image_fst fst_conv rev_image_eqI)
    with last [of q] below_butlast [of q] q(2) have "q = ?d" by (auto split: if_splits)
    with len [OF q] show False by simp
  qed
  then have "children ?d ?fs = []" by (auto simp: children_def filter_empty_conv)
  then have "removeParentIfEmpty conf flt p ?fs = removeParentIfEmpty conf flt ?d (RemoveAll ?d ?fs)"
    by (subst removeParentIfEmpty.simps) (simp add: assms np Let_def)
  then have "removeParentIfEmpty conf flt p ?fs = (None, RemoveAll ?d ?fs)"
    by (simp add: removeParentIfEmpty.simps [of conf flt ?d])
  then show ?thesis by (simp add: LruCache_Remove_def Let_def assms(1))
qed

lemma Remove_root_witness:
  "\<exists>c'. LruCache_Remove demo_conf (\<lambda>_. False) [''data'', ''1.temp''] (empty_lru\<lparr>lc_fs := [([], Folder), ([''data''], Folder), ([''data'', ''1.temp''], File 0)]\<rparr>) = (None, c')
     \<and> map_of (lc_fs c') [''data''] = None"
proof -
  let ?p = "[''data'', ''1.temp'']" and ?c = "empty_lru\<lparr>lc_fs := [([], Folder), ([''data''], Folder), ([''data'', ''1.temp''], File 0)]\<rparr>"
  have conf: "lc_rootPath demo_conf = [''data'']" by (simp add: demo_conf_def)
  have "q = [''data''] \<or> below ?p q" if "map_of (lc_fs ?c) q \<noteq> None" "below [''data''] q" for q
    using that by (auto simp: below_def split: if_splits)
  from Remove_root [of "\<lambda>_. False" ?p demo_conf ?c, unfolded conf, OF _ _ _ _ this] show ?thesis by simp
qed

end
