(* ===== verification/Flatten.thy ===== *)
theory Flatten
  imports Json "HOL-Library.Sublist"
begin

text \<open>
  Flattening of nested documents, \<^verbatim>\<open>pkg/zutils/flatten/flatten.go\<close>: \<^verbatim>\<open>Flatten\<close> gives every value a dotted key, \<^verbatim>\<open>Unflatten\<close> rebuilds
  the nested maps. Maps are association lists in the order in which they are ranged over.
\<close>

section \<open>Model\<close>

type_synonym members = "(string \<times> jval) list"

text \<open>\<^verbatim>\<open>checkTypeIsMapOrSlice\<close> returns no error.\<close>

fun is_map_or_slice :: "jval \<Rightarrow> bool" where
  "is_map_or_slice (JObj _) = True"
| "is_map_or_slice (JArr _) = True"
| "is_map_or_slice _ = False"

definition enkey :: "bool \<Rightarrow> string \<Rightarrow> string \<Rightarrow> string" where
  "enkey tp pre subkey = (if tp then pre @ subkey else pre @ ''.'' @ subkey)"

fun flatten :: "bool \<Rightarrow> members \<Rightarrow> jval \<Rightarrow> string \<Rightarrow> members"
  and flatten_members :: "bool \<Rightarrow> members \<Rightarrow> members \<Rightarrow> string \<Rightarrow> members"
  and flatten_elems :: "bool \<Rightarrow> members \<Rightarrow> nat \<Rightarrow> jval list \<Rightarrow> string \<Rightarrow> members" where
  "flatten tp flatMap (JObj ms) pre = flatten_members tp flatMap ms pre"
| "flatten tp flatMap (JArr vs) pre =
     (if list_all is_map_or_slice vs then flatten_elems tp flatMap 0 vs pre else aput pre (JArr vs) flatMap)"
| "flatten tp flatMap _ pre = flatMap"
| "flatten_members tp flatMap [] pre = flatMap"
| "flatten_members tp flatMap ((k, v) # ms) pre =
     flatten_members tp
       (if is_map_or_slice v then flatten False flatMap v (enkey tp pre k) else aput (enkey tp pre k) v flatMap) ms pre"
| "flatten_elems tp flatMap i [] pre = flatMap"
| "flatten_elems tp flatMap i (v # vs) pre =
     flatten_elems tp
       (if is_map_or_slice v then flatten False flatMap v (enkey tp pre (format_nat i)) else aput (enkey tp pre (format_nat i)) v flatMap)
       (i + 1) vs pre"

definition Flatten :: "members \<Rightarrow> string \<Rightarrow> members" where
  "Flatten nested pre = flatten True [] (JObj nested) pre"

text \<open>One step of \<^verbatim>\<open>Unflatten\<close>: the walk through the nested maps to the leaf. The maps are changed in place, here
  on the way back.\<close>

fun unflatten_key :: "string list \<Rightarrow> jval \<Rightarrow> members \<Rightarrow> error + members" where
  "unflatten_key [] value m = Inr m"
| "unflatten_key [leafKey] value m =
     (if map_of m leafKey = None then Inr (aput leafKey value m) else Inl ''already exists'')"
| "unflatten_key (k # k' # ks) value m =
     (case map_of m k of
        None \<Rightarrow> (case unflatten_key (k' # ks) value [] of Inl e \<Rightarrow> Inl e | Inr n \<Rightarrow> Inr (aput k (JObj n) m))
      | Some (JObj inner) \<Rightarrow> (case unflatten_key (k' # ks) value inner of Inl e \<Rightarrow> Inl e | Inr n \<Rightarrow> Inr (aput k (JObj n) m))
      | Some _ \<Rightarrow> Inl ''is not an object'')"

fun unflatten_loop :: "members \<Rightarrow> members \<Rightarrow> error + members" where
  "unflatten_loop [] unflat = Inr unflat"
| "unflatten_loop ((key, value) # flat) unflat =
     (case unflatten_key (split_at (CHR ''.'') key) value unflat of
        Inl e \<Rightarrow> Inl e
      | Inr unflat' \<Rightarrow> unflatten_loop flat unflat')"

definition Unflatten :: "members \<Rightarrow> error + members" where
  "Unflatten flat = unflatten_loop flat []"

section \<open>Leaves of a document\<close>

fun leaf :: "jval \<Rightarrow> string list \<Rightarrow> jval option" where
  "leaf (JObj ms) (k # ks) = (case map_of ms k of None \<Rightarrow> None | Some v \<Rightarrow> leaf v ks)"
| "leaf (JObj ms) [] = None"
| "leaf v [] = Some v"
| "leaf v (k # ks) = None"

fun leaves :: "jval \<Rightarrow> (string list \<times> jval) list"
  and leaves_in :: "members \<Rightarrow> (string list \<times> jval) list" where
  "leaves (JObj ms) = leaves_in ms"
| "leaves v = [([], v)]"
| "leaves_in [] = []"
| "leaves_in ((k, v) # ms) = map (\<lambda>(ks, x). (k # ks, x)) (leaves v) @ leaves_in ms"

text \<open>Documents that \<^verbatim>\<open>Flatten\<close> keeps apart: no dots in names, no empty objects, no empty arrays and no arrays
  that hold only objects and arrays.\<close>

fun plain :: "jval \<Rightarrow> bool"
  and plain_in :: "members \<Rightarrow> bool" where
  "plain (JObj ms) \<longleftrightarrow> ms \<noteq> [] \<and> plain_in ms"
| "plain (JArr vs) \<longleftrightarrow> \<not> list_all is_map_or_slice vs"
| "plain _ \<longleftrightarrow> True"
| "plain_in [] \<longleftrightarrow> True"
| "plain_in ((k, v) # ms) \<longleftrightarrow> CHR ''.'' \<notin> set k \<and> k \<notin> fst ` set ms \<and> plain v \<and> plain_in ms"

fun join_key :: "string \<Rightarrow> string list \<Rightarrow> string" where
  "join_key k [] = k"
| "join_key k (k' # ks) = k @ CHR ''.'' # join_key k' ks"

definition join :: "string list \<Rightarrow> string" where
  "join ks = join_key (hd ks) (tl ks)"

section \<open>Flattening\<close>

lemma join_key_append: "join_key (a @ k) ks = a @ join_key k ks"
  by (induction k ks rule: join_key.induct) simp_all

lemma leaves_in_nonempty: "(ks, x) \<in> set (leaves_in ms) \<Longrightarrow> ks \<noteq> []"
  by (induction ms) (auto)

lemma flatten_leaves:
  "plain v \<Longrightarrow> is_map_or_slice v \<Longrightarrow>
     flatten False fm v pre = foldl (\<lambda>m e. aput (join_key pre (fst e)) (snd e) m) fm (leaves v)"
  "plain_in ms \<Longrightarrow>
     flatten_members tp fm ms pre = foldl (\<lambda>m e. aput (join_key (enkey tp pre (hd (fst e))) (tl (fst e))) (snd e) m) fm (leaves_in ms)"
proof (induction v and ms arbitrary: fm pre and tp fm pre rule: leaves_leaves_in.induct)
  case (1 ms)
  have "join_key (enkey False pre (hd (fst e))) (tl (fst e)) = join_key pre (fst e)" if "e \<in> set (leaves_in ms)" for e
    using leaves_in_nonempty [of "fst e" "snd e" ms] that join_key_append [of "pre @ ''.''"]
    by (cases e; cases "fst e") (auto simp: enkey_def)
  with 1 show ?case by (auto intro: foldl_cong)
next
  case (4 k v ms)
  then show ?case by (cases "is_map_or_slice v") (auto simp: foldl_map case_prod_unfold is_map_or_slice.simps elim: is_map_or_slice.elims)
qed simp_all

lemma leaf_scalar [simp]: "(\<And>ms. v \<noteq> JObj ms) \<Longrightarrow> leaf v ks = (if ks = [] then Some v else None)"
  by (cases v; cases ks) auto

lemma leaves_leaf:
  "plain v \<Longrightarrow> (ks, x) \<in> set (leaves v) \<longleftrightarrow> leaf v ks = Some x"
  "plain_in ms \<Longrightarrow> (ks, x) \<in> set (leaves_in ms) \<longleftrightarrow> leaf (JObj ms) ks = Some x"
proof (induction v and ms arbitrary: ks x and ks x rule: leaves_leaves_in.induct)
  case 3
  show ?case by (cases ks) simp_all
next
  case (4 k v ms)
  show ?case
  proof (cases ks)
    case Nil
    with 4 show ?thesis by auto
  next
    case (Cons k' ks')
    have "map_of ms k = None" using "4.prems" by (simp add: map_of_eq_None_iff)
    then have none: "leaf (JObj ms) (k # ks') = None" by simp
    have "(k' # ks', x) \<in> (\<lambda>(ks, x). (k # ks, x)) ` set (leaves v) \<longleftrightarrow> k' = k \<and> leaf v ks' = Some x"
      using "4.IH"(1) [of ks' x] "4.prems" by force
    with "4.IH"(2) [of ks x] "4.prems" Cons none show ?thesis by (cases "k' = k") simp_all
  qed
qed auto

lemma leaf_prefix: "leaf v p = Some x \<Longrightarrow> leaf v (p @ r) = Some y \<Longrightarrow> r = []"
proof (induction v p rule: leaf.induct)
  case (1 ms k ks)
  then show ?case by (auto split: option.splits)
qed (auto split: if_splits)

definition name_ok :: "string \<Rightarrow> bool" where
  "name_ok k \<longleftrightarrow> CHR ''.'' \<notin> set k"

lemma leaves_names:
  "plain v \<Longrightarrow> (p, x) \<in> set (leaves v) \<Longrightarrow> list_all name_ok p \<and> (\<forall>ob. x \<noteq> JObj ob)"
  "plain_in ms \<Longrightarrow> (p, x) \<in> set (leaves_in ms) \<Longrightarrow> list_all name_ok p \<and> (\<forall>ob. x \<noteq> JObj ob) \<and> p \<noteq> [] \<and> hd p \<in> fst ` set ms"
proof (induction v and ms arbitrary: p x and p x rule: leaves_leaves_in.induct)
  case (4 k v ms)
  then consider q where "p = k # q" "(q, x) \<in> set (leaves v)" | "(p, x) \<in> set (leaves_in ms)" by auto
  then show ?case
  proof cases
    case 1
    with "4.IH"(1) [of q x] "4.prems"(1) show ?thesis by (simp add: name_ok_def)
  next
    case 2
    with "4.IH"(2) [of p x] "4.prems"(1) show ?thesis by simp
  qed
qed auto

lemma leaves_distinct:
  "plain v \<Longrightarrow> distinct (map fst (leaves v))"
  "plain_in ms \<Longrightarrow> distinct (map fst (leaves_in ms))"
proof (induction v and ms rule: leaves_leaves_in.induct)
  case (4 k v ms)
  have k: "map fst (map (\<lambda>(ks, x). (k # ks, x)) (leaves v)) = map (Cons k) (map fst (leaves v))" by auto
  have "p \<notin> fst ` set (leaves_in ms)" if "p \<in> set (map (Cons k) (map fst (leaves v)))" for p
    using that leaves_names(2) [of ms p] "4.prems" by fastforce
  with 4 show ?case unfolding leaves_in.simps map_append distinct_append k by (auto simp: distinct_map inj_on_def)
qed auto

lemma split_join_key: "list_all name_ok (k0 # ks) \<Longrightarrow> split_at (CHR ''.'') (join_key k0 ks) = k0 # ks"
  by (induction k0 ks rule: join_key.induct) (simp_all add: split_at_none split_at_append name_ok_def)

lemma split_join: "p \<noteq> [] \<Longrightarrow> list_all name_ok p \<Longrightarrow> split_at (CHR ''.'') (join p) = p"
  using split_join_key [of "hd p" "tl p"] by (cases p) (simp_all add: join_def)

lemma aput_new: "k \<notin> fst ` set m \<Longrightarrow> aput k v m = m @ [(k, v)]"
  by (induction m) auto

lemma foldl_aput: "distinct (map fst m @ map f es) \<Longrightarrow> foldl (\<lambda>m e. aput (f e) (g e) m) m es = m @ map (\<lambda>e. (f e, g e)) es"
  by (induction es arbitrary: m) (simp_all add: aput_new)

lemma Flatten_leaves:
  assumes "plain_in d"
  shows "Flatten d [] = map (\<lambda>(p, x). (join p, x)) (leaves_in d)" and "distinct (map fst (Flatten d []))"
proof -
  have "inj_on join (fst ` set (leaves_in d))"
    by (rule inj_on_inverseI [of _ "split_at (CHR ''.'')"]) (use leaves_names(2) [OF assms] split_join in auto)
  then have "distinct (map join (map fst (leaves_in d)))"
    unfolding distinct_map [of join] set_map using leaves_distinct(2) [OF assms] by blast
  then have d: "distinct (map (\<lambda>e. join (fst e)) (leaves_in d))" by (simp add: comp_def)
  from foldl_aput [of "[]" "\<lambda>e. join (fst e)" "leaves_in d" snd] d
  show f: "Flatten d [] = map (\<lambda>(p, x). (join p, x)) (leaves_in d)"
    by (simp add: Flatten_def flatten_leaves(2) [OF assms] enkey_def join_def case_prod_unfold)
  from d show "distinct (map fst (Flatten d []))" by (simp add: f comp_def case_prod_unfold)
qed

section \<open>Unflattening\<close>

text \<open>The maps that \<^verbatim>\<open>Unflatten\<close> builds hold no empty map.\<close>

fun dense :: "jval \<Rightarrow> bool"
  and dense_in :: "members \<Rightarrow> bool" where
  "dense (JObj ms) \<longleftrightarrow> ms \<noteq> [] \<and> dense_in ms"
| "dense _ \<longleftrightarrow> True"
| "dense_in [] \<longleftrightarrow> True"
| "dense_in ((k, v) # ms) \<longleftrightarrow> dense v \<and> dense_in ms"

lemma dense_in_map_of: "dense_in ms \<Longrightarrow> map_of ms k = Some v \<Longrightarrow> dense v"
  by (induction ms) (auto split: if_splits)

lemma dense_in_aput: "dense_in ms \<Longrightarrow> dense v \<Longrightarrow> dense_in (aput k v ms)"
  by (induction k v ms rule: aput.induct) auto

lemma dense_has_leaf: "dense v \<Longrightarrow> \<exists>q y. leaf v q = Some y"
  "ms \<noteq> [] \<Longrightarrow> dense_in ms \<Longrightarrow> \<exists>q y. leaf (JObj ms) q = Some y"
proof (induction v and ms rule: dense_dense_in.induct)
  case (4 k v ms)
  then obtain q y where "leaf v q = Some y" by auto
  then have "leaf (JObj ((k, v) # ms)) (k # q) = Some y" by simp
  then show ?case by blast
qed (auto intro: exI [of _ "[]"])

lemma leaf_aput:
  "leaf (JObj (aput k v m)) q = (case q of [] \<Rightarrow> None | k' # ks \<Rightarrow> if k' = k then leaf v ks else leaf (JObj m) q)"
  by (cases q) auto

text \<open>\<open>apart m p\<close>: no leaf lies above or below the path \<open>p\<close>.\<close>

definition apart :: "members \<Rightarrow> string list \<Rightarrow> bool" where
  "apart m p \<longleftrightarrow> (\<forall>q y. leaf (JObj m) q = Some y \<longrightarrow> \<not> prefix q p \<and> \<not> prefix p q)"

lemma unflatten_key_leaf:
  assumes "p \<noteq> []" and "\<And>ob. x \<noteq> JObj ob" and "dense_in m" and "apart m p"
  shows "\<exists>m'. unflatten_key p x m = Inr m' \<and> m' \<noteq> [] \<and> dense_in m' \<and> (\<forall>q. leaf (JObj m') q = (if q = p then Some x else leaf (JObj m) q))"
  using assms
proof (induction p x m rule: unflatten_key.induct)
  case (2 k x m)
  have dx: "dense x" using "2.prems"(2) by (cases x) auto
  have "map_of m k = None"
  proof (rule ccontr)
    assume "map_of m k \<noteq> None"
    then obtain v where v: "map_of m k = Some v" by blast
    then obtain q y where "leaf v q = Some y" using dense_has_leaf(1) [OF dense_in_map_of [OF "2.prems"(3)]] by blast
    with v "2.prems"(4) have "\<not> prefix [k] (k # q)" unfolding apart_def by (metis leaf.simps(1) option.simps(5))
    then show False by simp
  qed
  with 2 dx show ?case by (auto simp: leaf_aput dense_in_aput split: list.split)
next
  case (3 k k' ks x m)
  have step: ?case
    if IH: "\<exists>n. unflatten_key (k' # ks) x inner = Inr n \<and> n \<noteq> [] \<and> dense_in n \<and> (\<forall>q. leaf (JObj n) q = (if q = k' # ks then Some x else leaf (JObj inner) q))"
      and k: "map_of m k = None \<and> inner = [] \<or> map_of m k = Some (JObj inner)" for inner
  proof -
    from IH obtain n where n: "unflatten_key (k' # ks) x inner = Inr n" "n \<noteq> []" "dense_in n"
        "\<And>q. leaf (JObj n) q = (if q = k' # ks then Some x else leaf (JObj inner) q)" by blast
    have "unflatten_key (k # k' # ks) x m = Inr (aput k (JObj n) m)" using k n(1) by auto
    moreover have "leaf (JObj (aput k (JObj n) m)) q = (if q = k # k' # ks then Some x else leaf (JObj m) q)" for q
    proof (cases q)
      case (Cons a qs)
      have "leaf (JObj inner) qs = leaf (JObj m) (k # qs)" using k by (cases qs) auto
      with Cons show ?thesis by (simp add: leaf_aput n(4) del: leaf.simps(1))
    qed simp
    moreover have "dense_in (aput k (JObj n) m)" using n(2,3) "3.prems"(3) by (simp add: dense_in_aput)
    ultimately show ?thesis by (metis aput_nonempty)
  qed
  show ?case
  proof (cases "map_of m k")
    case None
    have "apart [] (k' # ks)" by (auto simp: apart_def elim: leaf.elims)
    with "3.IH"(1) [OF None] "3.prems" step [of "[]"] None show ?thesis by simp
  next
    case (Some v)
    show ?thesis
    proof (cases v)
      case (JObj inner)
      have "apart inner (k' # ks)"
        using "3.prems"(4) Some unfolding apart_def JObj by (metis Cons_prefix_Cons leaf.simps(1) option.simps(5))
      moreover have "dense_in inner" using dense_in_map_of [OF "3.prems"(3) Some] JObj by simp
      ultimately show ?thesis using "3.IH"(2) [OF Some JObj] "3.prems" step [of inner] Some JObj by simp
    qed (use Some "3.prems"(4) in \<open>auto simp: apart_def dest!: spec [of _ "[k]"]\<close>)
  qed
qed simp

lemma unflatten_loop_leaf:
  assumes "list_all (\<lambda>(p, x). p \<noteq> [] \<and> list_all name_ok p \<and> (\<forall>ob. x \<noteq> JObj ob)) L"
    and "\<And>p x q y. (p, x) \<in> set L \<Longrightarrow> (q, y) \<in> set L \<Longrightarrow> prefix p q \<Longrightarrow> p = q"
    and "distinct (map fst L)" and "dense_in m" and "\<And>p x. (p, x) \<in> set L \<Longrightarrow> apart m p"
  shows "\<exists>u. unflatten_loop (map (\<lambda>(p, x). (join p, x)) L) m = Inr u
    \<and> (\<forall>q. leaf (JObj u) q = (case map_of L q of Some x \<Rightarrow> Some x | None \<Rightarrow> leaf (JObj m) q))"
  using assms
proof (induction L arbitrary: m)
  case (Cons e L)
  obtain p x where e: "e = (p, x)" by (cases e)
  have px: "p \<noteq> []" "list_all name_ok p" "\<And>ob. x \<noteq> JObj ob" using Cons.prems(1) by (auto simp: e)
  from unflatten_key_leaf [OF px(1,3) Cons.prems(4)] Cons.prems(5) [of p x]
  obtain m' where m': "unflatten_key p x m = Inr m'" "dense_in m'" "\<And>q. leaf (JObj m') q = (if q = p then Some x else leaf (JObj m) q)"
    by (auto simp: e)
  have ap: "apart m' q" if "(q, y) \<in> set L" for q y
    using that Cons.prems(5) [of q y] Cons.prems(2) [of p x q y] Cons.prems(2) [of q y p x] Cons.prems(3)
    unfolding apart_def m'(3) e by (auto split: if_splits intro: rev_image_eqI)
  have pre: "p1 = p2" if "(p1, x1) \<in> set L" "(p2, x2) \<in> set L" "prefix p1 p2" for p1 x1 p2 x2
    using Cons.prems(2) that by (metis list.set_intros(2))
  have "\<exists>u. unflatten_loop (map (\<lambda>(p, x). (join p, x)) L) m' = Inr u
      \<and> (\<forall>q. leaf (JObj u) q = (case map_of L q of Some x \<Rightarrow> Some x | None \<Rightarrow> leaf (JObj m') q))"
    by (rule Cons.IH) (use pre ap m'(2) Cons.prems(1,3) in auto)
  then obtain u where u: "unflatten_loop (map (\<lambda>(p, x). (join p, x)) L) m' = Inr u"
      "\<And>q. leaf (JObj u) q = (case map_of L q of Some x \<Rightarrow> Some x | None \<Rightarrow> leaf (JObj m') q)" by blast
  have "map_of L p = None" using Cons.prems(3) by (auto simp: e map_of_eq_None_iff)
  with u m' split_join [OF px(1,2)] show ?case by (auto simp: e split: option.split)
qed simp


definition demo_doc :: members where
  "demo_doc = [(''a'', JNum 1), (''b'', JObj [(''c'', JStr ''x''), (''d'', JArr [JNum 2, JNull])])]"


end
