(* ===== verification/Mappings.thy ===== *)
theory Mappings
  imports Flatten
begin

text \<open>
  The mappings of an index (\<^verbatim>\<open>pkg/meta/mappings.go\<close>, \<^verbatim>\<open>Index.SetMappings\<close>) and the conversion of decoded JSON values
  to the type of a field (\<^verbatim>\<open>pkg/zutils/strconv.go\<close>, \<^verbatim>\<open>time.go\<close>, \<^verbatim>\<open>time_zone.go\<close>). Go's formatting and parsing of floating
  point numbers and of dates are arguments; the theorems hold for all such functions.
\<close>

section \<open>Properties\<close>

record prop_base =
  pb_Type :: string
  pb_Analyzer :: string
  pb_SearchAnalyzer :: string
  pb_Format :: string
  pb_TimeZone :: string
  pb_Index :: bool
  pb_Store :: bool
  pb_Sortable :: bool
  pb_Aggregatable :: bool
  pb_Highlightable :: bool
  pb_Dims :: int
  pb_M :: int
  pb_NBits :: int
  pb_VecIndexType :: string
  pb_StoreWithFloat16 :: bool

text \<open>A property holds properties, its sub-fields, so it is a datatype over its plain members.\<close>

datatype property = Property (base: prop_base) (Fields: "(string \<times> property) list")

type_synonym mappings = "(string \<times> property) list"

definition zero_base :: prop_base where
  "zero_base = \<lparr>pb_Type = [], pb_Analyzer = [], pb_SearchAnalyzer = [], pb_Format = [], pb_TimeZone = [], pb_Index = False,
     pb_Store = False, pb_Sortable = False, pb_Aggregatable = False, pb_Highlightable = False, pb_Dims = 0, pb_M = 0, pb_NBits = 0,
     pb_VecIndexType = [], pb_StoreWithFloat16 = False\<rparr>"

definition NewProperty :: "string \<Rightarrow> property" where
  "NewProperty tp =
     Property (zero_base\<lparr>pb_Type := tp, pb_Index := True, pb_Sortable := (tp \<noteq> ''text''), pb_Aggregatable := (tp \<noteq> ''text'')\<rparr>) []"

definition AddField :: "string \<Rightarrow> property \<Rightarrow> property \<Rightarrow> property" where
  "AddField field value p = Property (base p) (aput field (Property (base value) []) (Fields p))"

text \<open>A copy keeps neither the time zone nor the members of a vector field.\<close>

fun DeepClone :: "property \<Rightarrow> property"
  and clone_fields :: "(string \<times> property) list \<Rightarrow> (string \<times> property) list" where
  "DeepClone (Property b fs) =
     Property ((base (NewProperty (pb_Type b)))\<lparr>pb_Analyzer := pb_Analyzer b, pb_SearchAnalyzer := pb_SearchAnalyzer b, pb_Format := pb_Format b,
         pb_Index := pb_Index b, pb_Store := pb_Store b, pb_Sortable := pb_Sortable b, pb_Aggregatable := pb_Aggregatable b,
         pb_Highlightable := pb_Highlightable b\<rparr>)
       (clone_fields fs)"
| "clone_fields [] = []"
| "clone_fields ((k, v) # fs) = (k, DeepClone v) # clone_fields fs"

definition GetProperty :: "mappings \<Rightarrow> string \<Rightarrow> property \<times> bool" where
  "GetProperty m field = (case map_of m field of None \<Rightarrow> (Property zero_base [], False) | Some p \<Rightarrow> (p, True))"

definition ptype :: "property \<Rightarrow> string" where
  "ptype p = pb_Type (base p)"

definition TimeFieldName :: string where "TimeFieldName = ''@timestamp''"
definition IDFieldName :: string where "IDFieldName = ''@_id''"
definition ActionFieldName :: string where "ActionFieldName = ''@_action''"
definition ShardFieldName :: string where "ShardFieldName = ''@_shard''"
definition SourceFieldName :: string where "SourceFieldName = ''@_source''"

text \<open>The normalisation at the start of \<^verbatim>\<open>SetMappings\<close>.\<close>

definition set_base :: "(prop_base \<Rightarrow> prop_base) \<Rightarrow> property \<Rightarrow> property" where
  "set_base f p = Property (f (base p)) (Fields p)"

definition SetMappings :: "mappings \<Rightarrow> mappings" where
  "SetMappings m =
     (let m1 = map (\<lambda>(k, p). (k, if ptype p = ''text'' then p else set_base (\<lambda>b. b\<lparr>pb_Analyzer := [], pb_SearchAnalyzer := []\<rparr>) p)) m;
          m2 = aput ''_id'' (NewProperty ''keyword'') m1;
          t = (case map_of m2 TimeFieldName of None \<Rightarrow> NewProperty ''date'' | Some p \<Rightarrow> p)
      in aput TimeFieldName (set_base (\<lambda>b. b\<lparr>pb_Index := True, pb_Sortable := True, pb_Aggregatable := True\<rparr>) t) m2)"

section \<open>Values\<close>

datatype zone = UTC | Local | FixedZone string int | Location string

record go_std =
  gs_format_float :: "rat \<Rightarrow> string"
  gs_parse_float :: "string \<Rightarrow> rat option"
  gs_float64 :: "int \<Rightarrow> rat"
  gs_float32 :: "rat \<Rightarrow> rat"
  gs_sprint :: "jval \<Rightarrow> string"
  gs_parse_time :: "string \<Rightarrow> string \<Rightarrow> zone \<Rightarrow> int option"
  gs_location :: "string \<Rightarrow> bool"

definition FormatBool :: "bool \<Rightarrow> string" where
  "FormatBool b = (if b then ''true'' else ''false'')"

definition ParseBool :: "string \<Rightarrow> error + bool" where
  "ParseBool s =
     (if s \<in> {''1'', ''t'', ''T'', ''TRUE'', ''true'', ''True''} then Inr True
      else if s \<in> {''0'', ''f'', ''F'', ''FALSE'', ''false'', ''False''} then Inr False
      else Inl ''invalid syntax'')"

fun ToString :: "go_std \<Rightarrow> jval \<Rightarrow> error + string" where
  "ToString std (JStr s) = Inr s"
| "ToString std (JNum r) = Inr (gs_format_float std r)"
| "ToString std (JInt i) = Inr (format_int i)"
| "ToString std (JBool b) = Inr (FormatBool b)"
| "ToString std v = Inr (gs_sprint std v)"

fun ToFloat64 :: "go_std \<Rightarrow> jval \<Rightarrow> error + rat" where
  "ToFloat64 std (JNum r) = Inr r"
| "ToFloat64 std (JInt i) = Inr (gs_float64 std i)"
| "ToFloat64 std (JStr s) = (case gs_parse_float std s of None \<Rightarrow> Inl ''invalid syntax'' | Some r \<Rightarrow> Inr r)"
| "ToFloat64 std (JBool b) = Inr (if b then 1 else 0)"
| "ToFloat64 std v = Inl ''ToFloat64: unknown supported type''"

fun ToInt :: "jval \<Rightarrow> error + int" where
  "ToInt (JInt i) = Inr i"
| "ToInt (JNum r) = Inr (int_of_float r)"
| "ToInt (JStr s) = (case parse_int64 s of None \<Rightarrow> Inl ''invalid syntax'' | Some i \<Rightarrow> Inr i)"
| "ToInt (JBool b) = Inr (if b then 1 else 0)"
| "ToInt v = Inl ''ToInt: unknown supported type''"

fun ToBool :: "jval \<Rightarrow> error + bool" where
  "ToBool (JBool b) = Inr b"
| "ToBool (JStr s) = ParseBool s"
| "ToBool (JNum r) = Inr (r \<noteq> 0)"
| "ToBool (JInt i) = Inr (i \<noteq> 0)"
| "ToBool v = Inl ''ToInt: unknown supported type''"

section \<open>Times\<close>

text \<open>A time is its distance from 1970 in nanoseconds.\<close>

definition zero_time :: int where
  "zero_time = - 62135596800 * 10 ^ 9"

definition Unix :: "int \<Rightarrow> int" where
  "Unix n = (if n > 10 ^ 18 then n else if n > 10 ^ 15 then n * 10 ^ 3 else if n > 10 ^ 12 then n * 10 ^ 6 else n * 10 ^ 9)"

definition UnixNano :: "int \<Rightarrow> int" where
  "UnixNano t = sint (word_of_int t :: int64)"

definition is_space :: "char \<Rightarrow> bool" where
  "is_space c \<longleftrightarrow> of_char c \<in> {9, 10, 11, 12, 13, 32 :: nat}"

definition StringToInt :: "string \<Rightarrow> int" where
  "StringToInt s = (case parse_int64 (rev (dropWhile is_space (rev (dropWhile is_space s)))) of None \<Rightarrow> 0 | Some i \<Rightarrow> i)"

definition ToUpper :: "string \<Rightarrow> string" where
  "ToUpper s = map (\<lambda>c. if (97 :: nat) \<le> of_char c \<and> of_char c \<le> (122 :: nat) then char_of (of_char c - 32 :: nat) else c) s"

definition ParseTimeZone :: "go_std \<Rightarrow> string \<Rightarrow> error + zone" where
  "ParseTimeZone std name =
     (let ln = length name in
      if ln > 0 \<and> hd name \<in> {CHR ''+'', CHR ''-''}
      then let o1 = (if ln \<ge> 3 then 60 * 60 * StringToInt (take 2 (drop 1 name)) else 0);
               o2 = (if ln = 5 then o1 + 60 * StringToInt (take 2 (drop 3 name)) else o1);
               o3 = (if ln = 6 \<and> name ! 3 = CHR '':'' then o2 + 60 * StringToInt (take 2 (drop 4 name)) else o2)
           in Inr (FixedZone name (if hd name = CHR ''-'' then - o3 else o3))
      else if ToUpper name \<in> {[], ''UTC''} then Inr UTC
      else if ToUpper name = ''LOCAL'' then Inr Local
      else if gs_location std name then Inr (Location name) else Inl ''unknown time zone'')"

definition RFC3339 :: string where "RFC3339 = ''2006-01-02T15:04:05Z07:00''"

definition parse_unix :: "int \<Rightarrow> error + int" where
  "parse_unix n = (if Unix n = zero_time then Inl ''not a valid timestamp'' else Inr (Unix n))"

definition parse_text :: "go_std \<Rightarrow> string \<Rightarrow> string \<Rightarrow> string \<Rightarrow> error + int" where
  "parse_text std vStr format timeZone =
     (if vStr = [] then Inl ''time value is empty''
      else case (if timeZone \<noteq> [] then ParseTimeZone std timeZone else Inr UTC) of
          Inl e \<Rightarrow> Inl ''invalid time zone''
        | Inr zone \<Rightarrow>
            let timFormat = (if format \<noteq> [] then format else RFC3339) in
            if timFormat = ''epoch_millis''
            then (case ToInt (JStr vStr) of Inl e \<Rightarrow> Inl ''can't convert to int'' | Inr v \<Rightarrow> parse_unix v)
            else (case gs_parse_time std timFormat vStr zone of None \<Rightarrow> Inl ''parse err'' | Some t \<Rightarrow> Inr t))"

fun ParseTime :: "go_std \<Rightarrow> jval \<Rightarrow> string \<Rightarrow> string \<Rightarrow> error + int" where
  "ParseTime std (JNum r) format timeZone = (if int_of_float r \<noteq> 0 then parse_unix (int_of_float r) else Inl ''time value is empty'')"
| "ParseTime std (JInt i) format timeZone = (if i \<noteq> 0 then parse_unix i else Inl ''time value is empty'')"
| "ParseTime std (JStr s) format timeZone = parse_text std s format timeZone"
| "ParseTime std v format timeZone = Inl ''value type of time must be string / float64 / int64''"

end
