(* ===== verification/Documents.thy ===== *)
theory Documents
  imports Mappings
begin

text \<open>
  Documents on their way into the index, \<^verbatim>\<open>pkg/core/index_shards_document.go\<close>: the check of a document against
  the mappings, which turns it into an operation of the log and extends the mappings, and the later
  construction of the document for the index from the operation.
\<close>

section \<open>Properties from values\<close>

definition Index :: "string \<Rightarrow> char \<Rightarrow> int" where
  "Index s c = (if c \<in> set s then int (length (takeWhile (\<lambda>x. x \<noteq> c) s)) else - 1)"

definition detectTimeLayout :: "string \<Rightarrow> string" where
  "detectTimeLayout value =
     (if length value = 19 \<and> Index value (CHR '' '') = 10 then ''2006-01-02 15:04:05''
      else if length value = 19 \<and> Index value (CHR ''T'') = 10 then ''2006-01-02T15:04:05''
      else if length value = 25 \<and> Index value (CHR ''T'') = 10 then RFC3339
      else if length value = 29 \<and> Index value (CHR ''T'') = 10 \<and> Index value (CHR ''.'') = 19 then ''2006-01-02T15:04:05.999Z07:00''
      else [])"

definition isDateProperty :: "go_std \<Rightarrow> string \<Rightarrow> string \<times> bool" where
  "isDateProperty std value =
     (let layout = detectTimeLayout value in
      if layout = [] then ([], False) else (layout, gs_parse_time std layout value UTC \<noteq> None))"

text \<open>The property of a new field with a string value; \<open>kw\<close> is the option \<^verbatim>\<open>EnableTextKeywordMapping\<close>.\<close>

definition string_property :: "bool \<Rightarrow> go_std \<Rightarrow> string \<Rightarrow> string \<Rightarrow> mappings \<Rightarrow> mappings" where
  "string_property kw std key v m =
     (case isDateProperty std v of
        (layout, True) \<Rightarrow> aput key (set_base (\<lambda>b. b\<lparr>pb_Format := layout\<rparr>) (NewProperty ''date'')) m
      | (_, False) \<Rightarrow>
          if kw then aput key (AddField ''keyword'' (NewProperty ''keyword'') (NewProperty ''text'')) (aput (key @ ''.keyword'') (NewProperty ''keyword'') m)
          else aput key (NewProperty ''text'') m)"

fun value_property :: "bool \<Rightarrow> go_std \<Rightarrow> string \<Rightarrow> jval \<Rightarrow> mappings \<Rightarrow> mappings" where
  "value_property kw std key (JStr s) m = string_property kw std key s m"
| "value_property kw std key (JInt i) m = aput key (NewProperty ''numeric'') m"
| "value_property kw std key (JNum r) m = aput key (NewProperty ''numeric'') m"
| "value_property kw std key (JBool b) m = aput key (NewProperty ''bool'') m"
| "value_property kw std key (JArr (JStr s # vs)) m = string_property kw std key s m"
| "value_property kw std key (JArr (JNum r # vs)) m = aput key (NewProperty ''numeric'') m"
| "value_property kw std key (JArr (JBool b # vs)) m = aput key (NewProperty ''bool'') m"
| "value_property kw std key v m = m"

definition checkProperty :: "bool \<Rightarrow> go_std \<Rightarrow> mappings \<Rightarrow> string \<Rightarrow> jval \<Rightarrow> bool \<times> mappings" where
  "checkProperty kw std m key value =
     (let (prop, ok) = GetProperty m key in
      if ok \<and> \<not> (kw \<and> ptype prop = ''text'' \<and> \<not> snd (GetProperty m (key @ ''.keyword''))) then (False, m)
      else (True, value_property kw std key value m))"

section \<open>The check\<close>

text \<open>The value that \<^verbatim>\<open>checkField\<close> stores. A property of another type stores nil.\<close>

definition convert :: "go_std \<Rightarrow> property \<Rightarrow> jval \<Rightarrow> error + jval" where
  "convert std prop value =
     (if ptype prop \<in> {''text'', ''keyword''} then map_sum (\<lambda>_. ''can't convert to string'') JStr (ToString std value)
      else if ptype prop = ''numeric'' then map_sum (\<lambda>_. ''can't convert to int'') JNum (ToFloat64 std value)
      else if ptype prop = ''bool'' then map_sum (\<lambda>_. ''can't convert to boolean'') JBool (ToBool value)
      else if ptype prop \<in> {''date'', ''time''} then map_sum (\<lambda>_. ''parse err'') (\<lambda>_. value) (ParseTime std value (pb_Format (base prop)) (pb_TimeZone (base prop)))
      else Inr JNull)"

definition checkField :: "go_std \<Rightarrow> mappings \<Rightarrow> members \<Rightarrow> string \<Rightarrow> jval \<Rightarrow> nat \<Rightarrow> bool \<Rightarrow> error + members" where
  "checkField std m dat key value i array =
     (case convert std (fst (GetProperty m key)) value of
        Inl e \<Rightarrow> Inl e
      | Inr v \<Rightarrow>
          if array then (case map_of dat key of Some (JArr sub) \<Rightarrow> Inr (aput key (JArr (sub[i := v])) dat) | _ \<Rightarrow> Inr dat)
          else Inr (aput key v dat))"

fun check_array :: "go_std \<Rightarrow> mappings \<Rightarrow> string \<Rightarrow> nat \<Rightarrow> jval list \<Rightarrow> members \<Rightarrow> error + members" where
  "check_array std m key i [] flatDoc = Inr flatDoc"
| "check_array std m key i (v # vs) flatDoc =
     (case checkField std m flatDoc key v i True of Inl e \<Rightarrow> Inl e | Inr flatDoc' \<Rightarrow> check_array std m key (i + 1) vs flatDoc')"

fun check_vector :: "go_std \<Rightarrow> string \<Rightarrow> nat \<Rightarrow> jval list \<Rightarrow> members \<Rightarrow> error + members" where
  "check_vector std key i [] flatDoc = Inr flatDoc"
| "check_vector std key i (v # vs) flatDoc =
     (case ToFloat64 std v of
        Inl e \<Rightarrow> Inl ''invliad vector feild''
      | Inr num \<Rightarrow> check_vector std key (i + 1) vs
          (case map_of flatDoc key of Some (JArr sub) \<Rightarrow> aput key (JArr (sub[i := JNum num])) flatDoc | _ \<Rightarrow> flatDoc))"

text \<open>One field of the flat document; the result is the changed flat document and the document itself.\<close>

definition check_typed :: "go_std \<Rightarrow> mappings \<Rightarrow> string \<Rightarrow> jval \<Rightarrow> members \<Rightarrow> members \<Rightarrow> error + members \<times> members" where
  "check_typed std m key value flatDoc doc =
     (let (prop, ok) = GetProperty m key in
      if \<not> ok \<or> \<not> pb_Index (base prop) then Inr (flatDoc, doc)
      else if ptype prop = ''vector''
      then (case value of
              JArr vc \<Rightarrow>
                if int (length vc) \<noteq> pb_Dims (base prop) then Inl ''vector dims''
                else map_sum id (\<lambda>f. (f, adel key doc)) (check_vector std key 0 vc flatDoc)
            | _ \<Rightarrow> Inr (flatDoc, doc))
      else (case value of
              JArr vs \<Rightarrow> map_sum id (\<lambda>f. (f, doc)) (check_array std m key 0 vs flatDoc)
            | v \<Rightarrow> map_sum id (\<lambda>f. (f, doc)) (checkField std m flatDoc key v 0 False)))"

fun check_loop :: "bool \<Rightarrow> go_std \<Rightarrow> members \<Rightarrow> mappings \<Rightarrow> bool \<Rightarrow> members \<Rightarrow> members \<Rightarrow> (error + members \<times> members) \<times> mappings \<times> bool" where
  "check_loop kw std [] m upd flatDoc doc = (Inr (flatDoc, doc), m, upd)"
| "check_loop kw std ((key, value) # es) m upd flatDoc doc =
     (if value = JNull then check_loop kw std es m upd flatDoc doc
      else let (u, m') = checkProperty kw std m key value; upd' = (u \<or> upd) in
        case check_typed std m' key value flatDoc doc of
          Inl e \<Rightarrow> (Inl e, m', upd')
        | Inr (flatDoc', doc') \<Rightarrow> check_loop kw std es m' upd' flatDoc' doc')"

text \<open>The arrays of the flat document are those of the document, so what has been converted in them shows
  in the document too.\<close>

fun share :: "members \<Rightarrow> bool \<Rightarrow> jval \<Rightarrow> string \<Rightarrow> jval"
  and share_members :: "members \<Rightarrow> bool \<Rightarrow> members \<Rightarrow> string \<Rightarrow> members"
  and share_elems :: "members \<Rightarrow> bool \<Rightarrow> nat \<Rightarrow> jval list \<Rightarrow> string \<Rightarrow> jval list" where
  "share flat tp (JObj ms) pre = JObj (share_members flat tp ms pre)"
| "share flat tp (JArr vs) pre =
     (if list_all is_map_or_slice vs then JArr (share_elems flat tp 0 vs pre)
      else case map_of flat pre of Some (JArr ws) \<Rightarrow> JArr ws | _ \<Rightarrow> JArr vs)"
| "share flat tp v pre = v"
| "share_members flat tp [] pre = []"
| "share_members flat tp ((k, v) # ms) pre = (k, share flat False v (enkey tp pre k)) # share_members flat tp ms pre"
| "share_elems flat tp i [] pre = []"
| "share_elems flat tp i (v # vs) pre = share flat False v (enkey tp pre (format_nat i)) # share_elems flat tp (i + 1) vs pre"

definition CheckDocumentOperation :: "bool \<Rightarrow> go_std \<Rightarrow> (mappings \<Rightarrow> error option) \<Rightarrow> int \<Rightarrow> mappings \<Rightarrow> string \<Rightarrow> members \<Rightarrow> bool \<Rightarrow> int
    \<Rightarrow> (error + members) \<times> mappings" where
  "CheckDocumentOperation kw std store now m docID doc update shard =
     (let flatDoc = Flatten doc [] in
      case check_loop kw std flatDoc m False flatDoc doc of
        (Inl e, m1, _) \<Rightarrow> (Inl e, m1)
      | (Inr (flat, doc1), m1, upd) \<Rightarrow>
          let m2 = (if upd then SetMappings m1 else m1) in
          case (if upd then store m2 else None) of
            Some e \<Rightarrow> (Inl e, m2)
          | None \<Rightarrow>
              let prop = fst (GetProperty m2 TimeFieldName);
                  (time, doc2) = (case map_of flat TimeFieldName of
                     None \<Rightarrow> (Inr now, doc1)
                   | Some v \<Rightarrow> (ParseTime std v (pb_Format (base prop)) (pb_TimeZone (base prop)), adel TimeFieldName doc1))
              in case time of
                   Inl e \<Rightarrow> (Inl ''parse err'', m2)
                 | Inr t \<Rightarrow>
                     (Inr (aput SourceFieldName (JObj (share_members flat True doc2 []))
                       (aput TimeFieldName (JInt (UnixNano t))
                       (aput ShardFieldName (JInt shard)
                       (aput IDFieldName (JStr docID)
                       (aput ActionFieldName (JStr (if update then ''update'' else ''insert'')) flat))))), m2))"

section \<open>The document for the index\<close>

text \<open>A function returns, returns an error, panics, or ends the process (\<^verbatim>\<open>log.Fatal\<close>).\<close>

datatype 'a outcome = Ok 'a | Err error | Panic | Exit

fun each_outcome :: "('a \<Rightarrow> 'b list outcome) \<Rightarrow> 'a list \<Rightarrow> 'b list outcome" where
  "each_outcome f [] = Ok []"
| "each_outcome f (x # xs) =
     (case f x of
        Ok ys \<Rightarrow> (case each_outcome f xs of Ok zs \<Rightarrow> Ok (ys @ zs) | r \<Rightarrow> r)
      | r \<Rightarrow> r)"

lemma each_outcome_cong [fundef_cong]:
  "xs = ys \<Longrightarrow> (\<And>x. x \<in> set ys \<Longrightarrow> f x = g x) \<Longrightarrow> each_outcome f xs = each_outcome g ys"
  by (induction ys arbitrary: xs) (auto split: outcome.split)

datatype field_value = TextField string | NumericField rat | KeywordField string | DateTimeField int

record term_field =
  tf_name :: string
  tf_value :: field_value
  tf_store :: bool
  tf_highlight :: bool
  tf_sortable :: bool
  tf_aggregatable :: bool

text \<open>What the construction adds to the document: a field, which may be nil, or a vector beside it.\<close>

datatype part = PField "term_field option" | PVector string "rat list"

definition make_field :: "property \<Rightarrow> string \<Rightarrow> field_value \<Rightarrow> term_field" where
  "make_field prop key v =
     \<lparr>tf_name = key, tf_value = v, tf_store = (pb_Store (base prop) \<or> pb_Highlightable (base prop)), tf_highlight = pb_Highlightable (base prop),
      tf_sortable = pb_Sortable (base prop), tf_aggregatable = pb_Aggregatable (base prop)\<rparr>"

text \<open>The switch of \<^verbatim>\<open>buildField\<close>: \<open>Ok []\<close> is the early return for an empty string, \<open>Ok [None]\<close> a nil field. Its
  type assertions panic on a value of another type.\<close>

definition field_value :: "go_std \<Rightarrow> property \<Rightarrow> jval \<Rightarrow> field_value option list outcome" where
  "field_value std prop value =
     (if ptype prop = ''text'' then (case value of JStr v \<Rightarrow> Ok (if v = [] then [] else [Some (TextField v)]) | _ \<Rightarrow> Panic)
      else if ptype prop = ''numeric'' then (case value of JNum v \<Rightarrow> Ok [Some (NumericField v)] | _ \<Rightarrow> Panic)
      else if ptype prop = ''keyword'' then (case value of JStr v \<Rightarrow> Ok (if v = [] then [] else [Some (KeywordField v)]) | _ \<Rightarrow> Panic)
      else if ptype prop = ''bool'' then (case value of JBool v \<Rightarrow> Ok [Some (KeywordField (FormatBool v))] | _ \<Rightarrow> Panic)
      else if ptype prop \<in> {''date'', ''time''}
      then (case ParseTime std value (pb_Format (base prop)) (pb_TimeZone (base prop)) of Inl e \<Rightarrow> Err ''parse err'' | Inr t \<Rightarrow> Ok [Some (DateTimeField t)])
      else Ok [None])"

definition key_bound :: "mappings \<Rightarrow> nat" where
  "key_bound m = sum_list (map (\<lambda>e. length (fst e)) m)"

lemma key_bound: "map_of m k = Some p \<Longrightarrow> length k \<le> key_bound m"
  unfolding key_bound_def by (rule member_le_sum_list) (auto dest!: map_of_SomeD intro: rev_image_eqI)

lemma fields_mapped: "n \<in> set (map fst (Fields (fst (GetProperty m key)))) \<Longrightarrow> length key \<le> key_bound m"
  by (auto simp: GetProperty_def intro: key_bound split: option.splits)

function buildField :: "go_std \<Rightarrow> mappings \<Rightarrow> string \<Rightarrow> jval \<Rightarrow> part list outcome" where
  "buildField std m key value =
     (let prop = fst (GetProperty m key); b = base prop in
      case field_value std prop value of
        Ok [] \<Rightarrow> Ok []
      | Ok (None # _) \<Rightarrow>
          if pb_Store b \<or> pb_Highlightable b \<or> pb_Sortable b \<or> pb_Aggregatable b then Panic
          else (case each_outcome (\<lambda>n. buildField std m (key @ ''.'' @ n) value) (map fst (Fields prop)) of
                  Ok ps \<Rightarrow> Ok (PField None # ps) | r \<Rightarrow> r)
      | Ok (Some v # _) \<Rightarrow>
          (case each_outcome (\<lambda>n. buildField std m (key @ ''.'' @ n) value) (map fst (Fields prop)) of
             Ok ps \<Rightarrow> Ok (PField (Some (make_field prop key v)) # ps) | r \<Rightarrow> r)
      | Err e \<Rightarrow> Err e
      | Panic \<Rightarrow> Panic
      | Exit \<Rightarrow> Exit)"
  by pat_completeness auto

termination buildField
  by (relation "measure (\<lambda>(std, m, key, value). Suc (key_bound m) - length key)")
    (auto simp del: set_map intro!: diff_less_mono2 le_imp_less_Suc dest!: fields_mapped)

declare buildField.simps [simp del]

fun vector_of :: "go_std \<Rightarrow> jval list \<Rightarrow> rat list option" where
  "vector_of std [] = Some []"
| "vector_of std (JNum f64 # vs) = map_option (\<lambda>ws. gs_float32 std f64 # ws) (vector_of std vs)"
| "vector_of std (_ # vs) = None"

definition build_key :: "go_std \<Rightarrow> mappings \<Rightarrow> string \<Rightarrow> jval \<Rightarrow> part list outcome" where
  "build_key std m key value =
     (if value = JNull \<or> key = TimeFieldName \<or> key = SourceFieldName then Ok []
      else let (prop, ok) = GetProperty m key in
        if \<not> ok \<or> \<not> pb_Index (base prop) then Ok []
        else if ptype prop = ''vector''
        then if pb_Dims (base prop) < 0 then Panic
             else (case value of
                     JArr array \<Rightarrow>
                       if int (length array) \<noteq> pb_Dims (base prop) then Exit
                       else (case vector_of std array of None \<Rightarrow> Exit | Some vector \<Rightarrow> Ok [PVector key vector])
                   | _ \<Rightarrow> Exit)
        else (case value of
                JArr vs \<Rightarrow> each_outcome (buildField std m key) vs
              | v \<Rightarrow> buildField std m key v))"

record bluge_doc =
  bd_id :: string
  bd_parts :: "part list"
  bd_source :: jval
  bd_index :: string
  bd_timestamp :: int

definition BuildBlugeDocumentFromJSON :: "go_std \<Rightarrow> string \<Rightarrow> int \<Rightarrow> mappings \<Rightarrow> string \<Rightarrow> members \<Rightarrow> bluge_doc outcome" where
  "BuildBlugeDocumentFromJSON std indexName now m docID doc =
     (let doc1 = adel ShardFieldName (adel IDFieldName (adel ActionFieldName doc)) in
      case each_outcome (\<lambda>(key, value). build_key std m key value) doc1 of
        Err e \<Rightarrow> Err e | Panic \<Rightarrow> Panic | Exit \<Rightarrow> Exit
      | Ok parts \<Rightarrow>
          (case (case map_of doc1 TimeFieldName of
                   None \<Rightarrow> Inr now
                 | Some (JNum x) \<Rightarrow> Inr (int_of_float x)
                 | Some (JInt x) \<Rightarrow> Inr x
                 | Some _ \<Rightarrow> Inl ''invalid timestamp data type'') of
             Inl e \<Rightarrow> Err e
           | Inr t \<Rightarrow>
               let doc2 = adel TimeFieldName doc1;
                   source = (case map_of doc2 SourceFieldName of
                       Some v \<Rightarrow> if v \<noteq> JNull then v else JObj (adel SourceFieldName doc2)
                     | None \<Rightarrow> JObj doc2)
               in Ok \<lparr>bd_id = docID, bd_parts = parts, bd_source = source, bd_index = indexName, bd_timestamp = UnixNano t\<rparr>))"

section \<open>Checked documents can be built\<close>

definition str_type :: "property \<Rightarrow> bool" where
  "str_type p \<longleftrightarrow> ptype p \<in> {''text'', ''keyword''}"

text \<open>Mappings whose indexed fields have one of the known types and whose sub-fields are strings inside
  strings and have mappings of their own.\<close>

definition wf_property :: "mappings \<Rightarrow> string \<Rightarrow> property \<Rightarrow> bool" where
  "wf_property m key p \<longleftrightarrow>
     ptype p \<in> {''text'', ''keyword'', ''numeric'', ''bool'', ''date'', ''time'', ''vector''}
     \<and> (ptype p = ''vector'' \<longrightarrow> 0 \<le> pb_Dims (base p))
     \<and> (\<forall>n\<in>set (map fst (Fields p)). str_type p \<and> (\<exists>q. map_of m (key @ ''.'' @ n) = Some q \<and> str_type q))"

definition wf_mappings :: "mappings \<Rightarrow> bool" where
  "wf_mappings m \<longleftrightarrow> (\<forall>key p. map_of m key = Some p \<longrightarrow> wf_property m key p)"

text \<open>A value that fits a property.\<close>

definition fits :: "go_std \<Rightarrow> property \<Rightarrow> jval \<Rightarrow> bool" where
  "fits std p v \<longleftrightarrow>
     (if str_type p then (\<exists>s. v = JStr s)
      else if ptype p = ''numeric'' then (\<exists>r. v = JNum r)
      else if ptype p = ''bool'' then (\<exists>b. v = JBool b)
      else if ptype p \<in> {''date'', ''time''} then (\<exists>t. ParseTime std v (pb_Format (base p)) (pb_TimeZone (base p)) = Inr t)
      else False)"

lemma convert_fits: "convert std p v = Inr w \<Longrightarrow> ptype p \<in> {''text'', ''keyword'', ''numeric'', ''bool'', ''date'', ''time''} \<Longrightarrow> fits std p w"
  by (auto simp: convert_def fits_def str_type_def map_sum_def split: sum.splits if_splits)

definition no_nil :: "part list \<Rightarrow> bool" where
  "no_nil ps \<longleftrightarrow> PField None \<notin> set ps"

lemma each_outcome_ok:
  assumes "\<And>x. x \<in> set xs \<Longrightarrow> \<exists>ps. f x = Ok ps \<and> no_nil ps"
  shows "\<exists>ps. each_outcome f xs = Ok ps \<and> no_nil ps"
  using assms
proof (induction xs)
  case (Cons x xs)
  then obtain ps qs where "f x = Ok ps" "no_nil ps" "each_outcome f xs = Ok qs" "no_nil qs" by fastforce
  then show ?case by (auto simp: no_nil_def)
qed (simp add: no_nil_def)

lemma fits_field_value:
  assumes "fits std p v"
  shows "field_value std p v = Ok [] \<or> (\<exists>x. field_value std p v = Ok [Some x])"
  using assms by (auto simp: fits_def field_value_def str_type_def split: if_splits)

lemma buildField_ok:
  assumes "wf_mappings m" and "map_of m key = Some p" and "fits std p v"
  shows "\<exists>ps. buildField std m key v = Ok ps \<and> no_nil ps"
  using assms
proof (induction std m key v arbitrary: p rule: buildField.induct)
  case (1 std m key v)
  have p: "fst (GetProperty m key) = p" using "1.prems"(2) by (simp add: GetProperty_def)
  from fits_field_value [OF "1.prems"(3)] consider "field_value std p v = Ok []" | x where "field_value std p v = Ok [Some x]" by blast
  then show ?case
  proof cases
    case 1
    then show ?thesis by (subst buildField.simps) (simp add: p Let_def no_nil_def)
  next
    case (2 x)
    have "\<exists>ps. each_outcome (\<lambda>n. buildField std m (key @ ''.'' @ n) v) (map fst (Fields p)) = Ok ps \<and> no_nil ps"
    proof (rule each_outcome_ok)
      fix n assume n: "n \<in> set (map fst (Fields p))"
      with "1.prems"(1,2) obtain q where q: "str_type p" "map_of m (key @ ''.'' @ n) = Some q" "str_type q"
        unfolding wf_mappings_def wf_property_def by blast
      with "1.prems"(3) have "fits std q v" by (simp add: fits_def)
      from "1.IH"(2) [OF refl refl _ refl refl _ "1.prems"(1) q(2) this] n 2
      show "\<exists>ps. buildField std m (key @ ''.'' @ n) v = Ok ps \<and> no_nil ps" by (simp add: p)
    qed
    then obtain ps where "each_outcome (\<lambda>n. buildField std m (key @ ''.'' @ n) v) (map fst (Fields p)) = Ok ps" "no_nil ps" by blast
    with 2 show ?thesis by (subst buildField.simps) (simp add: p Let_def no_nil_def)
  qed
qed

text \<open>A value of the flat document that has passed the check.\<close>

definition typed :: "go_std \<Rightarrow> property option \<Rightarrow> jval \<Rightarrow> bool" where
  "typed std prop v \<longleftrightarrow>
     (case prop of
        None \<Rightarrow> True
      | Some p \<Rightarrow>
          v = JNull \<or> \<not> pb_Index (base p)
          \<or> (if ptype p = ''vector'' then (\<forall>vs. v = JArr vs \<longrightarrow> int (length vs) = pb_Dims (base p) \<and> vector_of std vs \<noteq> None)
             else (case v of JArr vs \<Rightarrow> \<forall>w\<in>set vs. fits std p w | _ \<Rightarrow> fits std p v)))"

lemma distinct_flatten:
  "distinct (map fst fm) \<Longrightarrow> distinct (map fst (flatten tp fm v pre))"
  "distinct (map fst fm) \<Longrightarrow> distinct (map fst (flatten_members tp fm ms pre))"
  "distinct (map fst fm) \<Longrightarrow> distinct (map fst (flatten_elems tp fm i vs pre))"
  by (induction tp fm v pre and tp fm ms pre and tp fm i vs pre rule: flatten_flatten_members_flatten_elems.induct) (simp_all)

lemma aput_same: "map_of m k = Some v \<Longrightarrow> aput k v m = m"
  by (induction m) (auto split: if_splits)

lemma aput_aput [simp]: "aput k v (aput k w m) = aput k v m"
  by (induction m) auto

lemma check_array_result:
  assumes "check_array std m key (length old) vs flat = Inr flat'" and "map_of flat key = Some (JArr (old @ vs))"
  shows "\<exists>ws. flat' = aput key (JArr (old @ ws)) flat \<and> list_all2 (\<lambda>v w. convert std (fst (GetProperty m key)) v = Inr w) vs ws"
  using assms
proof (induction vs arbitrary: old flat)
  case (Cons v vs)
  let ?c = "convert std (fst (GetProperty m key)) v"
  from Cons.prems obtain w where w: "?c = Inr w" by (cases ?c) (auto simp: checkField_def)
  let ?flat = "aput key (JArr ((old @ [w]) @ vs)) flat"
  have "check_array std m key (length (old @ [w])) vs ?flat = Inr flat'"
    using Cons.prems w by (simp add: checkField_def list_update_append)
  from Cons.IH [OF this] obtain ws where "flat' = aput key (JArr ((old @ [w]) @ ws)) ?flat"
      "list_all2 (\<lambda>v w. convert std (fst (GetProperty m key)) v = Inr w) vs ws" by auto
  with w show ?case by (intro exI [of _ "w # ws"]) simp
qed (simp add: aput_same)

lemma check_vector_result:
  assumes "check_vector std key (length old) vs flat = Inr flat'" and "map_of flat key = Some (JArr (old @ vs))"
  shows "\<exists>ws. flat' = aput key (JArr (old @ ws)) flat \<and> length ws = length vs \<and> vector_of std ws \<noteq> None"
  using assms
proof (induction vs arbitrary: old flat)
  case (Cons v vs)
  from Cons.prems obtain r where r: "ToFloat64 std v = Inr r" by (cases "ToFloat64 std v") auto
  let ?flat = "aput key (JArr ((old @ [JNum r]) @ vs)) flat"
  have "check_vector std key (length (old @ [JNum r])) vs ?flat = Inr flat'"
    using Cons.prems r by (simp add: list_update_append)
  from Cons.IH [OF this] obtain ws where "flat' = aput key (JArr ((old @ [JNum r]) @ ws)) ?flat" "length ws = length vs" "vector_of std ws \<noteq> None" by auto
  then show ?case by (intro exI [of _ "JNum r # ws"]) simp
qed (simp add: aput_same)

lemma check_typed_result:
  assumes "check_typed std m key v flat doc = Inr (flat', doc')" and "wf_mappings m" and "map_of flat key = Some v" and "v \<noteq> JNull"
  shows "\<exists>w. flat' = aput key w flat \<and> typed std (map_of m key) w \<and> (\<forall>vs. v = JArr vs \<longrightarrow> (\<exists>ws. w = JArr ws))"
proof (cases "map_of m key")
  case None
  with assms(1,3) show ?thesis by (intro exI [of _ v]) (auto simp: check_typed_def GetProperty_def typed_def aput_same)
next
  case (Some p)
  have p: "GetProperty m key = (p, True)" using Some by (simp add: GetProperty_def)
  have known: "ptype p \<noteq> ''vector'' \<Longrightarrow> ptype p \<in> {''text'', ''keyword'', ''numeric'', ''bool'', ''date'', ''time''}"
    using assms(2) Some unfolding wf_mappings_def wf_property_def by blast
  consider "\<not> pb_Index (base p) \<or> ptype p = ''vector'' \<and> (\<forall>vs. v \<noteq> JArr vs)"
    | vs where "pb_Index (base p)" "ptype p = ''vector''" "v = JArr vs"
    | vs where "pb_Index (base p)" "ptype p \<noteq> ''vector''" "v = JArr vs"
    | "pb_Index (base p)" "ptype p \<noteq> ''vector''" "\<forall>vs. v \<noteq> JArr vs" by blast
  then show ?thesis
  proof cases
    case 1
    with assms(1,3) show ?thesis
      by (intro exI [of _ v]) (auto simp: check_typed_def p Some typed_def aput_same split: jval.splits if_splits)
  next
    case 2
    with assms(1) obtain f where f: "check_vector std key (length ([] :: jval list)) vs flat = Inr f" "flat' = f" "int (length vs) = pb_Dims (base p)"
      by (auto simp: check_typed_def p map_sum_def split: if_splits sum.splits)
    from check_vector_result [OF f(1)] assms(3) 2(3) obtain ws where "f = aput key (JArr ws) flat" "length ws = length vs" "vector_of std ws \<noteq> None" by auto
    with f 2 show ?thesis by (intro exI [of _ "JArr ws"]) (auto simp: typed_def Some)
  next
    case 3
    with assms(1) obtain f where f: "check_array std m key (length ([] :: jval list)) vs flat = Inr f" "flat' = f"
      by (auto simp: check_typed_def p map_sum_def split: sum.splits)
    from check_array_result [OF f(1)] assms(3) 3(3) obtain ws where ws: "f = aput key (JArr ws) flat" "list_all2 (\<lambda>v w. convert std p v = Inr w) vs ws"
      by (auto simp: p)
    have "fits std p w" if "w \<in> set ws" for w
    proof -
      from ws(2) that obtain u where "convert std p u = Inr w" by (auto simp: list_all2_conv_all_nth in_set_conv_nth)
      from convert_fits [OF this known [OF 3(2)]] show ?thesis .
    qed
    with f ws(1) 3 show ?thesis by (intro exI [of _ "JArr ws"]) (auto simp: typed_def Some)
  next
    case 4
    with assms(1) obtain w where w: "convert std p v = Inr w" "flat' = aput key w flat"
      by (auto simp: check_typed_def p checkField_def map_sum_def split: jval.splits sum.splits)
    from convert_fits [OF w(1) known [OF 4(2)]] have "fits std p w" .
    moreover have "\<forall>vs. w \<noteq> JArr vs" using w(1) 4(3) by (auto simp: convert_def map_sum_def split: sum.splits if_splits)
    ultimately have "typed std (Some p) w" using 4 by (cases w) (auto simp: typed_def)
    with w 4 show ?thesis by (auto simp: Some)
  qed
qed

text \<open>Mappings only grow in a check, and new properties are no vectors.\<close>

definition grown :: "mappings \<Rightarrow> mappings \<Rightarrow> string set \<Rightarrow> bool" where
  "grown m m' ks \<longleftrightarrow> (\<forall>k. map_of m' k = map_of m k \<or> k \<in> ks \<and> map_of m k = None \<and> (\<exists>p. map_of m' k = Some p \<and> ptype p \<noteq> ''vector''))"

lemma wf_property_mono:
  assumes "wf_property m k q" and "\<And>k' q'. map_of m k' = Some q' \<Longrightarrow> map_of m' k' = Some q'"
  shows "wf_property m' k q"
  using assms unfolding wf_property_def by blast

lemma wf_new_property:
  assumes "wf_mappings m" and "map_of m key = None" and "Fields p = []" and "ptype p \<in> {''text'', ''keyword'', ''numeric'', ''bool'', ''date''}"
  shows "wf_mappings (aput key p m)"
  unfolding wf_mappings_def
proof (intro allI impI)
  fix k q assume q: "map_of (aput key p m) k = Some q"
  show "wf_property (aput key p m) k q"
  proof (cases "k = key")
    case True
    with q assms(3,4) show ?thesis by (auto simp: wf_property_def)
  next
    case False
    with q assms(1) have "wf_property m k q" by (simp add: wf_mappings_def)
    moreover have "\<And>k' q'. map_of m k' = Some q' \<Longrightarrow> map_of (aput key p m) k' = Some q'" using assms(2) by auto
    ultimately show ?thesis by (rule wf_property_mono)
  qed
qed

lemma NewProperty_simps [simp]:
  "Fields (NewProperty t) = []" "ptype (NewProperty t) = t" "Fields (set_base f p) = Fields p" "base (set_base f p) = f (base p)"
  by (simp_all add: NewProperty_def ptype_def set_base_def)

definition simple_prop :: "property \<Rightarrow> bool" where
  "simple_prop p \<longleftrightarrow> Fields p = [] \<and> ptype p \<in> {''text'', ''keyword'', ''numeric'', ''bool'', ''date''}"

lemma simple_NewProperty:
  "simple_prop (NewProperty ''text'')" "simple_prop (NewProperty ''numeric'')" "simple_prop (NewProperty ''bool'')"
  "simple_prop (set_base (\<lambda>b. b\<lparr>pb_Format := l\<rparr>) (NewProperty ''date''))"
  by (simp_all add: simple_prop_def ptype_def NewProperty_def set_base_def)

lemma string_property_new: "\<exists>p. string_property False std key s m = aput key p m \<and> simple_prop p"
  unfolding string_property_def by (auto intro: simple_NewProperty split: prod.split bool.split)

lemma value_property_new:
  "value_property False std key v m = m \<or> (\<exists>p. value_property False std key v m = aput key p m \<and> simple_prop p)"
proof (cases v)
  case (JArr vs)
  then show ?thesis
  proof (cases vs)
    case (Cons w ws)
    with JArr show ?thesis using string_property_new [of std key _ m] simple_NewProperty by (cases w) auto
  qed simp
qed (use string_property_new [of std key _ m] simple_NewProperty in auto)

lemma checkProperty_wf:
  assumes "checkProperty False std m key v = (u, m')" and "wf_mappings m"
  shows "wf_mappings m'" and "grown m m' {key}"
proof -
  consider "m' = m" | p where "map_of m key = None" "m' = aput key p m" "simple_prop p"
    using assms(1) value_property_new [of std key v m] by (auto simp: checkProperty_def GetProperty_def split: if_splits option.splits prod.splits)
  then have "wf_mappings m' \<and> grown m m' {key}"
  proof cases
    case 2
    from 2(3) have "Fields p = []" "ptype p \<in> {''text'', ''keyword'', ''numeric'', ''bool'', ''date''}" "ptype p \<noteq> ''vector''"
      unfolding simple_prop_def by auto
    with wf_new_property [OF assms(2) 2(1)] 2(1,2) show ?thesis by (simp add: grown_def)
  qed (simp add: assms(2) grown_def)
  then show "wf_mappings m'" "grown m m' {key}" by simp_all
qed

lemma grown_trans: "grown m m' ks \<Longrightarrow> grown m' m'' ks' \<Longrightarrow> grown m m'' (ks \<union> ks')"
  unfolding grown_def by (metis UnCI)

definition kept :: "go_std \<Rightarrow> mappings \<Rightarrow> jval \<Rightarrow> string \<Rightarrow> members \<Rightarrow> bool" where
  "kept std m v k flat \<longleftrightarrow> (\<exists>w. map_of flat k = Some w \<and> typed std (map_of m k) w \<and> (\<forall>vs. v = JArr vs \<longrightarrow> (\<exists>ws. w = JArr ws)) \<and> (v = JNull \<longrightarrow> w = JNull))"

definition checked :: "go_std \<Rightarrow> members \<Rightarrow> mappings \<Rightarrow> mappings \<Rightarrow> members \<Rightarrow> members \<Rightarrow> bool" where
  "checked std es m m' flat flat' \<longleftrightarrow> wf_mappings m' \<and> grown m m' (fst ` set es) \<and> (\<forall>k. k \<notin> fst ` set es \<longrightarrow> map_of flat' k = map_of flat k)
     \<and> (\<forall>k v. (k, v) \<in> set es \<longrightarrow> kept std m' v k flat') \<and> map fst flat' = map fst flat
     \<and> (\<forall>k s. (k, JStr s) \<in> set es \<longrightarrow> map_of m k = None \<longrightarrow> (\<exists>s. map_of flat' k = Some (JStr s)))"

lemma check_new_string:
  assumes "checkProperty False std m key (JStr s) = (u, m1)" and "map_of m key = None" and "check_typed std m1 key (JStr s) flat doc = Inr (flat1, doc1)"
  shows "\<exists>s. map_of flat1 key = Some (JStr s)"
proof -
  have "m1 = string_property False std key s m" using assms(1,2) by (simp add: checkProperty_def GetProperty_def)
  then have "\<exists>p. map_of m1 key = Some p \<and> ptype p \<in> {''text'', ''date''} \<and> pb_Index (base p)"
    by (auto simp: string_property_def ptype_def NewProperty_def set_base_def split: prod.split bool.split)
  then obtain p where p: "GetProperty m1 key = (p, True)" "ptype p \<in> {''text'', ''date''}" "pb_Index (base p)" by (auto simp: GetProperty_def)
  with assms(3) obtain w where w: "convert std p (JStr s) = Inr w" "flat1 = aput key w flat"
    by (auto simp: check_typed_def checkField_def map_sum_def split: sum.splits)
  from w(1) p(2) have "\<exists>s. w = JStr s" by (auto simp: convert_def map_sum_def split: sum.splits)
  with w(2) show ?thesis by auto
qed

lemma keys_aput_old: "map_of m k \<noteq> None \<Longrightarrow> map fst (aput k v m) = map fst m"
  by (induction m) auto

lemma check_loop_result:
  assumes "check_loop False std es m upd flat doc = (Inr (flat', doc'), m', upd')" and "wf_mappings m"
    and "distinct (map fst es)" and "\<And>k v. (k, v) \<in> set es \<Longrightarrow> map_of flat k = Some v"
  shows "checked std es m m' flat flat'"
  using assms
proof (induction es arbitrary: m upd flat doc)
  case (Cons e es)
  obtain key v where e: "e = (key, v)" by (cases e)
  have key: "map_of flat key = Some v" "key \<notin> fst ` set es" using Cons.prems(3,4) by (auto simp: e)
  show ?case
  proof (cases "v = JNull")
    case True
    have "checked std es m m' flat flat'"
      by (rule Cons.IH) (use Cons.prems True in \<open>auto simp: e\<close>)
    moreover have "kept std m' v key flat'" if "map_of flat' key = map_of flat key"
      using that key(1) True by (auto simp: kept_def typed_def split: option.split)
    ultimately show ?thesis using key(2) True unfolding checked_def grown_def by (auto simp: e)
  next
    case False
    obtain u m1 where m1: "checkProperty False std m key v = (u, m1)" by (cases "checkProperty False std m key v")
    from Cons.prems(1) False m1 obtain flat1 doc1 where f1: "check_typed std m1 key v flat doc = Inr (flat1, doc1)"
        "check_loop False std es m1 (u \<or> upd) flat1 doc1 = (Inr (flat', doc'), m', upd')"
      by (auto simp: e Let_def split: sum.splits prod.splits)
    note wf1 = checkProperty_wf [OF m1 Cons.prems(2)]
    from check_typed_result [OF f1(1) wf1(1) key(1) False] obtain w where
        w: "flat1 = aput key w flat" "typed std (map_of m1 key) w" "\<forall>vs. v = JArr vs \<longrightarrow> (\<exists>ws. w = JArr ws)" by blast
    have IH: "checked std es m1 m' flat1 flat'"
      by (rule Cons.IH [OF f1(2) wf1(1)]) (use Cons.prems(3,4) key(2) in \<open>auto simp: e w(1) intro: rev_image_eqI\<close>)
    then have "map_of m' key = map_of m1 key" "map_of flat' key = Some w" using key(2) by (auto simp: checked_def grown_def w(1))
    with w(2,3) False have "kept std m' v key flat'" by (simp add: kept_def)
    moreover have "grown m m' (fst ` set (e # es))" using grown_trans [OF wf1(2)] IH by (simp add: checked_def e)
    moreover have "map fst flat1 = map fst flat" using key(1) by (simp add: w(1) keys_aput_old)
    moreover have "map_of m1 k = None" if "map_of m k = None" "k \<noteq> key" for k using wf1(2) that unfolding grown_def by (metis singletonD)
    then have "\<exists>s. map_of flat' k = Some (JStr s)" if "(k, JStr s) \<in> set es" "map_of m k = None" for k s
      using IH that key(2) unfolding checked_def by (metis fst_conv imageI)
    moreover have "\<exists>s. map_of flat' key = Some (JStr s)" if "v = JStr s" "map_of m key = None" for s
      using check_new_string [OF m1 [unfolded that(1)] that(2) f1(1) [unfolded that(1)]] \<open>map_of flat' key = Some w\<close> by (simp add: w(1))
    ultimately show ?thesis using IH by (auto simp: checked_def e w(1))
  qed
qed (simp add: checked_def grown_def)

text \<open>\<^verbatim>\<open>SetMappings\<close> changes nothing that the types depend on, once the fields it fixes are there.\<close>

definition same_kind :: "property \<Rightarrow> property \<Rightarrow> bool" where
  "same_kind p q \<longleftrightarrow> ptype p = ptype q \<and> Fields p = Fields q \<and> pb_Index (base p) = pb_Index (base q) \<and> pb_Dims (base p) = pb_Dims (base q)
     \<and> pb_Format (base p) = pb_Format (base q) \<and> pb_TimeZone (base p) = pb_TimeZone (base q)"

definition id_set :: "mappings \<Rightarrow> mappings" where
  "id_set m = aput ''_id'' (NewProperty ''keyword'') m"

definition time_set :: "mappings \<Rightarrow> bool" where
  "time_set m \<longleftrightarrow> (\<exists>t. map_of m TimeFieldName = Some t \<and> pb_Index (base t))"

lemma same_kind_refl [simp]: "same_kind p p"
  by (simp add: same_kind_def)

lemma SetMappings_kind:
  assumes "time_set m"
  shows "rel_option same_kind (map_of (id_set m) k) (map_of (SetMappings m) k)"
proof -
  let ?f = "\<lambda>p. if ptype p = ''text'' then p else set_base (\<lambda>b. b\<lparr>pb_Analyzer := [], pb_SearchAnalyzer := []\<rparr>) p"
  have f: "same_kind p (?f p)" for p by (simp add: same_kind_def) (simp add: ptype_def)
  have m: "map_of (map (\<lambda>(k, p). (k, ?f p)) m) = map_option ?f \<circ> map_of m" by (rule map_of_map)
  obtain t where t: "map_of m TimeFieldName = Some t" "pb_Index (base t)" using assms by (auto simp: time_set_def)
  have neq: "TimeFieldName \<noteq> ''_id''" by (simp add: TimeFieldName_def)
  have "same_kind t (set_base (\<lambda>b. b\<lparr>pb_Index := True, pb_Sortable := True, pb_Aggregatable := True\<rparr>) (?f t))"
    using f [of t] t(2) by (auto simp: same_kind_def ptype_def)
  with t neq f show ?thesis
    unfolding SetMappings_def Let_def id_set_def
    by (cases "k = TimeFieldName"; cases "k = ''_id''"; cases "map_of m k") (simp_all add: m del: map_of_map, auto split: if_splits)
qed

lemma wf_id_set:
  assumes "wf_mappings m"
  shows "wf_mappings (id_set m)"
  unfolding wf_mappings_def
proof (intro allI impI)
  have kw: "str_type (NewProperty ''keyword'')" by (simp add: str_type_def)
  fix k q assume q: "map_of (id_set m) k = Some q"
  show "wf_property (id_set m) k q"
  proof (cases "k = ''_id''")
    case True
    with q show ?thesis by (auto simp: wf_property_def id_set_def)
  next
    case False
    with q assms have "wf_property m k q" by (simp add: wf_mappings_def id_set_def)
    moreover have "\<exists>q'. map_of (id_set m) k' = Some q' \<and> str_type q'" if "map_of m k' = Some p'" "str_type p'" for k' p'
      using that kw by (auto simp: id_set_def)
    ultimately show ?thesis unfolding wf_property_def by blast
  qed
qed

lemma fits_kind: "same_kind p q \<Longrightarrow> fits std q = fits std p"
  by (simp add: same_kind_def fits_def str_type_def fun_eq_iff)

lemma typed_kind:
  assumes "rel_option same_kind P Q"
  shows "typed std Q v = typed std P v"
proof (cases P)
  case (Some p)
  with assms obtain q where q: "Q = Some q" "same_kind p q" by (auto simp: option_rel_Some1)
  then have "ptype q = ptype p" "pb_Index (base q) = pb_Index (base p)" "pb_Dims (base q) = pb_Dims (base p)" by (simp_all add: same_kind_def)
  then show ?thesis unfolding typed_def Some q(1) option.case fits_kind [OF q(2)] by (simp only:)
qed (use assms in simp)

lemma wf_kind:
  assumes "wf_mappings m" and "\<And>k. rel_option same_kind (map_of m k) (map_of m' k)"
  shows "wf_mappings m'"
  unfolding wf_mappings_def wf_property_def
proof (intro allI impI)
  fix key q assume q: "map_of m' key = Some q"
  with assms(2) [of key] obtain p where p: "map_of m key = Some p" "same_kind p q" by (auto simp: option_rel_Some2)
  from assms(1) p(1) have "wf_property m key p" by (simp add: wf_mappings_def)
  moreover have "\<exists>q'. map_of m' k = Some q' \<and> str_type q'" if "map_of m k = Some p'" "str_type p'" for k p'
    using that assms(2) [of k] by (auto simp: option_rel_Some1 same_kind_def str_type_def)
  ultimately show "ptype q \<in> {''text'', ''keyword'', ''numeric'', ''bool'', ''date'', ''time'', ''vector''} \<and> (ptype q = ''vector'' \<longrightarrow> 0 \<le> pb_Dims (base q))
      \<and> (\<forall>n\<in>set (map fst (Fields q)). str_type q \<and> (\<exists>q'. map_of m' (key @ ''.'' @ n) = Some q' \<and> str_type q'))"
    using p(2) unfolding wf_property_def same_kind_def str_type_def by metis
qed

lemma build_key_ok:
  assumes "wf_mappings m" and "typed std (map_of m key) v" and "\<And>p. map_of m key = Some p \<Longrightarrow> ptype p = ''vector'' \<Longrightarrow> v = JNull \<or> (\<exists>vs. v = JArr vs)"
  shows "\<exists>ps. build_key std m key v = Ok ps \<and> no_nil ps"
proof (cases "map_of m key")
  case None
  then show ?thesis by (simp add: build_key_def GetProperty_def no_nil_def)
next
  case (Some p)
  have p: "GetProperty m key = (p, True)" using Some by (simp add: GetProperty_def)
  have wf: "wf_property m key p" using assms(1) Some by (simp add: wf_mappings_def)
  show ?thesis
  proof (cases "v = JNull \<or> key = TimeFieldName \<or> key = SourceFieldName \<or> \<not> pb_Index (base p)")
    case True
    then show ?thesis by (auto simp: build_key_def p no_nil_def)
  next
    case False
    show ?thesis
    proof (cases "ptype p = ''vector''")
      case True
      with assms(3) [OF Some] False obtain vs where v: "v = JArr vs" by blast
      with assms(2) False True have "int (length vs) = pb_Dims (base p)" "vector_of std vs \<noteq> None" by (auto simp: typed_def Some)
      with False True v wf show ?thesis by (auto simp: build_key_def p no_nil_def wf_property_def)
    next
      case nv: False
      show ?thesis
      proof (cases "\<exists>vs. v = JArr vs")
        case True
        then obtain vs where v: "v = JArr vs" by blast
        have "\<exists>ps. each_outcome (buildField std m key) vs = Ok ps \<and> no_nil ps"
          by (rule each_outcome_ok, rule buildField_ok [OF assms(1) Some]) (use assms(2) False nv in \<open>auto simp: typed_def Some v\<close>)
        with False nv v show ?thesis by (simp add: build_key_def p)
      next
        case na: False
        have "fits std p v" using assms(2) False nv na by (cases v) (auto simp: typed_def Some)
        from buildField_ok [OF assms(1) Some this] na False nv show ?thesis by (cases v) (auto simp: build_key_def p)
      qed
    qed
  qed
qed

lemma grown_vector: "grown m m' ks \<Longrightarrow> map_of m' k = Some p \<Longrightarrow> ptype p = ''vector'' \<Longrightarrow> map_of m k = Some p"
  unfolding grown_def by (metis option.inject)

lemma time_set_grown: "time_set m \<Longrightarrow> grown m m' ks \<Longrightarrow> time_set m'"
  unfolding time_set_def grown_def by (metis option.distinct(1))

definition op_of :: "int \<Rightarrow> string \<Rightarrow> string \<Rightarrow> int \<Rightarrow> jval \<Rightarrow> members \<Rightarrow> members" where
  "op_of t a docID shard src flat =
     aput SourceFieldName src (aput TimeFieldName (JInt (UnixNano t)) (aput ShardFieldName (JInt shard)
       (aput IDFieldName (JStr docID) (aput ActionFieldName (JStr a) flat))))"

lemma CheckDocumentOperation_result:
  assumes "CheckDocumentOperation False std store now m docID doc update shard = (Inr op, m')" and "wf_mappings m" and "time_set m"
  obtains m1 flat t a src where "checked std (Flatten doc []) m m1 (Flatten doc []) flat" and "m' = m1 \<or> m' = SetMappings m1"
    and "op = op_of t a docID shard src flat" and "time_set m1"
proof -
  let ?f = "Flatten doc []"
  obtain r m1 upd where loop: "check_loop False std ?f m False ?f doc = (r, m1, upd)" by (cases "check_loop False std ?f m False ?f doc") auto
  with assms(1) obtain flat doc1 where r: "r = Inr (flat, doc1)" by (cases r) (auto simp: CheckDocumentOperation_def Let_def)
  have d: "distinct (map fst ?f)" by (simp add: Flatten_def distinct_flatten)
  have c: "checked std ?f m m1 ?f flat"
    by (rule check_loop_result [OF loop [unfolded r] assms(2) d]) (use d in auto)
  have "m' = m1 \<or> m' = SetMappings m1" and "\<exists>t a src. op = op_of t a docID shard src flat"
    using assms(1) unfolding CheckDocumentOperation_def Let_def loop r
    by (auto simp: op_of_def split: if_splits option.splits sum.splits prod.splits)
  moreover have "time_set m1" using time_set_grown [OF assms(3)] c by (auto simp: checked_def)
  ultimately show ?thesis using that c by blast
qed

text \<open>The field \<^verbatim>\<open>_id\<close> of a document is a string, which the handlers ensure; \<^verbatim>\<open>SetMappings\<close> turns it into a keyword.\<close>

definition id_ok :: "mappings \<Rightarrow> members \<Rightarrow> bool" where
  "id_ok m flat \<longleftrightarrow> map_of m ''_id'' = Some (NewProperty ''keyword'')
     \<or> map_of m ''_id'' = None \<and> (\<forall>v. (''_id'', v) \<in> set flat \<longrightarrow> v = JNull \<or> (\<exists>s. v = JStr s))"

lemma checked_typed:
  assumes c: "checked std es m m1 es flat" and "id_ok m es" and "M = m1 \<or> M = id_set m1" and e: "(key, v0) \<in> set es" and v: "map_of flat key = Some v"
  shows "typed std (map_of M key) v"
proof -
  have k: "typed std (map_of m1 key) v" "v0 = JNull \<longrightarrow> v = JNull" using c e v unfolding checked_def kept_def by (metis option.inject)+
  show ?thesis
  proof (cases "map_of M key = map_of m1 key")
    case True
    with k show ?thesis by simp
  next
    case False
    with assms(3) have id: "key = ''_id''" "map_of M key = Some (NewProperty ''keyword'')" by (auto simp: id_set_def split: if_splits)
    have "map_of m ''_id'' \<noteq> Some (NewProperty ''keyword'')" using c False id unfolding checked_def grown_def by (metis option.distinct(1))
    with assms(2) e id(1) have none: "map_of m key = None" and "v0 = JNull \<or> (\<exists>s. v0 = JStr s)" by (auto simp: id_ok_def)
    then have "v = JNull \<or> (\<exists>s. v = JStr s)" using k(2) c e v unfolding checked_def by (metis option.inject)
    then show ?thesis by (auto simp: id(2) typed_def fits_def str_type_def)
  qed
qed

lemma op_fields:
  assumes "distinct (map fst flat)" and "(key, v) \<in> set (adel ShardFieldName (adel IDFieldName (adel ActionFieldName (op_of t a docID shard src flat))))"
  shows "key = TimeFieldName \<or> key = SourceFieldName \<or> map_of flat key = Some v"
proof -
  have "distinct (map fst (adel ShardFieldName (adel IDFieldName (adel ActionFieldName (op_of t a docID shard src flat)))))"
    using assms(1) by (simp add: op_of_def)
  from map_of_is_SomeI [OF this assms(2)] show ?thesis by (auto simp: op_of_def split: if_splits)
qed

lemma build_op:
  assumes "\<And>key v. (key, v) \<in> set (adel ShardFieldName (adel IDFieldName (adel ActionFieldName (op_of t a docID shard src flat)))) \<Longrightarrow>
    \<exists>ps. build_key std m key v = Ok ps \<and> no_nil ps"
  shows "\<exists>d. BuildBlugeDocumentFromJSON std indexName now m docID (op_of t a docID shard src flat) = Ok d \<and> no_nil (bd_parts d)"
proof -
  let ?doc = "adel ShardFieldName (adel IDFieldName (adel ActionFieldName (op_of t a docID shard src flat)))"
  have "\<exists>ps. each_outcome (\<lambda>(key, v). build_key std m key v) ?doc = Ok ps \<and> no_nil ps"
    by (rule each_outcome_ok) (use assms in auto)
  moreover have "map_of ?doc TimeFieldName = Some (JInt (UnixNano t))"
    by (simp add: op_of_def TimeFieldName_def SourceFieldName_def ShardFieldName_def IDFieldName_def ActionFieldName_def)
  ultimately show ?thesis by (auto simp: BuildBlugeDocumentFromJSON_def Let_def)
qed


definition demo_std :: go_std where
  "demo_std = \<lparr>gs_format_float = (\<lambda>_. ''1''), gs_parse_float = (\<lambda>_. Some 2), gs_float64 = of_int, gs_float32 = id, gs_sprint = (\<lambda>_. ''?''),
     gs_parse_time = (\<lambda>_ _ _. None), gs_location = (\<lambda>_. False)\<rparr>"

definition vector_property :: property where
  "vector_property = set_base (\<lambda>b. b\<lparr>pb_Dims := 2\<rparr>) (NewProperty ''vector'')"

definition demo_mappings :: mappings where
  "demo_mappings = [(''@timestamp'', NewProperty ''date''), (''v'', vector_property)]"

definition demo_input :: members where
  "demo_input = [(''_id'', JStr ''1''), (''a'', JObj [(''b'', JArr [JStr ''x'', JInt 7])]), (''v'', JArr [JNum 1, JStr ''2''])]"

lemma demo_flat: "Flatten demo_input [] = [(''_id'', JStr ''1''), (''a.b'', JArr [JStr ''x'', JInt 7]), (''v'', JArr [JNum 1, JStr ''2''])]"
  by (simp add: Flatten_def demo_input_def enkey_def)

lemma vector_property_simps [simp]: "ptype vector_property = ''vector''" "base vector_property = (base (NewProperty ''vector''))\<lparr>pb_Dims := 2\<rparr>" "Fields vector_property = []"
  by (simp_all add: vector_property_def ptype_def) (simp add: NewProperty_def)

lemma demo_mappings_ok: "wf_mappings demo_mappings" "time_set demo_mappings" "id_ok demo_mappings (Flatten demo_input [])"
  by (auto simp: wf_mappings_def wf_property_def demo_mappings_def time_set_def TimeFieldName_def id_ok_def demo_flat split: if_splits) (simp add: NewProperty_def)


section \<open>What the check lets through\<close>

lemma Flatten_single: "\<not> is_map_or_slice v \<Longrightarrow> Flatten [(key, v)] [] = [(key, v)]"
  "\<not> list_all is_map_or_slice vs \<Longrightarrow> Flatten [(key, JArr vs)] [] = [(key, JArr vs)]"
  by (simp_all add: Flatten_def enkey_def)

definition user_key :: "string \<Rightarrow> bool" where
  "user_key k \<longleftrightarrow> k \<notin> {TimeFieldName, IDFieldName, ActionFieldName, ShardFieldName, SourceFieldName, ''_id''}"

lemma build_single:
  assumes "user_key key"
  shows "build_key std m key v = Panic \<Longrightarrow> BuildBlugeDocumentFromJSON std indexName now m docID (op_of t a docID shard src [(key, v)]) = Panic"
    and "build_key std m key v = Exit \<Longrightarrow> BuildBlugeDocumentFromJSON std indexName now m docID (op_of t a docID shard src [(key, v)]) = Exit"
proof -
  have n: "TimeFieldName \<noteq> key" "IDFieldName \<noteq> key" "ActionFieldName \<noteq> key" "ShardFieldName \<noteq> key" "SourceFieldName \<noteq> key"
    using assms by (auto simp: user_key_def)
  then obtain rest where "op_of t a docID shard src [(key, v)] = (key, v) # rest" by (simp add: op_of_def)
  with n have "\<exists>rest. adel ShardFieldName (adel IDFieldName (adel ActionFieldName (op_of t a docID shard src [(key, v)]))) = (key, v) # rest"
    by (simp add: adel_def)
  then obtain rest' where "adel ShardFieldName (adel IDFieldName (adel ActionFieldName (op_of t a docID shard src [(key, v)]))) = (key, v) # rest'" by blast
  then show "build_key std m key v = Panic \<Longrightarrow> BuildBlugeDocumentFromJSON std indexName now m docID (op_of t a docID shard src [(key, v)]) = Panic"
    and "build_key std m key v = Exit \<Longrightarrow> BuildBlugeDocumentFromJSON std indexName now m docID (op_of t a docID shard src [(key, v)]) = Exit"
    unfolding BuildBlugeDocumentFromJSON_def Let_def by simp_all
qed

text \<open>C39: A vector field whose value is not an array passes the check, although the construction of the
  document relies on the check for this: there it ends the process.\<close>

theorem vector_scalar_exits:
  assumes "user_key key" and "map_of m key = Some p" and "ptype p = ''vector''" and "pb_Index (base p)" and "0 \<le> pb_Dims (base p)"
    and "\<not> is_map_or_slice v" and "v \<noteq> JNull"
  shows "\<exists>op. CheckDocumentOperation kw std store now m docID [(key, v)] update shard = (Inr op, m)
    \<and> BuildBlugeDocumentFromJSON std indexName now' m docID op = Exit"
proof -
  have p: "GetProperty m key = (p, True)" using assms(2) by (simp add: GetProperty_def)
  have "check_typed std m key v [(key, v)] [(key, v)] = Inr ([(key, v)], [(key, v)])"
    using assms(3,6) by (cases v) (simp_all add: check_typed_def p)
  moreover have "checkProperty kw std m key v = (False, m)" using assms(3) by (simp add: checkProperty_def p)
  moreover have "key \<noteq> TimeFieldName" using assms(1) by (simp add: user_key_def)
  ultimately have "\<exists>src. CheckDocumentOperation kw std store now m docID [(key, v)] update shard
      = (Inr (op_of now (if update then ''update'' else ''insert'') docID shard src [(key, v)]), m)"
    using assms(7) by (auto simp: CheckDocumentOperation_def Flatten_single(1) [OF assms(6)] Let_def op_of_def)
  moreover have "build_key std m key v = Exit"
    using assms by (cases v) (auto simp: build_key_def p user_key_def)
  ultimately show ?thesis using build_single(2) [OF assms(1)] by blast
qed

theorem vector_scalar_exits_witness:
  "\<exists>op. CheckDocumentOperation False demo_std (\<lambda>_. None) 0 demo_mappings ''1'' [(''v'', JStr ''x'')] False 0 = (Inr op, demo_mappings)
     \<and> BuildBlugeDocumentFromJSON demo_std ''i'' 0 demo_mappings ''1'' op = Exit"
  by (rule vector_scalar_exits [of _ _ vector_property])
    (simp_all add: user_key_def TimeFieldName_def IDFieldName_def ActionFieldName_def ShardFieldName_def SourceFieldName_def demo_mappings_def, simp add: NewProperty_def)

text \<open>C40: An array that starts with null passes the check without a property for its field. When another
  document gives the field a property before the logged operation is built, the construction panics.\<close>

theorem null_array_panics:
  assumes "user_key key" and "map_of m key = None" and "store (SetMappings m) = None"
  shows "\<exists>op. CheckDocumentOperation kw std store now m docID [(key, JArr (JNull # vs))] update shard = (Inr op, SetMappings m)
    \<and> (\<forall>m2 p. map_of m2 key = Some p \<longrightarrow> pb_Index (base p) \<longrightarrow> ptype p \<in> {''text'', ''keyword'', ''numeric'', ''bool''} \<longrightarrow>
         BuildBlugeDocumentFromJSON std indexName now' m2 docID op = Panic)"
proof -
  let ?v = "JArr (JNull # vs)"
  have p: "GetProperty m key = (Property zero_base [], False)" using assms(2) by (simp add: GetProperty_def)
  have "check_typed std m key ?v [(key, ?v)] [(key, ?v)] = Inr ([(key, ?v)], [(key, ?v)])" by (simp add: check_typed_def p)
  moreover have "checkProperty kw std m key ?v = (True, m)" by (simp add: checkProperty_def p)
  moreover have "key \<noteq> TimeFieldName" using assms(1) by (simp add: user_key_def)
  ultimately have "\<exists>src. CheckDocumentOperation kw std store now m docID [(key, ?v)] update shard
      = (Inr (op_of now (if update then ''update'' else ''insert'') docID shard src [(key, ?v)]), SetMappings m)"
    using assms(3) by (auto simp: CheckDocumentOperation_def Flatten_single(2) Let_def op_of_def)
  moreover have "build_key std m2 key ?v = Panic"
    if q: "map_of m2 key = Some q" "pb_Index (base q)" "ptype q \<in> {''text'', ''keyword'', ''numeric'', ''bool''}" for m2 q
  proof -
    have "GetProperty m2 key = (q, True)" using q(1) by (simp add: GetProperty_def)
    moreover have "field_value std q JNull = Panic" using q(3) by (auto simp: field_value_def)
    ultimately have "buildField std m2 key JNull = Panic" by (simp add: buildField.simps)
    with q \<open>GetProperty m2 key = (q, True)\<close> assms(1) show ?thesis by (auto simp: build_key_def user_key_def)
  qed
  ultimately show ?thesis using build_single(1) [OF assms(1)] by blast
qed

theorem null_array_panics_witness:
  "\<exists>op. CheckDocumentOperation False demo_std (\<lambda>_. None) 0 demo_mappings ''1'' [(''x'', JArr [JNull, JNum 1])] False 0 = (Inr op, SetMappings demo_mappings)
     \<and> BuildBlugeDocumentFromJSON demo_std ''i'' 0 [(''x'', NewProperty ''text'')] ''1'' op = Panic"
proof -
  have "user_key ''x''" by (simp add: user_key_def TimeFieldName_def IDFieldName_def ActionFieldName_def ShardFieldName_def SourceFieldName_def)
  moreover have "map_of demo_mappings ''x'' = None" by (simp add: demo_mappings_def)
  moreover have "pb_Index (base (NewProperty ''text''))" by (simp add: NewProperty_def)
  ultimately show ?thesis
    using null_array_panics [of "''x''" demo_mappings "\<lambda>_. None" False demo_std 0 "''1''" "[JNum 1]" False 0 "''i''" 0] by fastforce
qed

end
