(* ===== verification/Index_Documents.thy ===== *)
theory Index_Documents
  imports Documents Wal_Shard Rendezvous Base62
begin

text \<open>
  Creating, updating and deleting documents of an index, \<^verbatim>\<open>pkg/core/index_document.go\<close>: the shard of a document is
  chosen by rendezvous hashing, its second-layer shard by a search, the document is checked against the
  mappings, and the operation is appended to the log of the shard or written at once.
\<close>

section \<open>Model\<close>

text \<open>The shards by their ids, the hashing that chooses one, and the mappings and vector indexes that all of
  them share.\<close>

record ('c, 'v, 'w, 'r) doc_index =
  di_hash :: rendezvous
  di_shards :: "(string \<times> ('c, 'v, 'w, 'r) wal_shard) list"
  di_mappings :: mappings
  di_vecs :: "string list"
  di_vec :: 'v

text \<open>
  The configuration and what is called: \<open>de_found\<close> is the number of hits of an id in a Bluge index, \<open>de_pick\<close>
  which of several hits wins, \<open>de_write\<close> the writing of documents under some mappings, \<open>de_open\<close> opens the
  log of a shard and \<open>de_append\<close> appends an encoded operation. \<open>de_order\<close> is the order in which shards are
  served.
\<close>

record ('c, 'd, 'v, 'w, 'r) doc_env =
  de_wal :: bool
  de_kw :: bool
  de_std :: go_std
  de_store :: "mappings \<Rightarrow> error option"
  de_now :: int
  de_ovf :: "nat \<Rightarrow> int64"
  de_found :: "'c \<Rightarrow> string \<Rightarrow> error + nat"
  de_pick :: "int list \<Rightarrow> int"
  de_write :: "mappings \<Rightarrow> ('c, 'd, 'v) wenv"
  de_log :: "('c, 'w, 'r) wal_env"
  de_open :: "string \<Rightarrow> error + 'w \<times> 'r"
  de_append :: "'w \<Rightarrow> members \<Rightarrow> error + 'w"
  de_order :: "(string \<times> jdoc list) list \<Rightarrow> (string \<times> jdoc list) list"

definition ErrorIDNotFound :: error where
  "ErrorIDNotFound = ''id not found''"

text \<open>A missing shard is a nil pointer, on which every caller panics.\<close>

definition GetShardByShardKey :: "('c, 'v, 'w, 'r) doc_index \<Rightarrow> string \<Rightarrow> ('c, 'v, 'w, 'r) wal_shard option" where
  "GetShardByShardKey ix shardKey = map_option (\<lambda>st. st\<lparr>wa_vec := di_vec ix\<rparr>) (map_of (di_shards ix) shardKey)"

definition GetShardByDocID :: "('c, 'v, 'w, 'r) doc_index \<Rightarrow> string \<Rightarrow> (string \<times> ('c, 'v, 'w, 'r) wal_shard) option" where
  "GetShardByDocID ix docID =
     (case Lookup (di_hash ix) docID of
        None \<Rightarrow> None
      | Some shardKey \<Rightarrow> map_option (Pair shardKey) (GetShardByShardKey ix shardKey))"

definition put_shard :: "string \<Rightarrow> ('c, 'v, 'w, 'r) wal_shard \<Rightarrow> ('c, 'v, 'w, 'r) doc_index \<Rightarrow> ('c, 'v, 'w, 'r) doc_index" where
  "put_shard key st ix = ix\<lparr>di_shards := aput key st (di_shards ix), di_vec := wa_vec st\<rparr>"

definition find_shard :: "('c, 'd, 'v, 'w, 'r) doc_env \<Rightarrow> string \<Rightarrow> 'c shard \<Rightarrow> (error + int) option" where
  "find_shard env docID s =
     FindShardByDocID (\<lambda>i. case second s i of None \<Rightarrow> Inl ''closed'' | Some ss \<Rightarrow> de_found env (ss_docs ss) docID) (de_pick env) s"

text \<open>The target of a document: whether it is updated, and in which second-layer shard. The search has no error
  but \<^verbatim>\<open>ErrorIDNotFound\<close>.\<close>

definition find_update :: "('c, 'd, 'v, 'w, 'r) doc_env \<Rightarrow> string \<Rightarrow> bool \<Rightarrow> 'c shard \<Rightarrow> (bool \<times> int) option" where
  "find_update env docID update s =
     (if \<not> update then Some (False, ShardIDNeedLatest)
      else map_option (\<lambda>r. case r of Inl _ \<Rightarrow> (False, - 1) | Inr i \<Rightarrow> (True, i)) (find_shard env docID s))"

definition commit_to :: "('c, 'd, 'v, 'w, 'r) doc_env \<Rightarrow> string \<Rightarrow> jdoc list \<Rightarrow> ('c, 'v, 'w, 'r) doc_index
    \<Rightarrow> (error option \<times> ('c, 'v, 'w, 'r) doc_index) option" where
  "commit_to env key ops ix =
     (case GetShardByShardKey ix key of
        None \<Rightarrow> None
      | Some st \<Rightarrow>
          (case CommitOperations (de_write env (di_mappings ix)) (de_log env) ops (wa_shard st) (wa_vec st) of
             None \<Rightarrow> None
           | Some (e, s, v) \<Rightarrow> Some (e, put_shard key (st\<lparr>wa_shard := s, wa_vec := v\<rparr>) ix)))"

definition log_to :: "('c, 'd, 'v, 'w, 'r) doc_env \<Rightarrow> string \<Rightarrow> members \<Rightarrow> ('c, 'v, 'w, 'r) doc_index
    \<Rightarrow> (error option \<times> ('c, 'v, 'w, 'r) doc_index) option" where
  "log_to env key op ix =
     map_option (\<lambda>st. case de_append env (wa_wal st) op of
        Inl e \<Rightarrow> (Some e, ix)
      | Inr w \<Rightarrow> (None, put_shard key (st\<lparr>wa_wal := w\<rparr>) ix)) (GetShardByShardKey ix key)"

definition open_log :: "('c, 'd, 'v, 'w, 'r) doc_env \<Rightarrow> string \<Rightarrow> ('c, 'v, 'w, 'r) doc_index
    \<Rightarrow> (error option \<times> ('c, 'v, 'w, 'r) doc_index) option" where
  "open_log env key ix =
     (case GetShardByShardKey ix key of
        None \<Rightarrow> None
      | Some st \<Rightarrow> map_option (\<lambda>(e, st1). (e, put_shard key st1 ix))
          (OpenWAL (de_wal env) (de_open env key) (de_write env (di_mappings ix)) (de_log env) st))"

definition check_op :: "('c, 'd, 'v, 'w, 'r) doc_env \<Rightarrow> string \<Rightarrow> members \<Rightarrow> bool \<Rightarrow> int \<Rightarrow> ('c, 'v, 'w, 'r) doc_index
    \<Rightarrow> (error + members) \<times> ('c, 'v, 'w, 'r) doc_index" where
  "check_op env docID doc update i ix =
     (case CheckDocumentOperation (de_kw env) (de_std env) (de_store env) (de_now env) (di_mappings ix) docID doc update i of
        (r, m) \<Rightarrow> (r, ix\<lparr>di_mappings := m\<rparr>))"

definition submit :: "('c, 'd, 'v, 'w, 'r) doc_env \<Rightarrow> string \<Rightarrow> string \<Rightarrow> members \<Rightarrow> bool \<Rightarrow> int \<Rightarrow> ('c, 'v, 'w, 'r) doc_index
    \<Rightarrow> (error option \<times> ('c, 'v, 'w, 'r) doc_index) option" where
  "submit env key docID doc update i ix =
     (if de_wal env then
        (case open_log env key ix of
           None \<Rightarrow> None
         | Some (Some e, ix1) \<Rightarrow> Some (Some e, ix1)
         | Some (None, ix1) \<Rightarrow>
             (case check_op env docID doc update i ix1 of
                (Inl e, ix2) \<Rightarrow> Some (Some e, ix2)
              | (Inr op, ix2) \<Rightarrow> log_to env key op ix2))
      else
        (case check_op env docID doc update i ix of
           (Inl e, ix1) \<Rightarrow> Some (Some e, ix1)
         | (Inr op, ix1) \<Rightarrow> commit_to env key [map_of op] ix1))"

definition bad_id :: "('c, 'd, 'v, 'w, 'r) doc_env \<Rightarrow> string \<Rightarrow> ('c, 'v, 'w, 'r) doc_index \<Rightarrow> bool" where
  "bad_id env docID ix \<longleftrightarrow> length (di_vecs ix) > 0 \<and> \<not> valid_doc_id (de_ovf env) docID"

definition CreateDocument :: "('c, 'd, 'v, 'w, 'r) doc_env \<Rightarrow> string \<Rightarrow> members \<Rightarrow> bool \<Rightarrow> ('c, 'v, 'w, 'r) doc_index
    \<Rightarrow> (error option \<times> ('c, 'v, 'w, 'r) doc_index) option" where
  "CreateDocument env docID doc update ix =
     (case GetShardByDocID ix docID of
        None \<Rightarrow> None
      | Some (key, st) \<Rightarrow>
          (case find_update env docID update (wa_shard st) of
             None \<Rightarrow> None
           | Some (update', i) \<Rightarrow>
               if bad_id env docID ix then Some (Some ''document ID is not a valid base62 string'', ix)
               else submit env key docID doc update' i ix))"

definition UpdateDocument :: "('c, 'd, 'v, 'w, 'r) doc_env \<Rightarrow> string \<Rightarrow> members \<Rightarrow> bool \<Rightarrow> ('c, 'v, 'w, 'r) doc_index
    \<Rightarrow> (error option \<times> ('c, 'v, 'w, 'r) doc_index) option" where
  "UpdateDocument env docID doc ins ix =
     (case GetShardByDocID ix docID of
        None \<Rightarrow> None
      | Some (key, st) \<Rightarrow>
          (case find_shard env docID (wa_shard st) of
             None \<Rightarrow> None
           | Some (Inl e) \<Rightarrow>
               if ins \<and> e = ErrorIDNotFound then submit env key docID doc False (- 1) ix else Some (Some e, ix)
           | Some (Inr i) \<Rightarrow> submit env key docID doc True i ix))"

text \<open>The operation that deletes a document, or only its vectors when the index does not have it.\<close>

definition delete_op :: "string \<Rightarrow> bool \<Rightarrow> int \<Rightarrow> members" where
  "delete_op docID vecOnly i =
     [(IDFieldName, JStr docID), (ActionFieldName, JStr (if vecOnly then ''delete_vec_only'' else ''delete'')), (ShardFieldName, JInt i)]"

definition DeleteDocument :: "('c, 'd, 'v, 'w, 'r) doc_env \<Rightarrow> string \<Rightarrow> ('c, 'v, 'w, 'r) doc_index
    \<Rightarrow> (error option \<times> ('c, 'v, 'w, 'r) doc_index) option" where
  "DeleteDocument env docID ix =
     (case GetShardByDocID ix docID of
        None \<Rightarrow> None
      | Some (key, st) \<Rightarrow>
          (case find_shard env docID (wa_shard st) of
             None \<Rightarrow> None
           | Some r \<Rightarrow>
               (case (case r of Inl e \<Rightarrow> if length (di_vecs ix) > 0 then Inr (delete_op docID True (- 1)) else Inl e
                      | Inr i \<Rightarrow> Inr (delete_op docID False i)) of
                  Inl e \<Rightarrow> Some (Some e, ix)
                | Inr op \<Rightarrow>
                    if de_wal env then
                      (case open_log env key ix of
                         None \<Rightarrow> None
                       | Some (Some e, ix1) \<Rightarrow> Some (Some e, ix1)
                       | Some (None, ix1) \<Rightarrow> log_to env key op ix1)
                    else commit_to env key [map_of op] ix)))"

text \<open>Several documents at once: the operations are collected by shard, and the shards are written by
  goroutines of their own; the first error is returned after all have ended.\<close>

type_synonym shard_ops = "(string \<times> jdoc list) list"

definition add_op :: "string \<Rightarrow> members \<Rightarrow> shard_ops \<Rightarrow> shard_ops" where
  "add_op key op sm = aput key ((case map_of sm key of None \<Rightarrow> [] | Some list \<Rightarrow> list) @ [map_of op]) sm"

fun commit_shards :: "('c, 'd, 'v, 'w, 'r) doc_env \<Rightarrow> shard_ops \<Rightarrow> error option \<Rightarrow> ('c, 'v, 'w, 'r) doc_index
    \<Rightarrow> (error option \<times> ('c, 'v, 'w, 'r) doc_index) option" where
  "commit_shards env [] e ix = Some (e, ix)"
| "commit_shards env ((key, ops) # rest) e ix =
     (case commit_to env key ops ix of
        None \<Rightarrow> None
      | Some (e1, ix1) \<Rightarrow> commit_shards env rest (if e = None then e1 else e) ix1)"

fun create_loop :: "('c, 'd, 'v, 'w, 'r) doc_env \<Rightarrow> (string \<times> members \<times> bool) list \<Rightarrow> shard_ops \<Rightarrow> ('c, 'v, 'w, 'r) doc_index
    \<Rightarrow> ((error + shard_ops) \<times> ('c, 'v, 'w, 'r) doc_index) option" where
  "create_loop env [] sm ix = Some (Inr sm, ix)"
| "create_loop env ((docID, doc, update) # rest) sm ix =
     (case GetShardByDocID ix docID of
        None \<Rightarrow> None
      | Some (key, st) \<Rightarrow>
          (case find_update env docID update (wa_shard st) of
             None \<Rightarrow> None
           | Some (update', i) \<Rightarrow>
               if bad_id env docID ix then Some (Inl ''document ID is not a valid base62 string'', ix)
               else (case check_op env docID doc update' i ix of
                  (Inl e, ix1) \<Rightarrow> Some (Inl e, ix1)
                | (Inr op, ix1) \<Rightarrow> create_loop env rest (add_op key op sm) ix1)))"

definition CreateDocuments :: "('c, 'd, 'v, 'w, 'r) doc_env \<Rightarrow> (string \<times> members \<times> bool) list \<Rightarrow> ('c, 'v, 'w, 'r) doc_index
    \<Rightarrow> (error option \<times> ('c, 'v, 'w, 'r) doc_index) option" where
  "CreateDocuments env ops ix =
     (if ops = [] then Some (None, ix)
      else case create_loop env ops [] ix of
        None \<Rightarrow> None
      | Some (Inl e, ix1) \<Rightarrow> Some (Some e, ix1)
      | Some (Inr sm, ix1) \<Rightarrow> commit_shards env (de_order env sm) None ix1)"

fun delete_loop :: "('c, 'd, 'v, 'w, 'r) doc_env \<Rightarrow> string list \<Rightarrow> shard_ops \<Rightarrow> ('c, 'v, 'w, 'r) doc_index \<Rightarrow> shard_ops option" where
  "delete_loop env [] sm ix = Some sm"
| "delete_loop env (docID # rest) sm ix =
     (case GetShardByDocID ix docID of
        None \<Rightarrow> None
      | Some (key, st) \<Rightarrow>
          (case find_shard env docID (wa_shard st) of
             None \<Rightarrow> None
           | Some (Inl e) \<Rightarrow>
               if length (di_vecs ix) > 0 then delete_loop env rest (add_op key (delete_op docID True ShardIDNeedLatest) sm) ix
               else delete_loop env rest sm ix
           | Some (Inr i) \<Rightarrow> delete_loop env rest (add_op key (delete_op docID False i) sm) ix))"

definition DeleteDocuments :: "('c, 'd, 'v, 'w, 'r) doc_env \<Rightarrow> string list \<Rightarrow> ('c, 'v, 'w, 'r) doc_index
    \<Rightarrow> (error option \<times> ('c, 'v, 'w, 'r) doc_index) option" where
  "DeleteDocuments env ids ix =
     (case delete_loop env ids [] ix of
        None \<Rightarrow> None
      | Some sm \<Rightarrow> commit_shards env (de_order env sm) None ix)"

section \<open>Where a document is\<close>

definition shard_content :: "('c \<Rightarrow> string \<Rightarrow> 'd multiset) \<Rightarrow> 'c shard \<Rightarrow> string \<Rightarrow> 'd multiset" where
  "shard_content view s k = sum_list (map (\<lambda>c. view c k) (docs_of s))"

lemma sum_list_mset_update:
  "i < length xs \<Longrightarrow> sum_list (xs[i := y]) + xs ! i = sum_list xs + (y :: 'd multiset)"
  by (induction xs arbitrary: i) (auto simp: algebra_simps split: nat.splits)

lemma sum_list_mset_empty: "sum_list xs = {#} \<longleftrightarrow> (\<forall>x \<in> set xs. x = ({#} :: 'd multiset))"
  by (induction xs) auto

lemma sum_list_mset_nth: "i < length xs \<Longrightarrow> xs ! i \<subseteq># (sum_list xs :: 'd multiset)"
  by (induction xs arbitrary: i) (auto simp: nth_Cons' intro: subset_mset.add_increasing subset_mset.add_increasing2)

lemma sub_single: "m \<subseteq># {#d#} \<Longrightarrow> m \<noteq> {#} \<Longrightarrow> m = {#d#}"
  by (cases m) (auto simp: insert_subset_eq_iff)

text \<open>A shard that has one copy of a document has it in one second-layer shard.\<close>

lemma shard_content_replace:
  assumes "i < length (docs_of s)" and "docs_of s' = (docs_of s)[i := c]"
    and "shard_content view s k = {#} \<or> (\<exists>d. shard_content view s k = {#d#} \<and> view (docs_of s ! i) k \<noteq> {#})"
  shows "shard_content view s' k = view c k"
proof -
  let ?xs = "map (\<lambda>c. view c k) (docs_of s)"
  have i: "i < length ?xs" "?xs ! i = view (docs_of s ! i) k" using assms(1) by simp_all
  have new: "shard_content view s' k = sum_list (?xs[i := view c k])" by (simp only: shard_content_def assms(2) map_update)
  have old: "sum_list ?xs = ?xs ! i"
  proof (cases "shard_content view s k = {#}")
    case True
    then show ?thesis using sum_list_mset_nth [OF i(1)] by (simp add: shard_content_def)
  next
    case False
    then obtain d where d: "sum_list ?xs = {#d#}" "?xs ! i \<noteq> {#}" using assms(3) i(2) by (auto simp: shard_content_def)
    with sum_list_mset_nth [OF i(1)] sub_single [of "?xs ! i" d] show ?thesis by simp
  qed
  show ?thesis using sum_list_mset_update [OF i(1), of "view c k"] unfolding new old by simp
qed

lemma shard_content_same:
  assumes "i < length (docs_of s)" and "docs_of s' = (docs_of s)[i := c]" and "view c k = view (docs_of s ! i) k"
  shows "shard_content view s' k = shard_content view s k"
proof -
  have "map (\<lambda>c. view c k) (docs_of s') = (map (\<lambda>c. view c k) (docs_of s))[i := map (\<lambda>c. view c k) (docs_of s) ! i]"
    using assms by (simp add: map_update)
  then show ?thesis by (simp only: shard_content_def list_update_id)
qed

lemma searchers_all: "n \<le> length sss \<Longrightarrow> searchers_loop sss 0 0 n = Some (rev (map ss_id (take n sss)))"
  by (induction n) (auto simp: slice_get_def out_of_range_def take_Suc_conv_app_nth)

lemma find_shard_cases:
  assumes ok: "shard_ok s" and found: "\<And>c. de_found env c k = Inr (size (view c k))" and pick: "\<And>hits. hits \<noteq> [] \<Longrightarrow> de_pick env hits \<in> set hits"
  shows "shard_content view s k = {#} \<and> find_shard env k s = Some (Inl ErrorIDNotFound)
    \<or> (\<exists>i. find_shard env k s = Some (Inr i) \<and> 0 \<le> i \<and> i < sh_num s \<and> view (docs_of s ! nat i) k \<noteq> {#})"
proof -
  let ?n = "length (sh_shards s)"
  define hits where "hits = filter (\<lambda>i. view (docs_of s ! nat i) k \<noteq> {#}) (rev (map int [0..<?n]))"
  let ?f = "\<lambda>i. case second s i of None \<Rightarrow> Inl ''closed'' | Some ss \<Rightarrow> de_found env (ss_docs ss) k"
  have "GetSearchers 0 0 s = Some (rev (map int [0..<?n]))"
    using ok by (simp add: GetSearchers_def searchers_all shard_ok_def)
  moreover have "filter (\<lambda>i. case ?f i of Inl _ \<Rightarrow> False | Inr n \<Rightarrow> n > 0) (rev (map int [0..<?n])) = hits"
    unfolding hits_def by (rule filter_cong [OF refl]) (use ok in \<open>auto simp: second_def slice_get_def found nonempty_has_size [symmetric]\<close>)
  ultimately have f: "find_shard env k s = Some (if hits = [] then Inl ErrorIDNotFound else Inr (de_pick env hits))"
    by (simp add: find_shard_def FindShardByDocID_def ErrorIDNotFound_def Let_def)
  show ?thesis
  proof (cases "hits = []")
    case True
    then have "\<forall>j < ?n. view (docs_of s ! j) k = {#}" by (auto simp: hits_def filter_empty_conv)
    then have "shard_content view s k = {#}" by (auto simp: shard_content_def sum_list_mset_empty in_set_conv_nth)
    with f True show ?thesis by simp
  next
    case False
    then have "de_pick env hits \<in> set hits" by (rule pick)
    then have "0 \<le> de_pick env hits \<and> de_pick env hits < sh_num s \<and> view (docs_of s ! nat (de_pick env hits)) k \<noteq> {#}"
      using ok by (auto simp: hits_def shard_ok_def)
    with f False show ?thesis by auto
  qed
qed

section \<open>Writing one operation\<close>

text \<open>
  A document can be built from its checked operation (\<^verbatim>\<open>checked_document_builds\<close> of the theory \<^verbatim>\<open>Documents\<close> shows
  when). While nothing fails, deletions can be built, a batch acts as Bluge documents, the index of a
  new shard is empty, a search finds the documents with an id, and the batch size is positive.
\<close>

definition builds_checked :: "('c, 'd, 'v, 'w, 'r) doc_env \<Rightarrow> mappings \<Rightarrow> string \<Rightarrow> members \<Rightarrow> bool" where
  "builds_checked env m k doc \<longleftrightarrow> (\<forall>upd i op m'.
     CheckDocumentOperation (de_kw env) (de_std env) (de_store env) (de_now env) m k doc upd i = (Inr op, m')
       \<longrightarrow> (\<exists>r. we_build (de_write env m') k (map_of op) = Inr r))"

definition builds_deletes :: "('c, 'd, 'v, 'w, 'r) doc_env \<Rightarrow> bool" where
  "builds_deletes env \<longleftrightarrow> (\<forall>m k v i. \<exists>r. we_build (de_write env m) k (map_of (delete_op k v i)) = Inr r)"

definition quiet :: "('c, 'd, 'v, 'w, 'r) doc_env \<Rightarrow> ('c \<Rightarrow> string \<Rightarrow> 'd multiset) \<Rightarrow> bool" where
  "quiet env view \<longleftrightarrow>
     (\<forall>m. no_faults (de_write env m) \<and> batch_ok view (we_batch (de_write env m)))
     \<and> builds_deletes env
     \<and> 0 < wl_batch (de_log env) \<and> wl_store (de_log env) = None \<and> (\<forall>is. mset (wl_ids (de_log env) is) = mset is)
     \<and> (\<forall>k. view (wl_fresh (de_log env)) k = {#})
     \<and> (\<forall>c k. de_found env c k = Inr (size (view c k))) \<and> (\<forall>hits. hits \<noteq> [] \<longrightarrow> de_pick env hits \<in> set hits)"

lemma quietD:
  assumes "quiet env view"
  shows "no_faults (de_write env m)" "batch_ok view (we_batch (de_write env m))" "builds_deletes env"
    "0 < wl_batch (de_log env)" "wl_store (de_log env) = None" "mset (wl_ids (de_log env) is) = mset is"
    "view (wl_fresh (de_log env)) k = {#}" "de_found env c k = Inr (size (view c k))" "hits \<noteq> [] \<Longrightarrow> de_pick env hits \<in> set hits"
  using assms unfolding quiet_def by blast+

lemma commit_batches_one:
  assumes "0 < b" and "AddDocument d [] = Some w"
  shows "commit_batches b [d] 0 [] = Some [w]"
proof -
  have "commit_batches b [d] (nat b) [w] = Some [w]" using assms(1) by (subst commit_batches.simps) simp
  moreover have "take (nat b) [d] = [d]" using assms(1) by (cases "nat b") auto
  ultimately show ?thesis using assms by (subst commit_batches.simps) simp
qed

lemma commit_one:
  assumes q: "quiet env view" and ok: "shard_ok s" and d: "op_fields d = Some (a, k, i)" and b: "\<exists>r. we_build (de_write env m) k d = Inr r"
    and a: "a \<in> {''insert'', ''update'', ''delete'', ''delete_vec_only''}" and i: "i = - 1 \<or> 0 \<le> i \<and> i < sh_num s"
    and c: "a \<in> {''insert'', ''delete_vec_only''} \<and> shard_content view s k = {#}
      \<or> a \<in> {''update'', ''delete''} \<and> 0 \<le> i \<and> view (docs_of s ! nat i) k \<noteq> {#} \<and> (\<exists>x. shard_content view s k = {#x#})"
  shows "\<exists>s' v'. CommitOperations (de_write env m) (de_log env) [d] s v = Some (None, s', v') \<and> shard_ok s'
    \<and> (\<forall>k'. shard_content view s' k' = (if k' = k then ref_op (de_write env m) k {#} (a, d) else shard_content view s k'))"
proof -
  let ?e = "de_write env m" and ?wl = "de_log env"
  define t where "t = (if i = ShardIDNeedLatest then GetLatestShardID s else i)"
  have t: "0 \<le> t" "t < sh_num s" using i latest_ok [OF ok] by (auto simp: t_def ShardIDNeedLatest_def)
  then have tn: "nat t < length (docs_of s)" using ok by (simp add: shard_ok_def)
  have "merges [] []" using merges_Reset [of "[]"] by (simp add: Reset_def)
  then obtain w where w: "AddDocument d [] = Some w" "merges w [(a, k, i, d)]" using merges_Add [OF _ d] by fastforce
  have wi: "map fst w = [i]" using w(1) by (auto simp: AddDocument_def d Let_def)
  have on: "ops_on [(a, k, i, d)] i k' = (if k' = k then [(a, d)] else [])" for k' by (simp add: ops_on_def)
  have vt: "view (docs_of s ! nat t) k = {#}" if "shard_content view s k = {#}"
    using that tn by (auto simp: shard_content_def sum_list_mset_empty)
  have log: "\<forall>k'. ops_on [(a, k, i, d)] i k' \<noteq> [] \<longrightarrow> logged_ok (map fst (ops_on [(a, k, i, d)] i k')) (view (docs_of s ! nat t) k')
      \<and> (\<exists>r. we_build ?e k' (snd (last (ops_on [(a, k, i, d)] i k'))) = Inr r)"
    using a c vt b by (auto simp: on logged_ok_def)
  from WriteToShard_view [OF quietD(1) [OF q, of m] quietD(2) [OF q, of m] ok t_def t w(2) log, of v] obtain s1 v1 where
    s1: "WriteToShard ?e w i s v = Some (None, s1, v1)"
      "\<forall>k'. view (docs_of s1 ! nat t) k' = ref_ops ?e k' (ops_on [(a, k, i, d)] i k') (view (docs_of s ! nat t) k')"
      "docs_of s1 = (docs_of s)[nat t := docs_of s1 ! nat t]" by blast
  have "\<forall>op \<in> set [(a, k, i, d)]. op_ok ?e (sh_num s) op" using a i b by (simp add: op_ok_def)
  then have wr: "writable ?e (snd e)" if "map_of w i = Some docs" "e \<in> set docs" for docs e using ops_writable [OF w(2) that(1) _ that(2)] by blast
  have ok1: "shard_ok s1" using WriteToShard_ok [OF quietD(1) [OF q, of m] ok i, of w v] wr s1(1) by auto
  have "wl_ids ?wl [i] = [i]" using quietD(6) [OF q, of "[i]"] by simp
  then have run: "commit_write ?e (wl_ids ?wl) [w] s v = Some (None, s1, v1)" using s1(1) by (simp add: WriteTo_def wi)
  obtain s2 where s2: "CheckShards (we_op ?e) (we_owal ?e) (wl_stats ?wl) (wl_max ?wl) (wl_fresh ?wl) None s1 = Some (None, s2)" "shard_ok s2"
      "docs_of s2 = docs_of s1 \<or> docs_of s2 = docs_of s1 @ [wl_fresh ?wl]"
    using CheckShards_ok [OF quietD(1) [OF q] ok1] by blast
  obtain s3 where s3: "UpdateMetadataByShard (wl_stats ?wl) s2 = Some s3" "shard_ok s3" "docs_of s3 = docs_of s2" using UpdateMetadata_ok [OF s2(2)] by blast
  have "CommitOperations ?e ?wl [d] s v = Some (None, s3, v1)"
    using commit_batches_one [OF quietD(4) [OF q] w(1)] run s2(1) s3(1) quietD(5) [OF q] by (simp add: CommitOperations_def)
  moreover have "shard_content view s3 k' = (if k' = k then ref_op ?e k {#} (a, d) else shard_content view s k')" for k'
  proof -
    have "shard_content view s3 k' = shard_content view s1 k'" 
      unfolding shard_content_def s3(3) using s2(3) quietD(7) [OF q, of k'] by (auto simp del: map_map)
    moreover have "shard_content view s1 k' = shard_content view s k'" if "k' \<noteq> k"
      by (rule shard_content_same [OF tn s1(3)]) (use s1(2) that in \<open>simp add: on ref_ops_def\<close>)
    moreover have "shard_content view s1 k = view (docs_of s1 ! nat t) k"
      by (rule shard_content_replace [OF tn s1(3)]) (use c in \<open>auto simp: t_def ShardIDNeedLatest_def\<close>)
    moreover have "view (docs_of s1 ! nat t) k = ref_op ?e k {#} (a, d)" using s1(2) by (simp add: on ref_ops_def ref_op_def)
    ultimately show ?thesis by simp
  qed
  ultimately show ?thesis using s3(2) by blast
qed

section \<open>The index as a map\<close>

definition copies :: "'d option \<Rightarrow> 'd multiset" where
  "copies x = (case x of None \<Rightarrow> {#} | Some d \<Rightarrow> {#d#})"

text \<open>Every id has a shard; it holds one copy of the document with this id, if there is one, and no other
  shard has any.\<close>

definition holds :: "('c \<Rightarrow> string \<Rightarrow> 'd multiset) \<Rightarrow> ('c, 'v, 'w, 'r) doc_index \<Rightarrow> (string \<rightharpoonup> 'd) \<Rightarrow> bool" where
  "holds view ix M \<longleftrightarrow>
     (\<forall>k. \<exists>key. Lookup (di_hash ix) k = Some key \<and> map_of (di_shards ix) key \<noteq> None)
     \<and> (\<forall>key st. map_of (di_shards ix) key = Some st \<longrightarrow> shard_ok (wa_shard st)
          \<and> (\<forall>k. shard_content view (wa_shard st) k = (if Lookup (di_hash ix) k = Some key then copies (M k) else {#})))"

lemma holdsD:
  assumes "holds view ix M"
  shows "\<exists>key. Lookup (di_hash ix) k = Some key \<and> map_of (di_shards ix) key \<noteq> None"
    "map_of (di_shards ix) key = Some st \<Longrightarrow> shard_ok (wa_shard st)"
    "map_of (di_shards ix) key = Some st \<Longrightarrow> shard_content view (wa_shard st) k = (if Lookup (di_hash ix) k = Some key then copies (M k) else {#})"
  using assms unfolding holds_def by blast+

lemma holds_shard:
  assumes "holds view ix M"
  obtains key st where "GetShardByDocID ix k = Some (key, st)" "Lookup (di_hash ix) k = Some key" "GetShardByShardKey ix key = Some st"
    "shard_ok (wa_shard st)" "shard_content view (wa_shard st) k = copies (M k)"
proof -
  obtain key st0 where k: "Lookup (di_hash ix) k = Some key" "map_of (di_shards ix) key = Some st0"
    using assms unfolding holds_def by blast
  let ?st = "st0\<lparr>wa_vec := di_vec ix\<rparr>"
  have "shard_ok (wa_shard st0)" "shard_content view (wa_shard st0) k = copies (M k)" using holdsD(2,3) [OF assms k(2)] k(1) by simp_all
  then show ?thesis using that [of key ?st] k by (simp add: GetShardByDocID_def GetShardByShardKey_def)
qed

lemma holds_mappings [simp]: "holds view (ix\<lparr>di_mappings := m\<rparr>) M = holds view ix M"
  by (simp add: holds_def)

lemma copies_simps [simp]: "copies None = {#}" "copies (Some d) = {#d#}" "copies x = {#} \<longleftrightarrow> x = None"
  by (simp_all add: copies_def split: option.split)

text \<open>One operation on a document, written to its shard.\<close>

lemma commit_holds:
  assumes q: "quiet env view" and h: "holds view ix M" and key: "Lookup (di_hash ix) k = Some key" "GetShardByShardKey ix key = Some st"
    and d: "op_fields d = Some (a, k, i)" "\<exists>r. we_build (de_write env (di_mappings ix)) k d = Inr r" "a \<in> {''insert'', ''update'', ''delete'', ''delete_vec_only''}" "i = - 1 \<or> 0 \<le> i \<and> i < sh_num (wa_shard st)"
    and c: "a \<in> {''insert'', ''delete_vec_only''} \<and> M k = None
      \<or> a \<in> {''update'', ''delete''} \<and> 0 \<le> i \<and> view (docs_of (wa_shard st) ! nat i) k \<noteq> {#} \<and> M k \<noteq> None"
  shows "\<exists>ix'. commit_to env key [d] ix = Some (None, ix') \<and> di_mappings ix' = di_mappings ix
    \<and> holds view ix' (M(k := if a \<in> {''insert'', ''update''} then Some (built (de_write env (di_mappings ix)) k d) else None))"
proof -
  let ?e = "de_write env (di_mappings ix)" and ?s = "wa_shard st"
  obtain st0 where st0: "map_of (di_shards ix) key = Some st0" "wa_shard st0 = ?s" using key(2) by (auto simp: GetShardByShardKey_def)
  have s: "shard_ok ?s" "shard_content view ?s k' = (if Lookup (di_hash ix) k' = Some key then copies (M k') else {#})" for k'
    using holdsD(2,3) [OF h st0(1)] st0(2) by simp_all
  from c have "a \<in> {''insert'', ''delete_vec_only''} \<and> shard_content view ?s k = {#}
      \<or> a \<in> {''update'', ''delete''} \<and> 0 \<le> i \<and> view (docs_of ?s ! nat i) k \<noteq> {#} \<and> (\<exists>x. shard_content view ?s k = {#x#})"
    by (auto simp: s(2) key(1))
  from commit_one [OF q s(1) d this, of "wa_vec st"] obtain s' v' where
    s': "CommitOperations ?e (de_log env) [d] ?s (wa_vec st) = Some (None, s', v')" "shard_ok s'"
      "\<forall>k'. shard_content view s' k' = (if k' = k then ref_op ?e k {#} (a, d) else shard_content view ?s k')" by blast
  let ?ix = "put_shard key (st\<lparr>wa_shard := s', wa_vec := v'\<rparr>) ix"
  have ref: "ref_op ?e k {#} (a, d) = copies (if a \<in> {''insert'', ''update''} then Some (built ?e k d) else None)"
    by (simp add: ref_op_def)
  have "holds view ?ix (M(k := if a \<in> {''insert'', ''update''} then Some (built ?e k d) else None))"
    unfolding holds_def
  proof (intro conjI allI impI)
    fix k' show "\<exists>key'. Lookup (di_hash ?ix) k' = Some key' \<and> map_of (di_shards ?ix) key' \<noteq> None"
      using holdsD(1) [OF h, of k'] by (auto simp: put_shard_def)
  next
    fix key' st' assume m: "map_of (di_shards ?ix) key' = Some st'"
    show "shard_ok (wa_shard st')" using m s'(2) holdsD(2) [OF h, of key' st'] by (auto simp: put_shard_def split: if_splits)
    fix k' show "shard_content view (wa_shard st') k' = (if Lookup (di_hash ?ix) k' = Some key' then
        copies ((M(k := if a \<in> {''insert'', ''update''} then Some (built ?e k d) else None)) k') else {#})"
    proof (cases "key' = key")
      case True
      with m have "wa_shard st' = s'" by (auto simp: put_shard_def)
      with True s'(3) s(2) [of k'] key(1) show ?thesis by (simp add: ref put_shard_def)
    next
      case False
      with m have "map_of (di_shards ix) key' = Some st'" by (simp add: put_shard_def)
      from holdsD(3) [OF h this, of k'] False key(1) show ?thesis by (auto simp: put_shard_def)
    qed
  qed
  moreover have "commit_to env key [d] ix = Some (None, ?ix)" by (simp add: commit_to_def key(2) s'(1))
  moreover have "di_mappings ?ix = di_mappings ix" by (simp add: put_shard_def)
  ultimately show ?thesis by blast
qed

text \<open>What becomes of a document: it is rejected by the check, or stored as the document that is built from the
  checked operation under the mappings the check leaves.\<close>

definition stored :: "('c, 'd, 'v, 'w, 'r) doc_env \<Rightarrow> ('c \<Rightarrow> string \<Rightarrow> 'd multiset) \<Rightarrow> string \<Rightarrow> members \<Rightarrow> bool \<Rightarrow> int \<Rightarrow> ('c, 'v, 'w, 'r) doc_index
    \<Rightarrow> (string \<rightharpoonup> 'd) \<Rightarrow> error option \<Rightarrow> ('c, 'v, 'w, 'r) doc_index \<Rightarrow> bool" where
  "stored env view k doc upd i ix M r ix' \<longleftrightarrow>
     (case CheckDocumentOperation (de_kw env) (de_std env) (de_store env) (de_now env) (di_mappings ix) k doc upd i of
        (Inl e, m) \<Rightarrow> r = Some e \<and> di_mappings ix' = m \<and> holds view ix' M
      | (Inr op, m) \<Rightarrow> r = None \<and> di_mappings ix' = m \<and> holds view ix' (M(k \<mapsto> built (de_write env m) k (map_of op))))"

lemma checked_op_fields:
  assumes "CheckDocumentOperation kw std store now m k doc upd i = (Inr op, m')"
  shows "op_fields (map_of op) = Some (if upd then ''update'' else ''insert'', k, i)"
proof -
  obtain a b l where "op = aput SourceFieldName a (aput TimeFieldName b (aput ShardFieldName (JInt i) (aput IDFieldName (JStr k)
      (aput ActionFieldName (JStr (if upd then ''update'' else ''insert'')) l))))"
    using assms unfolding CheckDocumentOperation_def Let_def by (auto split: prod.splits sum.splits option.splits if_splits)
  then show ?thesis by (simp add: op_fields_def SourceFieldName_def TimeFieldName_def ShardFieldName_def IDFieldName_def ActionFieldName_def)
qed

lemma submit_stored:
  assumes q: "quiet env view" and bd: "builds_checked env (di_mappings ix) k doc" and wal: "\<not> de_wal env" and h: "holds view ix M" and key: "Lookup (di_hash ix) k = Some key" "GetShardByShardKey ix key = Some st"
    and i: "upd \<and> 0 \<le> i \<and> i < sh_num (wa_shard st) \<and> view (docs_of (wa_shard st) ! nat i) k \<noteq> {#} \<and> M k \<noteq> None \<or> \<not> upd \<and> i = - 1 \<and> M k = None"
  shows "\<exists>r ix'. submit env key k doc upd i ix = Some (r, ix') \<and> stored env view k doc upd i ix M r ix'"
proof -
  obtain r m where r: "CheckDocumentOperation (de_kw env) (de_std env) (de_store env) (de_now env) (di_mappings ix) k doc upd i = (r, m)" by fastforce
  let ?ix = "ix\<lparr>di_mappings := m\<rparr>"
  have sub: "submit env key k doc upd i ix = (case r of Inl e \<Rightarrow> Some (Some e, ?ix) | Inr op \<Rightarrow> commit_to env key [map_of op] ?ix)"
    using wal by (simp add: submit_def check_op_def r split: sum.split)
  show ?thesis
  proof (cases r)
    case (Inl e)
    with sub h show ?thesis by (simp add: stored_def r)
  next
    case (Inr op)
    have f: "op_fields (map_of op) = Some (if upd then ''update'' else ''insert'', k, i)" using checked_op_fields r Inr by blast
    have "GetShardByShardKey ?ix key = Some st" "holds view ?ix M" "Lookup (di_hash ?ix) k = Some key"
      using key h by (simp_all add: GetShardByShardKey_def)
    moreover have "\<exists>x. we_build (de_write env m) k (map_of op) = Inr x" using bd r Inr unfolding builds_checked_def by blast
    ultimately obtain ix' where
      "commit_to env key [map_of op] ?ix = Some (None, ix')" "di_mappings ix' = m" "holds view ix' (M(k \<mapsto> built (de_write env m) k (map_of op)))"
      using commit_holds [OF q _ _ _ f, of ?ix M key st] i by (cases upd) auto
    with sub Inr show ?thesis by (simp add: stored_def r)
  qed
qed

lemma find_document:
  assumes q: "quiet env view" and ok: "shard_ok s" and k: "shard_content view s k = copies x"
  obtains (no) "x = None" "find_shard env k s = Some (Inl ErrorIDNotFound)"
    | (yes) i where "x \<noteq> None" "find_shard env k s = Some (Inr i)" "0 \<le> i" "i < sh_num s" "view (docs_of s ! nat i) k \<noteq> {#}"
proof -
  have "x \<noteq> None" if "view (docs_of s ! nat i) k \<noteq> {#}" "0 \<le> i" "i < sh_num s" for i
  proof
    assume "x = None"
    then have "\<forall>c \<in> set (docs_of s). view c k = {#}" using k by (auto simp: shard_content_def sum_list_mset_empty)
    moreover have "nat i < length (docs_of s)" using that ok by (simp add: shard_ok_def)
    ultimately show False using that(1) nth_mem by blast
  qed
  with find_shard_cases [of s env k view, OF ok quietD(8,9) [OF q]] k that show thesis by auto
qed

lemma delete_op_fields: "op_fields (map_of (delete_op k v i)) = Some (if v then ''delete_vec_only'' else ''delete'', k, i)"
  by (simp add: op_fields_def delete_op_def ShardFieldName_def IDFieldName_def ActionFieldName_def)

section \<open>Properties\<close>

text \<open>
  C1: Without a log and while nothing fails, the documents of an index are a map from ids to documents, across
  hashing, both layers of shards, merging and the growth of shards. Creating a document (one that may
  exist when \<^verbatim>\<open>update\<close> is set, a new one otherwise) or updating it puts the document built from the checked
  operation under its id, in place of the one that was there, or fails and changes no document;
  updating a missing one is an error unless it may be inserted. Deleting removes it, and reports a
  missing one unless the index has vectors. No other document changes. The document can be built from
  what the check makes of it.
\<close>

theorem index_is_map:
  assumes q: "quiet env view" and bd: "builds_checked env (di_mappings ix) k doc" and wal: "\<not> de_wal env" and h: "holds view ix M" and new: "update \<or> M k = None"
  shows "(\<exists>r ix'. CreateDocument env k doc update ix = Some (r, ix') \<and>
       (if bad_id env k ix then r \<noteq> None \<and> ix' = ix else \<exists>i. stored env view k doc (M k \<noteq> None) i ix M r ix'))
    \<and> (\<exists>r ix'. UpdateDocument env k doc ins ix = Some (r, ix') \<and>
       (if \<not> ins \<and> M k = None then r = Some ErrorIDNotFound \<and> ix' = ix else \<exists>i. stored env view k doc (M k \<noteq> None) i ix M r ix'))
    \<and> (\<exists>ix'. DeleteDocument env k ix = Some (if M k = None \<and> di_vecs ix = [] then Some ErrorIDNotFound else None, ix') \<and> holds view ix' (M(k := None)))"
proof -
  obtain key st where k: "GetShardByDocID ix k = Some (key, st)" "Lookup (di_hash ix) k = Some key" "GetShardByShardKey ix key = Some st"
    "shard_ok (wa_shard st)" "shard_content view (wa_shard st) k = copies (M k)" using holds_shard [OF h] by blast
  have del: "\<exists>r. we_build (de_write env m) k (map_of (delete_op k v i)) = Inr r" for m v i
    using quietD(3) [OF q] unfolding builds_deletes_def by blast
  note sub = submit_stored [OF q bd wal h k(2,3)]
  show ?thesis
  proof (rule find_document [OF q k(4,5)], goal_cases no yes)
    case no
    obtain r ix' where s: "submit env key k doc False (- 1) ix = Some (r, ix')" "stored env view k doc False (- 1) ix M r ix'"
      using sub [of False "- 1"] no by blast
    have "\<exists>ix'. commit_to env key [map_of (delete_op k True (- 1))] ix = Some (None, ix') \<and> holds view ix' (M(k := None))"
      using commit_holds [OF q h k(2,3) delete_op_fields, of True "- 1"] no del by auto
    moreover have "holds view ix (M(k := None))" using h no(1) by (metis fun_upd_triv)
    ultimately show ?thesis using s no k(1) wal
      by (auto simp: CreateDocument_def UpdateDocument_def DeleteDocument_def find_update_def ShardIDNeedLatest_def)
  next
    case (yes i)
    obtain r ix' where s: "submit env key k doc True i ix = Some (r, ix')" "stored env view k doc True i ix M r ix'"
      using sub [of True i] yes by blast
    have "\<exists>ix'. commit_to env key [map_of (delete_op k False i)] ix = Some (None, ix') \<and> holds view ix' (M(k := None))"
      using commit_holds [OF q h k(2,3) delete_op_fields, of False i] yes del by auto
    with s yes k(1) wal new show ?thesis
      by (auto simp: CreateDocument_def UpdateDocument_def DeleteDocument_def find_update_def)
  qed
qed

text \<open>An index with one shard, into which a document is put.\<close>

definition int_doc_env :: "((string \<times> int) list, int, vec_action list, sql_wal \<times> sql_row list, sql_row list) doc_env" where
  "int_doc_env = \<lparr>de_wal = False, de_kw = False, de_std = demo_std, de_store = \<lambda>_. None, de_now = 0, de_ovf = \<lambda>_. 0,
     de_found = \<lambda>c k. Inr (size (list_view c k)), de_pick = hd, de_write = \<lambda>_. int_env,
     de_log = sql_wal_env ''a'' one_decode (\<lambda>is. is) 10 1000 (\<lambda>_. (0, 0)) [], de_open = \<lambda>_. Inl [], de_append = \<lambda>w _. Inr w, de_order = \<lambda>sm. sm\<rparr>"

definition one_shard_index :: "((string \<times> int) list, vec_action list, sql_wal \<times> sql_row list, sql_row list) doc_index" where
  "one_shard_index = \<lparr>di_hash = Add New ''0'', di_shards = [(''0'', one_wal_shard\<lparr>wa_shard := new_shard ''0'' []\<rparr>)],
     di_mappings = [(''@timestamp'', NewProperty ''date'')], di_vecs = [], di_vec = []\<rparr>"

lemma int_doc_env_builds: "builds_checked int_doc_env m k doc"
  by (simp add: builds_checked_def int_doc_env_def) (simp add: int_env_def)

lemma int_doc_env_quiet: "quiet int_doc_env list_view"
  using int_env_ok by (simp add: quiet_def builds_deletes_def int_doc_env_def sql_wal_env_def list_view_def) (simp add: int_env_def)

lemma one_shard_holds: "holds list_view one_shard_index Map.empty"
proof -
  have "rv_safe New" by (rule rv_safe_New)
  then have "\<exists>n \<in> set (nstr (Add New ''0'')). Lookup (Add New ''0'') k = Some n" for k
    using rv.pick_member [of "Add New ''0''" k] rv.ok_add [of New "''0''"] rv.members_add [of New "''0''"] by simp
  with \<open>rv_safe New\<close> have "Lookup (Add New ''0'') k = Some ''0''" for k using rv.members_add [of New "''0''"] by fastforce
  then show ?thesis
    by (auto simp: holds_def one_shard_index_def new_shard_def shard_ok_def shard_content_def list_view_def)
qed

theorem index_is_map_witness:
  "\<exists>ix' d. CreateDocument int_doc_env ''1'' [(''x'', JStr ''y'')] True one_shard_index = Some (None, ix') \<and> holds list_view ix' [''1'' \<mapsto> d]"
proof -
  let ?doc = "[(''x'', JStr ''y'')]"
  have "\<exists>op m. CheckDocumentOperation False demo_std (\<lambda>_. None) 0 [(''@timestamp'', NewProperty ''date'')] ''1'' ?doc False i = (Inr op, m)" for i
    by (simp add: CheckDocumentOperation_def Flatten_def enkey_def checkProperty_def GetProperty_def ptype_def NewProperty_def string_property_def
        isDateProperty_def detectTimeLayout_def check_typed_def checkField_def convert_def demo_std_def set_base_def TimeFieldName_def Let_def)
  then have c: "\<exists>op m. CheckDocumentOperation (de_kw int_doc_env) (de_std int_doc_env) (de_store int_doc_env) (de_now int_doc_env)
      (di_mappings one_shard_index) ''1'' ?doc False i = (Inr op, m)" for i
    by (simp add: int_doc_env_def one_shard_index_def)
  have e: "\<not> de_wal int_doc_env" "\<not> bad_id int_doc_env ''1'' one_shard_index" by (simp_all add: int_doc_env_def bad_id_def one_shard_index_def)
  from conjunct1 [OF index_is_map [OF int_doc_env_quiet int_doc_env_builds e(1) one_shard_holds, of True "''1''" ?doc]] e(2) obtain r ix' i where
    "CreateDocument int_doc_env ''1'' ?doc True one_shard_index = Some (r, ix')" "stored int_doc_env list_view ''1'' ?doc False i one_shard_index Map.empty r ix'"
    by auto
  moreover obtain op m where "CheckDocumentOperation (de_kw int_doc_env) (de_std int_doc_env) (de_store int_doc_env) (de_now int_doc_env)
      (di_mappings one_shard_index) ''1'' ?doc False i = (Inr op, m)" using c [of i] by blast
  ultimately have "CreateDocument int_doc_env ''1'' ?doc True one_shard_index = Some (None, ix')"
      "holds list_view ix' [''1'' \<mapsto> built (de_write int_doc_env m) ''1'' (map_of op)]" by (simp_all add: stored_def)
  then show ?thesis by blast
qed

text \<open>A bulk request with an id twice: both operations are insertions, since the index did not have the id when
  they were collected. When a batch boundary separates them they are not merged, and both documents
  are stored.\<close>

lemma bulk_duplicate:
  "\<exists>s' v'. CommitOperations int_env (sql_wal_env ''a'' one_decode (\<lambda>is. is) 1 1000 (\<lambda>_. (0, 0)) [])
     [int_op ''insert'' ''x'' (- 1) 1, int_op ''insert'' ''x'' (- 1) 2] (new_shard ''0'' []) [] = Some (None, s', v')
     \<and> list_view (docs_of s' ! 0) ''x'' = {#1, 2#}"
proof -
  let ?o = "\<lambda>n. int_op ''insert'' ''x'' (- 1) n"
  let ?w = "\<lambda>n. [(- 1 :: int, [(''x'', \<lparr>wd_id = ''x'', wd_actions = [''insert''], wd_data = ?o n\<rparr>)])]"
  have a: "AddDocument (?o n) [] = Some (?w n)" for n by (simp add: AddDocument_def op_fields_def int_op_def)
  have b: "commit_batches 1 [?o 1, ?o 2] 0 [] = Some [?w 1, ?w 2]"
    by (subst commit_batches.simps, simp add: a) (subst commit_batches.simps, simp add: a, subst commit_batches.simps, simp)
  let ?wl = "sql_wal_env ''a'' one_decode (\<lambda>is. is) 1 1000 (\<lambda>_. (0, 0)) ([] :: (string \<times> int) list)"
  obtain s1 v1 where s1: "commit_write int_env (\<lambda>is. is) [?w 1, ?w 2] (new_shard ''0'' []) [] = Some (None, s1, v1)" "shard_ok s1"
      "docs_of s1 = [[(''x'', 1), (''x'', 2)]]"
    by (simp add: WriteTo_def WriteToShard_def ShardIDNeedLatest_def GetLatestShardID_def new_shard_def write_group_def GetWriter_def second_def slice_get_def
        openWriter_def upd_second_def int_env_def int_op_def SetTimestamp_def merged_action_def batch_ops_def other_ops_def vec_ops_def shard_batch_def
        list_batch_def CloseWriter_def shard_ok_def)
  obtain s2 where s2: "CheckShards (we_op int_env) (we_owal int_env) (\<lambda>_. (0, 0)) 1000 [] None s1 = Some (None, s2)" "shard_ok s2" "docs_of s2 = docs_of s1 \<or> docs_of s2 = docs_of s1 @ [[]]"
    using CheckShards_ok [OF int_env_ok(1) s1(2)] by blast
  obtain s3 where s3: "UpdateMetadataByShard (\<lambda>_. (0, 0)) s2 = Some s3" "docs_of s3 = docs_of s2" using UpdateMetadata_ok [OF s2(2)] by blast
  have "CommitOperations int_env ?wl [?o 1, ?o 2] (new_shard ''0'' []) [] = Some (None, s3, v1)"
    using s1(1) s2(1) s3(1) by (simp add: CommitOperations_def sql_wal_env_def b del: commit_write.simps)
  moreover have "docs_of s3 ! 0 = [(''x'', 1), (''x'', 2)]" using s1(3) s2(3) s3(2) by auto
  ultimately show ?thesis by (auto simp: list_view_def)
qed

end
