(* ===== verification/Index_Manager.thy ===== *)
theory Index_Manager
  imports Mappings
begin

text \<open>
  The index manager, \<^verbatim>\<open>pkg/core/indexmgr.go\<close>: a cache of loaded indexes in front of the metadata store. For every
  name at most one operation that reads or writes the store is under way; it owns a channel, and others
  wait until it is closed. Indexes are shared by reference and live in a heap.
\<close>

section \<open>Model\<close>

text \<open>\<open>Panicked\<close> stands for a run-time panic, which skips the section that ends an operation.\<close>

datatype im_error = ErrIndexNotFound | ErrIndexServerMismatch | ErrOther error | Panicked

text \<open>What is stored of an index; \<open>'s\<close> are its settings and \<open>'r\<close> its version, storage type and statistics (also those
  of shards) and its vector indexes. Second-level shards are pointers, nil when absent.\<close>

record 'r shard_meta =
  sm_ID :: string
  sm_NodeID :: string
  sm_ShardNum :: int
  sm_Shards :: "(int \<times> 'r) option list"
  sm_Stats :: 'r

record ('s, 'r) index_meta =
  ix_Name :: string
  ix_Settings :: "'s option"
  ix_Mappings :: "mappings option"
  ix_Shards :: "(string \<times> 'r shard_meta option) list"
  ix_rest :: 'r

record ('s, 'r) im =
  im_cache :: "(string \<times> nat) list"
  im_ready :: "(string \<times> nat) list"
  im_chan :: nat
  im_closed :: "nat list"
  im_heap :: "nat \<Rightarrow> ('s, 'r) index_meta"
  im_next :: nat
  im_meta :: "string \<Rightarrow> ('s, 'r) index_meta option"

text \<open>The failures of the store (those of encoding included) and of the files, the parser of stored analyzers, and \<^verbatim>\<open>NewIndex\<close>.\<close>

record ('s, 'r) im_env =
  ie_get :: "string \<Rightarrow> error option"
  ie_set :: "string \<Rightarrow> error option"
  ie_delete :: "string \<Rightarrow> error option"
  ie_analysis :: "('s, 'r) index_meta \<Rightarrow> error option"
  ie_new :: "string \<Rightarrow> error + ('s, 'r) index_meta"
  ie_settings :: 's
  ie_close :: "nat \<Rightarrow> error option"
  ie_remove :: "('s, 'r) index_meta \<Rightarrow> error option"

definition alloc :: "('s, 'r) index_meta \<Rightarrow> ('s, 'r) im \<Rightarrow> nat \<times> ('s, 'r) im" where
  "alloc d c = (im_next c, c\<lparr>im_heap := (im_heap c)(im_next c := d), im_next := im_next c + 1\<rparr>)"

text \<open>A shard read from the store is copied into a slice of its declared length: a missing shard, a negative
  length, a missing second-level shard or one too many is a panic.\<close>

definition format_shard :: "'r shard_meta option \<Rightarrow> 'r shard_meta option" where
  "format_shard r =
     (case r of
        None \<Rightarrow> None
      | Some s \<Rightarrow>
          (if sm_ShardNum s < 0 \<or> sm_ShardNum s < int (length (sm_Shards s)) \<or> None \<in> set (sm_Shards s) then None
           else Some (s\<lparr>sm_Shards := sm_Shards s @ replicate (nat (sm_ShardNum s) - length (sm_Shards s)) None\<rparr>)))"

definition formatIndex :: "('s, 'r) im_env \<Rightarrow> ('s, 'r) index_meta \<Rightarrow> ('s, 'r) im \<Rightarrow> (im_error + nat) \<times> ('s, 'r) im" where
  "formatIndex env d c =
     (if \<exists>x\<in>set (ix_Shards d). format_shard (snd x) = None then (Inl Panicked, c)
      else case ie_analysis env d of
        Some e \<Rightarrow> (Inl (ErrOther e), c)
      | None \<Rightarrow> (case alloc (d\<lparr>ix_Shards := map (apsnd format_shard) (ix_Shards d)\<rparr>) c of (i, c') \<Rightarrow> (Inr i, c')))"

definition getIndex :: "('s, 'r) im_env \<Rightarrow> string \<Rightarrow> ('s, 'r) im \<Rightarrow> (im_error + nat) \<times> ('s, 'r) im" where
  "getIndex env name c =
     (case ie_get env name of
        Some e \<Rightarrow> (Inl (ErrOther e), c)
      | None \<Rightarrow> (case im_meta c name of None \<Rightarrow> (Inl ErrIndexNotFound, c) | Some d \<Rightarrow> formatIndex env d c))"

definition GetQueryIndex :: "('s, 'r) im_env \<Rightarrow> string \<Rightarrow> ('s, 'r) im \<Rightarrow> (im_error + nat) \<times> ('s, 'r) im" where
  "GetQueryIndex env name c = getIndex env name c"

definition check_meta :: "('s, 'r) im_env \<Rightarrow> ('s, 'r) index_meta \<Rightarrow> ('s, 'r) index_meta" where
  "check_meta env d =
     d\<lparr>ix_Settings := (case ix_Settings d of None \<Rightarrow> Some (ie_settings env) | s \<Rightarrow> s),
       ix_Mappings := (case ix_Mappings d of None \<Rightarrow> Some [(TimeFieldName, NewProperty ''date'')] | m \<Rightarrow> m)\<rparr>"

definition checkIndex :: "('s, 'r) im_env \<Rightarrow> nat \<Rightarrow> ('s, 'r) im \<Rightarrow> ('s, 'r) im" where
  "checkIndex env i c = c\<lparr>im_heap := (im_heap c)(i := check_meta env (im_heap c i))\<rparr>"

definition storeIndex :: "('s, 'r) im_env \<Rightarrow> nat \<Rightarrow> ('s, 'r) im \<Rightarrow> im_error option \<times> ('s, 'r) im" where
  "storeIndex env i c =
     (let c1 = checkIndex env i c; d = im_heap c1 i in
      case ie_set env (ix_Name d) of
        Some e \<Rightarrow> (Some (ErrOther e), c1)
      | None \<Rightarrow> (None, c1\<lparr>im_meta := (im_meta c1)(ix_Name d := Some d)\<rparr>))"

definition getOrCreateIndex :: "('s, 'r) im_env \<Rightarrow> string \<Rightarrow> ('s, 'r) im \<Rightarrow> (im_error + nat \<times> bool) \<times> ('s, 'r) im" where
  "getOrCreateIndex env name c =
     (case ie_get env name of
        Some e \<Rightarrow> (Inl (ErrOther e), c)
      | None \<Rightarrow>
          (case im_meta c name of
             Some d \<Rightarrow> (case formatIndex env d c of (Inl e, c') \<Rightarrow> (Inl e, c') | (Inr i, c') \<Rightarrow> (Inr (i, True), c'))
           | None \<Rightarrow>
               (case ie_new env name of
                  Inl e \<Rightarrow> (Inl (ErrOther e), c)
                | Inr d \<Rightarrow>
                    (case alloc d c of (i, c1) \<Rightarrow>
                       (case storeIndex env i c1 of
                          (Some e, c2) \<Rightarrow> (Inl e, c2)
                        | (None, c2) \<Rightarrow> (Inr (i, False), c2))))))"

text \<open>Vectors, files and metadata of an index are deleted in this order; an index that is in the cache is
  closed first.\<close>

definition deleteIndex :: "('s, 'r) im_env \<Rightarrow> string \<Rightarrow> ('s, 'r) im \<Rightarrow> im_error option \<times> ('s, 'r) im" where
  "deleteIndex env name c =
     (let purge = (\<lambda>i c. case ie_remove env (im_heap c i) of
              Some e \<Rightarrow> (Some (ErrOther e), c)
            | None \<Rightarrow> (case ie_delete env name of
                 Some e \<Rightarrow> (Some (ErrOther e), c)
               | None \<Rightarrow> (None, c\<lparr>im_meta := (im_meta c)(name := None)\<rparr>)))
      in case map_of (im_cache c) name of
           Some i \<Rightarrow> (case ie_close env i of Some e \<Rightarrow> (Some (ErrOther e), c) | None \<Rightarrow> purge i c)
         | None \<Rightarrow>
             (case getIndex env name c of
                (Inl e, c') \<Rightarrow> (if e = ErrIndexNotFound then None else Some e, c')
              | (Inr i, c') \<Rightarrow> purge i c'))"

text \<open>The sections under the lock: the start of an operation, and its end.\<close>

datatype look = Cached nat | Waits nat | Starts nat

definition mgr_claim :: "string \<Rightarrow> ('s, 'r) im \<Rightarrow> look \<times> ('s, 'r) im" where
  "mgr_claim name c =
     (case map_of (im_ready c) name of
        Some ch \<Rightarrow> (Waits ch, c)
      | None \<Rightarrow> (Starts (im_chan c), c\<lparr>im_ready := aput name (im_chan c) (im_ready c), im_chan := im_chan c + 1\<rparr>))"

definition mgr_lookup :: "string \<Rightarrow> ('s, 'r) im \<Rightarrow> look \<times> ('s, 'r) im" where
  "mgr_lookup name c = (case map_of (im_cache c) name of Some i \<Rightarrow> (Cached i, c) | None \<Rightarrow> mgr_claim name c)"

definition mgr_release :: "string \<Rightarrow> nat \<Rightarrow> ('s, 'r) im \<Rightarrow> ('s, 'r) im" where
  "mgr_release name ch c = c\<lparr>im_closed := ch # im_closed c, im_ready := adel name (im_ready c)\<rparr>"

definition get_end :: "string \<Rightarrow> nat \<Rightarrow> im_error + nat \<Rightarrow> ('s, 'r) im \<Rightarrow> ('s, 'r) im" where
  "get_end name ch r c =
     (case r of
        Inl e \<Rightarrow> (if e = Panicked then c else mgr_release name ch c)
      | Inr i \<Rightarrow> (mgr_release name ch c)\<lparr>im_cache := aput name i (im_cache c)\<rparr>)"

definition store_end :: "string \<Rightarrow> nat \<Rightarrow> nat \<Rightarrow> im_error option \<Rightarrow> ('s, 'r) im \<Rightarrow> ('s, 'r) im" where
  "store_end name ch i e c =
     (if e = None \<and> map_of (im_cache c) name \<noteq> None \<and> map_of (im_cache c) name \<noteq> Some i
      then (mgr_release name ch c)\<lparr>im_cache := adel name (im_cache c)\<rparr> else mgr_release name ch c)"

definition delete_end :: "string \<Rightarrow> nat \<Rightarrow> im_error option \<Rightarrow> ('s, 'r) im \<Rightarrow> ('s, 'r) im" where
  "delete_end name ch e c =
     (if e = Some Panicked then c
      else if e = None then (mgr_release name ch c)\<lparr>im_cache := adel name (im_cache c)\<rparr> else mgr_release name ch c)"

definition GetCached :: "('s, 'r) im \<Rightarrow> nat list" where
  "GetCached c = map snd (im_cache c)"

definition DropCache :: "string \<Rightarrow> ('s, 'r) im \<Rightarrow> nat option \<times> ('s, 'r) im" where
  "DropCache name c = (map_of (im_cache c) name, c\<lparr>im_cache := adel name (im_cache c)\<rparr>)"

text \<open>Operations without interleaving; \<open>None\<close> when they have to wait.\<close>

definition Get :: "('s, 'r) im_env \<Rightarrow> bool \<Rightarrow> string \<Rightarrow> ('s, 'r) im \<Rightarrow> ((im_error + nat) \<times> ('s, 'r) im) option" where
  "Get env assigned name c =
     (if \<not> assigned then Some (Inl ErrIndexServerMismatch, c)
      else case mgr_lookup name c of
          (Cached i, c1) \<Rightarrow> Some (Inr i, c1)
        | (Waits _, c1) \<Rightarrow> None
        | (Starts ch, c1) \<Rightarrow> (case getIndex env name c1 of (r, c2) \<Rightarrow> Some (r, get_end name ch r c2)))"

definition GetOrCreate :: "('s, 'r) im_env \<Rightarrow> bool \<Rightarrow> string \<Rightarrow> ('s, 'r) im \<Rightarrow> ((im_error + nat \<times> bool) \<times> ('s, 'r) im) option" where
  "GetOrCreate env assigned name c =
     (if \<not> assigned then Some (Inl ErrIndexServerMismatch, c)
      else case mgr_lookup name c of
          (Cached i, c1) \<Rightarrow> Some (Inr (i, True), c1)
        | (Waits _, c1) \<Rightarrow> None
        | (Starts ch, c1) \<Rightarrow> (case getOrCreateIndex env name c1 of (r, c2) \<Rightarrow> Some (r, get_end name ch (map_sum id fst r) c2)))"

definition Store :: "('s, 'r) im_env \<Rightarrow> nat \<Rightarrow> ('s, 'r) im \<Rightarrow> (im_error option \<times> ('s, 'r) im) option" where
  "Store env i c =
     (let name = ix_Name (im_heap c i) in
      case mgr_claim name c of
        (Starts ch, c1) \<Rightarrow> (case storeIndex env i c1 of (e, c2) \<Rightarrow> Some (e, store_end name ch i e c2))
      | _ \<Rightarrow> None)"

definition Delete :: "('s, 'r) im_env \<Rightarrow> bool \<Rightarrow> string \<Rightarrow> ('s, 'r) im \<Rightarrow> (im_error option \<times> ('s, 'r) im) option" where
  "Delete env assigned name c =
     (if \<not> assigned then Some (Some ErrIndexServerMismatch, c)
      else case mgr_claim name c of
          (Starts ch, c1) \<Rightarrow> (case deleteIndex env name c1 of (e, c2) \<Rightarrow> Some (e, delete_end name ch e c2))
        | _ \<Rightarrow> None)"

section \<open>Interleaved operations\<close>

text \<open>Where a goroutine is: between the two sections under the lock, before or after its access to the store.
  A goroutine whose access panicked stays in flight.\<close>

datatype im_pc = Free
  | Getting string nat
  | Creating string nat
  | Got string nat "im_error + nat"
  | Storing nat string nat
  | Stored nat string nat "im_error option"
  | Deleting string nat
  | Deleted string nat "im_error option"

fun flight :: "im_pc \<Rightarrow> (string \<times> nat) option" where
  "flight Free = None"
| "flight (Getting n ch) = Some (n, ch)"
| "flight (Creating n ch) = Some (n, ch)"
| "flight (Got n ch r) = Some (n, ch)"
| "flight (Storing i n ch) = Some (n, ch)"
| "flight (Stored i n ch e) = Some (n, ch)"
| "flight (Deleting n ch) = Some (n, ch)"
| "flight (Deleted n ch e) = Some (n, ch)"

text \<open>\<^verbatim>\<open>NewIndex\<close> gives the index the name it is called with. The members of an index other than its name change at any time.\<close>

definition names_ok :: "('s, 'r) im_env \<Rightarrow> bool" where
  "names_ok env \<longleftrightarrow> (\<forall>n d. ie_new env n = Inr d \<longrightarrow> ix_Name d = n)"

inductive im_reach :: "('t \<Rightarrow> im_pc) \<Rightarrow> ('s, 'r) im \<Rightarrow> bool" where
  im_init: "im_cache c = [] \<Longrightarrow> im_ready c = [] \<Longrightarrow> im_closed c = [] \<Longrightarrow> im_reach (\<lambda>_. Free) c"
| im_get: "im_reach pc c \<Longrightarrow> pc t = Free \<Longrightarrow> mgr_lookup n c = (Starts ch, c') \<Longrightarrow> p \<in> {Getting n ch, Creating n ch} \<Longrightarrow> im_reach (pc(t := p)) c'"
| im_load: "im_reach pc c \<Longrightarrow> pc t = Getting n ch \<Longrightarrow> getIndex env n c = (r, c') \<Longrightarrow> im_reach (pc(t := Got n ch r)) c'"
| im_create: "im_reach pc c \<Longrightarrow> pc t = Creating n ch \<Longrightarrow> names_ok env \<Longrightarrow> getOrCreateIndex env n c = (r, c') \<Longrightarrow>
    im_reach (pc(t := Got n ch (map_sum id fst r))) c'"
| im_got: "im_reach pc c \<Longrightarrow> pc t = Got n ch r \<Longrightarrow> r \<noteq> Inl Panicked \<Longrightarrow> im_reach (pc(t := Free)) (get_end n ch r c)"
| im_claim: "im_reach pc c \<Longrightarrow> pc t = Free \<Longrightarrow> mgr_claim n c = (Starts ch, c') \<Longrightarrow>
    p = Deleting n ch \<or> (\<exists>i. p = Storing i n ch \<and> i < im_next c \<and> ix_Name (im_heap c i) = n) \<Longrightarrow> im_reach (pc(t := p)) c'"
| im_store: "im_reach pc c \<Longrightarrow> pc t = Storing i n ch \<Longrightarrow> storeIndex env i c = (e, c') \<Longrightarrow> im_reach (pc(t := Stored i n ch e)) c'"
| im_stored: "im_reach pc c \<Longrightarrow> pc t = Stored i n ch e \<Longrightarrow> im_reach (pc(t := Free)) (store_end n ch i e c)"
| im_delete: "im_reach pc c \<Longrightarrow> pc t = Deleting n ch \<Longrightarrow> deleteIndex env n c = (e, c') \<Longrightarrow> im_reach (pc(t := Deleted n ch e)) c'"
| im_deleted: "im_reach pc c \<Longrightarrow> pc t = Deleted n ch e \<Longrightarrow> e \<noteq> Some Panicked \<Longrightarrow> im_reach (pc(t := Free)) (delete_end n ch e c)"
| im_drop: "im_reach pc c \<Longrightarrow> im_reach pc (snd (DropCache n c))"
| im_change: "im_reach pc c \<Longrightarrow> ix_Name d = ix_Name (im_heap c i) \<Longrightarrow> im_reach pc (c\<lparr>im_heap := (im_heap c)(i := d)\<rparr>)"

section \<open>One operation per name\<close>

text \<open>What single flight promises: an operation in flight owns the channel of its name, channels have one
  owner, and a channel that others wait for is open and owned.\<close>

locale single_flight =
  fixes ok :: "'st \<Rightarrow> bool"
    and fly :: "'st \<Rightarrow> 't \<Rightarrow> ('n \<times> nat) option"
    and ready :: "'st \<Rightarrow> ('n \<times> nat) list"
    and closed :: "'st \<Rightarrow> nat set"
  assumes owns: "ok s \<Longrightarrow> fly s t = Some (n, ch) \<Longrightarrow> map_of (ready s) n = Some ch"
    and one_owner: "ok s \<Longrightarrow> fly s t = Some (n, ch) \<Longrightarrow> fly s t' = Some (n', ch) \<Longrightarrow> t = t'"
    and owned: "ok s \<Longrightarrow> map_of (ready s) n = Some ch \<Longrightarrow> ch \<notin> closed s \<and> (\<exists>t. fly s t = Some (n, ch))"
begin

lemma exclusive: "ok s \<Longrightarrow> fly s t = Some (n, ch) \<Longrightarrow> fly s t' = Some (n, ch') \<Longrightarrow> t = t'"
  using owns one_owner by (metis option.inject)

lemma waits_for: "ok s \<Longrightarrow> map_of (ready s) n = Some ch \<Longrightarrow> \<exists>!t. fly s t = Some (n, ch)"
  using owned exclusive by metis

end

definition flight_inv :: "('t \<Rightarrow> im_pc) \<Rightarrow> ('s, 'r) im \<Rightarrow> bool" where
  "flight_inv pc c \<longleftrightarrow>
     (\<forall>t n ch. flight (pc t) = Some (n, ch) \<longrightarrow> map_of (im_ready c) n = Some ch \<and> ch < im_chan c)
     \<and> (\<forall>t t' n n' ch. flight (pc t) = Some (n, ch) \<longrightarrow> flight (pc t') = Some (n', ch) \<longrightarrow> t = t')
     \<and> (\<forall>n ch. map_of (im_ready c) n = Some ch \<longrightarrow> ch \<notin> set (im_closed c) \<and> (\<exists>t. flight (pc t) = Some (n, ch)))
     \<and> (\<forall>ch\<in>set (im_closed c). ch < im_chan c)"

lemma flight_invD:
  assumes "flight_inv pc c"
  shows "flight (pc t) = Some (n, ch) \<Longrightarrow> map_of (im_ready c) n = Some ch" "flight (pc t) = Some (n, ch) \<Longrightarrow> ch < im_chan c"
    "flight (pc t) = Some (n, ch) \<Longrightarrow> flight (pc t') = Some (n', ch) \<Longrightarrow> t = t'"
    "map_of (im_ready c) n = Some ch \<Longrightarrow> ch \<notin> set (im_closed c)" "map_of (im_ready c) n = Some ch \<Longrightarrow> \<exists>t. flight (pc t) = Some (n, ch)"
    "ch \<in> set (im_closed c) \<Longrightarrow> ch < im_chan c"
  using assms unfolding flight_inv_def by blast+

lemma flight_invI:
  assumes "\<And>t n ch. flight (pc t) = Some (n, ch) \<Longrightarrow> map_of (im_ready c) n = Some ch \<and> ch < im_chan c"
    and "\<And>t t' n n' ch. flight (pc t) = Some (n, ch) \<Longrightarrow> flight (pc t') = Some (n', ch) \<Longrightarrow> t = t'"
    and "\<And>n ch. map_of (im_ready c) n = Some ch \<Longrightarrow> ch \<notin> set (im_closed c) \<and> (\<exists>t. flight (pc t) = Some (n, ch))"
    and "\<And>ch. ch \<in> set (im_closed c) \<Longrightarrow> ch < im_chan c"
  shows "flight_inv pc c"
  using assms unfolding flight_inv_def by blast

lemma flight_claim:
  assumes inv: "flight_inv pc c" and t: "pc t = Free" and c: "mgr_claim n c = (Starts ch, c')" and p: "flight p = Some (n, ch)"
  shows "flight_inv (pc(t := p)) c'"
proof -
  from c have c': "map_of (im_ready c) n = None" "ch = im_chan c" "im_ready c' = aput n ch (im_ready c)" "im_chan c' = im_chan c + 1" "im_closed c' = im_closed c"
    by (auto simp: mgr_claim_def split: option.splits)
  have new: "flight ((pc(t := p)) u) = (if u = t then Some (n, ch) else flight (pc u))" for u using p by simp
  have old: "u \<noteq> t" "m \<noteq> n" "k < ch" if "flight (pc u) = Some (m, k)" for u m k
    using that t c'(1,2) flight_invD(1,2) [OF inv that] by auto
  show ?thesis
  proof (rule flight_invI, unfold new)
    show "map_of (im_ready c') m = Some k \<and> k < im_chan c'" if "(if u = t then Some (n, ch) else flight (pc u)) = Some (m, k)" for u m k
      using that old [of u m k] flight_invD(1,2) [OF inv, of u m k] by (auto simp: c' split: if_splits)
    show "u = u'" if "(if u = t then Some (n, ch) else flight (pc u)) = Some (m, k)" "(if u' = t then Some (n, ch) else flight (pc u')) = Some (m', k)" for u u' m m' k
      using that old(3) [of u m k] old(3) [of u' m' k] flight_invD(3) [OF inv, of u m k u' m'] by (auto split: if_splits)
    show "k \<notin> set (im_closed c') \<and> (\<exists>u. (if u = t then Some (n, ch) else flight (pc u)) = Some (m, k))" if "map_of (im_ready c') m = Some k" for m k
    proof (cases "m = n")
      case True
      with that show ?thesis using flight_invD(6) [OF inv, of ch] by (auto simp: c')
    next
      case False
      with that have "map_of (im_ready c) m = Some k" by (simp add: c'(3))
      from flight_invD(4,5) [OF inv this] old(1) show ?thesis by (auto simp: c'(5))
    qed
    show "k < im_chan c'" if "k \<in> set (im_closed c')" for k using that flight_invD(6) [OF inv, of k] by (simp add: c')
  qed
qed

lemma flight_step:
  assumes "flight_inv pc c" and "flight p = flight (pc t)" and "im_ready c' = im_ready c" "im_chan c' = im_chan c" "im_closed c' = im_closed c"
  shows "flight_inv (pc(t := p)) c'"
proof -
  have "flight ((pc(t := p)) u) = flight (pc u)" for u using assms(2) by simp
  with assms(1) show ?thesis unfolding flight_inv_def assms(3-5) by simp
qed

lemma flight_release:
  assumes inv: "flight_inv pc c" and t: "flight (pc t) = Some (n, ch)" and c': "im_ready c' = adel n (im_ready c)" "im_chan c' = im_chan c" "im_closed c' = ch # im_closed c"
  shows "flight_inv (pc(t := Free)) c'"
proof -
  have new: "flight ((pc(t := Free)) u) = (if u = t then None else flight (pc u))" for u by simp
  have old: "m \<noteq> n" "k \<noteq> ch" if "flight (pc u) = Some (m, k)" "u \<noteq> t" for u m k
    using that t flight_invD(1) [OF inv t] flight_invD(1) [OF inv that(1)] flight_invD(3) [OF inv that(1), of t n] by auto
  show ?thesis
  proof (rule flight_invI, unfold new)
    show "map_of (im_ready c') m = Some k \<and> k < im_chan c'" if "(if u = t then None else flight (pc u)) = Some (m, k)" for u m k
      using that old(1) [of u m k] flight_invD(1,2) [OF inv, of u m k] by (auto simp: c' split: if_splits)
    show "u = u'" if "(if u = t then None else flight (pc u)) = Some (m, k)" "(if u' = t then None else flight (pc u')) = Some (m', k)" for u u' m m' k
      using that flight_invD(3) [OF inv, of u m k u' m'] by (auto split: if_splits)
    show "k \<notin> set (im_closed c') \<and> (\<exists>u. (if u = t then None else flight (pc u)) = Some (m, k))" if "map_of (im_ready c') m = Some k" for m k
    proof -
      from that have m: "m \<noteq> n" "map_of (im_ready c) m = Some k" by (auto simp: c'(1) split: if_splits)
      from flight_invD(5) [OF inv m(2)] obtain u where u: "flight (pc u) = Some (m, k)" by blast
      with t m(1) have "u \<noteq> t" by auto
      with u old(2) [OF u] flight_invD(4) [OF inv m(2)] show ?thesis by (auto simp: c'(3))
    qed
    show "k < im_chan c'" if "k \<in> set (im_closed c')" for k using that flight_invD(6) [OF inv, of k] flight_invD(2) [OF inv t] by (auto simp: c')
  qed
qed

section \<open>Cached indexes are stored\<close>

definition meta_inv :: "('t \<Rightarrow> im_pc) \<Rightarrow> ('s, 'r) im \<Rightarrow> bool" where
  "meta_inv pc c \<longleftrightarrow>
     (\<forall>n i. map_of (im_cache c) n = Some i \<longrightarrow> im_meta c n \<noteq> None \<or> (\<exists>t ch. pc t = Deleted n ch None))
     \<and> (\<forall>t n ch i. pc t = Got n ch (Inr i) \<longrightarrow> im_meta c n \<noteq> None)
     \<and> (\<forall>t i n ch. pc t = Storing i n ch \<longrightarrow> i < im_next c \<and> ix_Name (im_heap c i) = n)"

lemma meta_invD:
  assumes "meta_inv pc c"
  shows "map_of (im_cache c) n = Some i \<Longrightarrow> im_meta c n \<noteq> None \<or> (\<exists>t ch. pc t = Deleted n ch None)"
    "pc t = Got n ch (Inr i) \<Longrightarrow> im_meta c n \<noteq> None"
    "pc t = Storing i n ch \<Longrightarrow> i < im_next c" "pc t = Storing i n ch \<Longrightarrow> ix_Name (im_heap c i) = n"
  using assms unfolding meta_inv_def by blast+

text \<open>An access to the store on behalf of the name \<open>n\<close>.\<close>

definition touches :: "string \<Rightarrow> ('s, 'r) im \<Rightarrow> ('s, 'r) im \<Rightarrow> bool" where
  "touches n c c' \<longleftrightarrow> im_cache c' = im_cache c \<and> im_ready c' = im_ready c \<and> im_chan c' = im_chan c \<and> im_closed c' = im_closed c
     \<and> (\<forall>m. m \<noteq> n \<longrightarrow> im_meta c' m = im_meta c m) \<and> im_next c \<le> im_next c' \<and> (\<forall>i<im_next c. ix_Name (im_heap c' i) = ix_Name (im_heap c i))"

lemma formatIndex_touches:
  "formatIndex env d c = (r, c') \<Longrightarrow> touches n c c' \<and> im_meta c' = im_meta c"
  by (auto simp: formatIndex_def alloc_def touches_def split: option.splits if_splits)

lemma getIndex_touches:
  assumes "getIndex env n c = (r, c')"
  shows "touches n c c' \<and> im_meta c' = im_meta c \<and> (\<forall>i. r = Inr i \<longrightarrow> im_meta c n \<noteq> None)"
  using assms formatIndex_touches [of env _ c r c' n]
  by (auto simp: getIndex_def touches_def split: option.splits)

lemma storeIndex_touches:
  assumes "storeIndex env i c = (e, c')" and "ix_Name (im_heap c i) = n"
  shows "touches n c c' \<and> (im_meta c n \<noteq> None \<longrightarrow> im_meta c' n \<noteq> None) \<and> (e = None \<longrightarrow> im_meta c' n \<noteq> None)"
  using assms by (auto simp: storeIndex_def checkIndex_def check_meta_def touches_def Let_def split: option.splits)

lemma touches_trans: "touches n c c' \<Longrightarrow> touches n c' c'' \<Longrightarrow> touches n c c''"
  unfolding touches_def by auto

lemma getOrCreateIndex_touches:
  assumes "getOrCreateIndex env n c = (r, c')" and "names_ok env"
  shows "touches n c c' \<and> (im_meta c n \<noteq> None \<longrightarrow> im_meta c' n \<noteq> None) \<and> (\<forall>x. r = Inr x \<longrightarrow> im_meta c' n \<noteq> None)"
proof (cases "ie_get env n = None \<and> im_meta c n = None \<and> (\<exists>d. ie_new env n = Inr d)")
  case True
  then obtain d where d: "ie_new env n = Inr d" "ix_Name d = n" using assms(2) by (auto simp: names_ok_def)
  let ?c = "snd (alloc d c)"
  obtain e c2 where e: "storeIndex env (im_next c) ?c = (e, c2)" by (cases "storeIndex env (im_next c) ?c")
  have "touches n c ?c" by (auto simp: touches_def alloc_def)
  moreover have "touches n ?c c2 \<and> (e = None \<longrightarrow> im_meta c2 n \<noteq> None)"
    using storeIndex_touches [OF e] d(2) by (simp add: alloc_def)
  moreover have "c' = c2" "\<forall>x. r = Inr x \<longrightarrow> e = None"
    using assms(1) True d e by (auto simp: getOrCreateIndex_def alloc_def split: option.splits)
  ultimately show ?thesis using True touches_trans [of n c ?c c2] by auto
next
  case False
  have "touches n c c" by (simp add: touches_def)
  with False assms(1) formatIndex_touches [of env _ c _ c' n] show ?thesis
    by (auto simp: getOrCreateIndex_def split: option.splits sum.splits prod.splits)
qed

lemma deleteIndex_touches:
  assumes "deleteIndex env n c = (e, c')"
  shows "touches n c c' \<and> (e \<noteq> None \<longrightarrow> im_meta c' = im_meta c)"
proof -
  obtain r c1 where g: "getIndex env n c = (r, c1)" by (cases "getIndex env n c")
  have "touches n c c" by (simp add: touches_def)
  with assms getIndex_touches [OF g] show ?thesis
    by (auto simp: deleteIndex_def g Let_def touches_def split: option.splits sum.splits if_splits)
qed

lemma meta_step:
  assumes inv: "flight_inv pc c" "meta_inv pc c" and t: "flight (pc t) = Some (n, ch)" "\<And>m k e. pc t \<noteq> Deleted m k e" and p: "flight p = Some (n, ch)"
    and c': "touches n c c'" and A: "im_meta c n \<noteq> None \<longrightarrow> im_meta c' n \<noteq> None \<or> p = Deleted n ch None"
    and B: "\<And>i. p = Got n ch (Inr i) \<Longrightarrow> im_meta c' n \<noteq> None" and C: "\<And>i. p \<noteq> Storing i n ch"
  shows "meta_inv (pc(t := p)) c'"
proof -
  have excl: "m \<noteq> n" if "flight (pc u) = Some (m, k)" "u \<noteq> t" for u m k
    using that t(1) flight_invD(1) [OF inv(1) t(1)] flight_invD(1) [OF inv(1) that(1)] flight_invD(3) [OF inv(1) that(1), of t n] by auto
  have meta: "m \<noteq> n \<Longrightarrow> im_meta c' m = im_meta c m" for m using c' by (simp add: touches_def)
  show ?thesis
    unfolding meta_inv_def
  proof (intro conjI allI impI)
    fix m i assume m: "map_of (im_cache c') m = Some i"
    then have "map_of (im_cache c) m = Some i" using c' by (simp add: touches_def)
    then consider "im_meta c m \<noteq> None" | u k where "pc u = Deleted m k None" using inv(2) unfolding meta_inv_def by blast
    then show "im_meta c' m \<noteq> None \<or> (\<exists>u k. (pc(t := p)) u = Deleted m k None)"
    proof cases
      case 1
      with A meta [of m] show ?thesis by (cases "m = n") auto
    next
      case 2
      with t(2) have "u \<noteq> t" by auto
      with 2 show ?thesis by auto
    qed
  next
    fix u m k i assume "(pc(t := p)) u = Got m k (Inr i)"
    then show "im_meta c' m \<noteq> None"
      using B [of i] p excl [of u m k] meta [of m] meta_invD(2) [OF inv(2), of u m k i] by (cases "u = t") auto
  next
    fix u i m k assume s: "(pc(t := p)) u = Storing i m k"
    then have "u \<noteq> t" using C p by (auto split: if_splits)
    with s have "i < im_next c" "ix_Name (im_heap c i) = m" using meta_invD(3,4) [OF inv(2), of u i m k] by simp_all
    with c' show "i < im_next c'" "ix_Name (im_heap c' i) = m" by (auto simp: touches_def)
  qed
qed

lemma meta_end:
  assumes "meta_inv pc c" and "\<And>m k. pc t = Deleted m k None \<Longrightarrow> map_of (im_cache c') m = None" and "\<And>i m k. p \<noteq> Got m k (Inr i)"
    and "\<And>i m k. p = Storing i m k \<Longrightarrow> i < im_next c \<and> ix_Name (im_heap c i) = m"
    and "\<And>m i. map_of (im_cache c') m = Some i \<Longrightarrow> map_of (im_cache c) m = Some i \<or> im_meta c m \<noteq> None"
    and "im_meta c' = im_meta c" "im_heap c' = im_heap c" "im_next c' = im_next c"
  shows "meta_inv (pc(t := p)) c'"
  unfolding meta_inv_def assms(6-8)
proof (intro conjI allI impI)
  fix m i assume m: "map_of (im_cache c') m = Some i"
  from assms(5) [OF m] consider "im_meta c m \<noteq> None" | u k where "pc u = Deleted m k None" using assms(1) unfolding meta_inv_def by blast
  then show "im_meta c m \<noteq> None \<or> (\<exists>u k. (pc(t := p)) u = Deleted m k None)"
  proof cases
    case 2
    with assms(2) [of m k] m have "u \<noteq> t" by auto
    with 2 show ?thesis by auto
  qed simp
next
  fix u m k i assume "(pc(t := p)) u = Got m k (Inr i)"
  with assms(3) [of m k i] meta_invD(2) [OF assms(1), of u m k i] show "im_meta c m \<noteq> None" by (simp split: if_splits)
next
  fix u i m k assume "(pc(t := p)) u = Storing i m k"
  with assms(4) [of i m k] meta_invD(3,4) [OF assms(1), of u i m k] show "i < im_next c" "ix_Name (im_heap c i) = m" by (simp_all split: if_splits)
qed

definition im_inv :: "('t \<Rightarrow> im_pc) \<Rightarrow> ('s, 'r) im \<Rightarrow> bool" where
  "im_inv pc c \<longleftrightarrow> flight_inv pc c \<and> meta_inv pc c"

text \<open>A section under the lock that starts an operation, an access to the store, a section that ends it.\<close>

lemma im_inv_claim:
  assumes "im_inv pc c" and "pc t = Free" and "mgr_claim n c = (Starts ch, c')" and "flight p = Some (n, ch)"
    and "\<And>i m k. p \<noteq> Got m k (Inr i)" and "\<And>i m k. p = Storing i m k \<Longrightarrow> i < im_next c \<and> ix_Name (im_heap c i) = m"
  shows "im_inv (pc(t := p)) c'"
proof -
  from assms(3) have c': "im_cache c' = im_cache c" "im_meta c' = im_meta c" "im_heap c' = im_heap c" "im_next c' = im_next c"
    by (auto simp: mgr_claim_def split: option.splits)
  from assms(1) have "flight_inv pc c" "meta_inv pc c" by (simp_all add: im_inv_def)
  from flight_claim [OF this(1) assms(2-4)] meta_end [OF this(2) _ assms(5,6) _ c'(2-4), of t] show ?thesis
    by (simp add: im_inv_def assms(2) c'(1))
qed

lemma im_inv_step:
  assumes "im_inv pc c" and "flight (pc t) = Some (n, ch)" and "\<And>m k e. pc t \<noteq> Deleted m k e" and "flight p = Some (n, ch)"
    and "touches n c c'" and "im_meta c n \<noteq> None \<longrightarrow> im_meta c' n \<noteq> None \<or> p = Deleted n ch None"
    and "\<And>i. p = Got n ch (Inr i) \<Longrightarrow> im_meta c' n \<noteq> None" and "\<And>i. p \<noteq> Storing i n ch"
  shows "im_inv (pc(t := p)) c'"
proof -
  from assms(1) have inv: "flight_inv pc c" "meta_inv pc c" by (simp_all add: im_inv_def)
  from meta_step [OF inv assms(2-8)] flight_step [OF inv(1), of p t c'] assms(2,4,5) show ?thesis
    by (simp add: im_inv_def touches_def)
qed

lemma im_inv_end:
  assumes "im_inv pc c" and "flight (pc t) = Some (n, ch)" and "c' = (mgr_release n ch c)\<lparr>im_cache := l\<rparr>"
    and "\<And>m k. pc t = Deleted m k None \<Longrightarrow> map_of l m = None"
    and "\<And>m i. map_of l m = Some i \<Longrightarrow> map_of (im_cache c) m = Some i \<or> im_meta c m \<noteq> None"
  shows "im_inv (pc(t := Free)) c'"
proof -
  from assms(1) have inv: "flight_inv pc c" "meta_inv pc c" by (simp_all add: im_inv_def)
  have "flight_inv (pc(t := Free)) c'" by (rule flight_release [OF inv(1) assms(2)]) (simp_all add: assms(3) mgr_release_def)
  moreover have "meta_inv (pc(t := Free)) c'" by (rule meta_end [OF inv(2)]) (use assms(4,5) in \<open>simp_all add: assms(3) mgr_release_def\<close>)
  ultimately show ?thesis by (simp add: im_inv_def)
qed

lemma im_inv_got:
  assumes "im_inv pc c" and "pc t = Got n ch r" and "r \<noteq> Inl Panicked"
  shows "im_inv (pc(t := Free)) (get_end n ch r c)"
proof -
  define l where "l = (case r of Inl e \<Rightarrow> im_cache c | Inr i \<Rightarrow> aput n i (im_cache c))"
  show ?thesis
  proof (rule im_inv_end [OF assms(1), of t n ch _ l])
    show "get_end n ch r c = (mgr_release n ch c)\<lparr>im_cache := l\<rparr>"
      using assms(3) by (simp add: get_end_def l_def mgr_release_def split: sum.split)
    show "map_of (im_cache c) m = Some i \<or> im_meta c m \<noteq> None" if "map_of l m = Some i" for m i
      using that assms(1,2) meta_invD(2) [of pc c t n ch] by (auto simp: l_def im_inv_def split: sum.splits if_splits)
  qed (use assms(2) in simp_all)
qed

lemma im_inv_stored:
  assumes "im_inv pc c" and "pc t = Stored i n ch e"
  shows "im_inv (pc(t := Free)) (store_end n ch i e c)"
proof -
  define l where "l = (if e = None \<and> map_of (im_cache c) n \<noteq> None \<and> map_of (im_cache c) n \<noteq> Some i then adel n (im_cache c) else im_cache c)"
  have "store_end n ch i e c = (mgr_release n ch c)\<lparr>im_cache := l\<rparr>" by (simp add: store_end_def l_def mgr_release_def)
  with assms(1) show ?thesis by (intro im_inv_end [of pc c t n ch _ l]) (use assms(2) in \<open>auto simp: l_def split: if_splits\<close>)
qed

lemma im_inv_deleted:
  assumes "im_inv pc c" and "pc t = Deleted n ch e" and "e \<noteq> Some Panicked"
  shows "im_inv (pc(t := Free)) (delete_end n ch e c)"
proof -
  define l where "l = (if e = None then adel n (im_cache c) else im_cache c)"
  have "delete_end n ch e c = (mgr_release n ch c)\<lparr>im_cache := l\<rparr>" using assms(3) by (simp add: delete_end_def l_def mgr_release_def)
  with assms(1) show ?thesis by (intro im_inv_end [of pc c t n ch _ l]) (use assms(2) in \<open>auto simp: l_def split: if_splits\<close>)
qed

lemma im_reach_inv: "im_reach pc c \<Longrightarrow> im_inv pc c"
proof (induction rule: im_reach.induct)
  case (im_init c)
  then show ?case by (simp add: im_inv_def flight_inv_def meta_inv_def)
next
  case (im_get pc c t n ch c' p)
  then have "mgr_claim n c = (Starts ch, c')" by (simp add: mgr_lookup_def split: option.splits)
  with im_get.IH im_get.hyps(2) show ?case by (rule im_inv_claim) (use im_get.hyps(4) in auto)
next
  case (im_load pc c t n ch env r c')
  show ?case by (rule im_inv_step [of pc c t n ch]) (use im_load getIndex_touches [OF im_load.hyps(3)] in auto)
next
  case (im_create pc c t n ch env r c')
  show ?case by (rule im_inv_step [of pc c t n ch])
    (use im_create getOrCreateIndex_touches [OF im_create.hyps(4,3)] in \<open>auto simp: map_sum_def split: sum.splits\<close>)
next
  case (im_got pc c t n ch r)
  then show ?case by (intro im_inv_got)
next
  case (im_claim pc c t n ch c' p)
  from im_claim.IH im_claim.hyps(2,3) show ?case by (rule im_inv_claim) (use im_claim.hyps(4) in auto)
next
  case (im_store pc c t i n ch env e c')
  then have "ix_Name (im_heap c i) = n" using meta_invD(4) [of pc c t i n ch] by (simp add: im_inv_def)
  note g = storeIndex_touches [OF im_store.hyps(3) this]
  show ?case by (rule im_inv_step [of pc c t n ch]) (use im_store g in auto)
next
  case (im_stored pc c t i n ch e)
  then show ?case by (intro im_inv_stored)
next
  case (im_delete pc c t n ch env e c')
  show ?case by (rule im_inv_step [of pc c t n ch]) (use im_delete deleteIndex_touches [OF im_delete.hyps(3)] in auto)
next
  case (im_deleted pc c t n ch e)
  then show ?case by (intro im_inv_deleted)
next
  case (im_drop pc c n)
  then show ?case by (auto simp: DropCache_def im_inv_def flight_inv_def meta_inv_def split: if_splits)
next
  case (im_change pc c d i)
  then show ?case by (auto simp: im_inv_def flight_inv_def meta_inv_def)
qed

interpretation im_flight: single_flight "\<lambda>(pc, c). im_reach pc c" "\<lambda>(pc, c) t. flight (pc t)" "\<lambda>(pc, c). im_ready c" "\<lambda>(pc, c). set (im_closed c)"
  by unfold_locales (auto simp: im_inv_def dest!: im_reach_inv intro: flight_invD dest: flight_invD(4))

section \<open>Operations in sequence\<close>

text \<open>A shard that declares as many second-level shards as it has is loaded unchanged. One that declares more
  is loaded with missing ones, and cannot be loaded again once it is stored like that.\<close>

lemma format_shard_same:
  assumes "sm_ShardNum s = int (length (sm_Shards s))" and "None \<notin> set (sm_Shards s)"
  shows "format_shard (Some s) = Some s"
  using assms by (simp add: format_shard_def)

lemma format_shard_padded:
  assumes "format_shard (Some s) = Some s'" and "int (length (sm_Shards s)) < sm_ShardNum s"
  shows "format_shard (Some s') = None"
  using assms by (auto simp: format_shard_def split: if_splits)

lemma GetOrCreate_Get:
  assumes "GetOrCreate env True n c = Some (Inr (i, b), c')"
  shows "Get env' True n c' = Some (Inr i, c')"
proof -
  from assms have "map_of (im_cache c') n = Some i"
    by (auto simp: GetOrCreate_def mgr_lookup_def mgr_claim_def get_end_def split: option.splits prod.splits sum.splits)
  then show ?thesis by (simp add: Get_def mgr_lookup_def)
qed

lemma deleteIndex_gone:
  assumes "deleteIndex env n c = (None, c')"
  shows "im_meta c' n = None"
proof -
  have f: "r \<noteq> Inl ErrIndexNotFound" if "formatIndex env d c = (r, c1)" for d r c1
    using that by (auto simp: formatIndex_def alloc_def split: option.splits if_splits)
  have "im_meta c n = None \<and> c1 = c" if "getIndex env n c = (Inl ErrIndexNotFound, c1)" for c1
    using that f by (auto simp: getIndex_def split: option.splits)
  with assms show ?thesis
    by (auto simp: deleteIndex_def Let_def split: option.splits sum.splits prod.splits if_splits)
qed

lemma Delete_Get:
  assumes "Delete env True n c = Some (None, c')" and "ie_get env' n = None"
  shows "\<exists>c''. Get env' True n c' = Some (Inl ErrIndexNotFound, c'')"
proof -
  from assms(1) obtain ch c1 c2 where d: "deleteIndex env n c1 = (None, c2)" "c' = delete_end n ch None c2"
    by (auto simp: Delete_def split: prod.splits look.splits)
  from deleteIndex_gone [OF d(1)] assms(2) show ?thesis
    by (simp add: d(2) delete_end_def mgr_release_def Get_def mgr_lookup_def mgr_claim_def getIndex_def)
qed

section \<open>Single flight\<close>

text \<open>
  C19: However goroutines interleave in the index manager, at most one is in flight for a name (it reads,
  writes or deletes the stored metadata of that index); a channel that others wait for is open and has
  exactly one goroutine in flight that owns it; and an index in the cache is in the metadata store, unless
  its deletion has just succeeded and its cache entry is about to go.
\<close>

theorem index_single_flight:
  assumes "im_reach pc c"
  shows "(\<forall>t t' n ch ch'. flight (pc t) = Some (n, ch) \<and> flight (pc t') = Some (n, ch') \<longrightarrow> t = t')
    \<and> (\<forall>n ch. map_of (im_ready c) n = Some ch \<longrightarrow> ch \<notin> set (im_closed c) \<and> (\<exists>!t. flight (pc t) = Some (n, ch)))
    \<and> (\<forall>n i. map_of (im_cache c) n = Some i \<longrightarrow> im_meta c n \<noteq> None \<or> (\<exists>t ch. pc t = Deleted n ch None))"
proof -
  have "meta_inv pc c" using im_reach_inv [OF assms] by (simp add: im_inv_def)
  with assms show ?thesis
    using im_flight.exclusive [of "(pc, c)"] im_flight.waits_for [of "(pc, c)"] im_flight.owned [of "(pc, c)"] meta_invD(1) [of pc c]
    by (simp; blast)
qed

text \<open>One goroutine has created an index; a second one has deleted it from the store, and not yet from the cache.\<close>

definition ex_meta :: "(unit, unit) index_meta" where
  "ex_meta = \<lparr>ix_Name = ''a'', ix_Settings = None, ix_Mappings = None, ix_Shards = [], ix_rest = ()\<rparr>"

definition ex_env :: "(unit, unit) im_env" where
  "ex_env = \<lparr>ie_get = \<lambda>_. None, ie_set = \<lambda>_. None, ie_delete = \<lambda>_. None, ie_analysis = \<lambda>_. None, ie_new = \<lambda>n. Inr (ex_meta\<lparr>ix_Name := n\<rparr>),
     ie_settings = (), ie_close = \<lambda>_. None, ie_remove = \<lambda>_. None\<rparr>"

definition ex_im :: "(unit, unit) im" where
  "ex_im = \<lparr>im_cache = [], im_ready = [], im_chan = 0, im_closed = [], im_heap = \<lambda>_. ex_meta, im_next = 0, im_meta = Map.empty\<rparr>"

definition ex_created :: "(unit, unit) im" where
  "ex_created = snd (the (GetOrCreate ex_env True ''a'' ex_im))"

definition ex_deleted :: "(unit, unit) im" where
  "ex_deleted = snd (deleteIndex ex_env ''a'' (snd (mgr_claim ''a'' ex_created)))"

lemma ex_created_reach: "im_reach (\<lambda>_ :: bool. Free) ex_created"
proof -
  obtain c1 where c1: "mgr_lookup ''a'' ex_im = (Starts 0, c1)" by (simp add: mgr_lookup_def mgr_claim_def ex_im_def)
  obtain r c2 where c2: "getOrCreateIndex ex_env ''a'' c1 = (r, c2)" by (cases "getOrCreateIndex ex_env ''a'' c1")
  have "r \<noteq> Inl Panicked" using c1 c2
    by (auto simp: mgr_lookup_def mgr_claim_def ex_im_def getOrCreateIndex_def ex_env_def alloc_def storeIndex_def Let_def)
  then have r: "map_sum id fst r \<noteq> Inl Panicked" by (cases r) auto
  have "im_reach (\<lambda>_ :: bool. Free) ex_im" by (rule im_init) (simp_all add: ex_im_def)
  from im_get [OF this, where t = True, OF _ c1] have "im_reach ((\<lambda>_. Free)(True := Creating ''a'' 0)) c1" by simp
  from im_create [OF this, where t = True, OF _ _ c2]
  have "im_reach ((\<lambda>_. Free)(True := Got ''a'' 0 (map_sum id fst r))) c2" by (simp add: names_ok_def ex_env_def)
  from im_got [OF this, where t = True, OF _ r] show ?thesis
    by (simp add: ex_created_def GetOrCreate_def c1 c2 fun_upd_idem)
qed

theorem index_single_flight_witness:
  "\<exists>pc :: bool \<Rightarrow> im_pc. im_reach pc ex_deleted \<and> map_of (im_cache ex_deleted) ''a'' = Some 0 \<and> im_meta ex_deleted ''a'' = None
    \<and> (\<exists>!t. flight (pc t) = Some (''a'', 1)) \<and> (\<exists>t ch. pc t = Deleted ''a'' ch None)"
proof -
  obtain c1 where c1: "mgr_claim ''a'' ex_created = (Starts 1, c1)" "map_of (im_ready c1) ''a'' = Some 1" "map_of (im_cache c1) ''a'' = Some 0"
    by (simp add: ex_created_def GetOrCreate_def mgr_lookup_def mgr_claim_def getOrCreateIndex_def ex_im_def ex_env_def alloc_def storeIndex_def Let_def
        checkIndex_def get_end_def mgr_release_def)
  define pc :: "bool \<Rightarrow> im_pc" where "pc = (\<lambda>_. Free)(True := Deleted ''a'' 1 None)"
  from c1 have d: "deleteIndex ex_env ''a'' c1 = (None, ex_deleted)" by (simp add: ex_deleted_def deleteIndex_def ex_env_def)
  from im_claim [OF ex_created_reach, where t = True, OF _ c1(1)] have "im_reach ((\<lambda>_ :: bool. Free)(True := Deleting ''a'' 1)) c1" by simp
  from im_delete [OF this, where t = True, OF _ d] have reach: "im_reach pc ex_deleted" by (simp add: pc_def)
  from deleteIndex_gone [OF d] deleteIndex_touches [OF d] c1
  have "map_of (im_cache ex_deleted) ''a'' = Some 0" "im_meta ex_deleted ''a'' = None" "map_of (im_ready ex_deleted) ''a'' = Some 1"
    by (simp_all add: touches_def)
  with reach index_single_flight [OF reach] show ?thesis by blast
qed

end
