(* ===== verification/Query_Range.thy ===== *)
theory Query_Range
  imports Mappings Shards
begin

text \<open>
  Queries and their time ranges. \<^verbatim>\<open>pkg/uquery/query\<close> translates the JSON of a query into a Bluge query;
  \<^verbatim>\<open>pkg/uquery/timerange\<close> reads from the same JSON a range of timestamps, which decides the second-layer
  shards that the search visits. The members of an object are listed in the order in which they are
  ranged over.
\<close>

section \<open>The translation of queries\<close>

text \<open>Letters are ASCII, as in all keywords.\<close>

definition ToLower :: "string \<Rightarrow> string" where
  "ToLower s = map (\<lambda>c. if (65 :: nat) \<le> of_char c \<and> of_char c \<le> (90 :: nat) then char_of (of_char c + 32 :: nat) else c) s"

text \<open>A Bluge query: boolean (must, should, must not and the number of clauses of should that have to match), a
  range of numbers or times, the query that matches everything, and the others, of type \<open>'l\<close>. A clause may
  be nil.\<close>

datatype 'l bquery =
    MatchAll
  | Boolean "'l bquery option list" "'l bquery option list" "'l bquery option list" "int option"
  | NumericRange string rat rat bool bool
  | DateRange string int int bool bool
  | Other 'l

text \<open>A result: a panic (\<open>None\<close>), an error, or a query.\<close>

type_synonym 'l parsed_query = "(error + 'l bquery option) option"

text \<open>\<open>qe_nil\<close> parses a time with a nil location, \<open>qe_other\<close> translates the kinds of queries other than \<^verbatim>\<open>bool\<close> and \<^verbatim>\<open>range\<close>, \<open>qe_min\<close> is \<^verbatim>\<open>calculateMin\<close>.\<close>

record 'l query_env =
  qe_std :: go_std
  qe_now :: int
  qe_mappings :: mappings
  qe_nil :: "string \<Rightarrow> string \<Rightarrow> int option option"
  qe_other :: "string \<Rightarrow> members \<Rightarrow> error + 'l"
  qe_min :: "nat \<Rightarrow> jval \<Rightarrow> error + int"

record range_value =
  rg_GT :: jval
  rg_GTE :: jval
  rg_LT :: jval
  rg_LTE :: jval
  rg_Format :: string
  rg_TimeZone :: string

definition no_range :: range_value where
  "no_range = \<lparr>rg_GT = JNull, rg_GTE = JNull, rg_LT = JNull, rg_LTE = JNull, rg_Format = [], rg_TimeZone = []\<rparr>"

text \<open>An ignored error leaves the zero value.\<close>

definition or_zero :: "'z \<Rightarrow> error + 'z \<Rightarrow> 'z" where
  "or_zero z r = (case r of Inl _ \<Rightarrow> z | Inr x \<Rightarrow> x)"

fun read_numeric :: "go_std \<Rightarrow> members \<Rightarrow> rat option \<times> rat option \<times> rat option \<times> rat option \<Rightarrow> rat option \<times> rat option \<times> rat option \<times> rat option" where
  "read_numeric std [] b = b"
| "read_numeric std ((k, v) # ms) (gt, gte, lt, lte) =
     (let key = ToLower k; x = Some (or_zero 0 (ToFloat64 std v)) in
      read_numeric std ms
        (if key = ''gt'' then (x, gte, lt, lte) else if key = ''gte'' then (gt, x, lt, lte)
         else if key = ''lt'' then (gt, gte, x, lte) else if key = ''lte'' then (gt, gte, lt, x) else (gt, gte, lt, lte)))"

definition positive :: "rat option \<Rightarrow> bool" where
  "positive x = (case x of None \<Rightarrow> False | Some r \<Rightarrow> r > 0)"

definition RangeQueryNumeric :: "go_std \<Rightarrow> string \<Rightarrow> members \<Rightarrow> 'l bquery" where
  "RangeQueryNumeric std field query =
     (case read_numeric std query (None, None, None, None) of (gt, gte, lt, lte) \<Rightarrow>
        let mn = (if positive gte then the gte else if positive gt then the gt else 0);
            mx = (if positive lte then the lte else if positive lt then the lt else 0)
        in NumericRange field mn (if mx = 0 then 2 ^ 63 else mx) (positive gte) (positive lte))"

definition read_member :: "go_std \<Rightarrow> string \<Rightarrow> jval \<Rightarrow> range_value \<Rightarrow> range_value" where
  "read_member std key v r =
     (if key = ''gt'' then r\<lparr>rg_GT := v\<rparr>
      else if key = ''gte'' then r\<lparr>rg_GTE := v\<rparr>
      else if key = ''lt'' then r\<lparr>rg_LT := v\<rparr>
      else if key = ''lte'' then r\<lparr>rg_LTE := v\<rparr>
      else if key = ''format'' then r\<lparr>rg_Format := or_zero [] (ToString std v)\<rparr>
      else if key = ''time_zone'' then r\<lparr>rg_TimeZone := or_zero [] (ToString std v)\<rparr>
      else r)"

fun read_time :: "go_std \<Rightarrow> members \<Rightarrow> range_value \<Rightarrow> range_value" where
  "read_time std [] r = r"
| "read_time std ((k, v) # ms) r = read_time std ms (read_member std (ToLower k) v r)"

text \<open>A bound that is given, or the one there was: a panic, an error, or a time. A failing \<^verbatim>\<open>ParseTimeZone\<close> of the
  mappings leaves a nil location, for which \<open>nl\<close> is \<^verbatim>\<open>time.ParseInLocation\<close>.\<close>

definition query_time :: "go_std \<Rightarrow> (string \<Rightarrow> string \<Rightarrow> int option option) \<Rightarrow> string \<Rightarrow> zone option \<Rightarrow> jval \<Rightarrow> int option option" where
  "query_time std nl format zone v =
     (if format = ''epoch_millis'' then Some (case ToFloat64 std v of Inl _ \<Rightarrow> None | Inr r \<Rightarrow> Some (int_of_float r * 10 ^ 6))
      else let s = or_zero [] (ToString std v) in
        (case zone of None \<Rightarrow> nl format s | Some z \<Rightarrow> Some (gs_parse_time std format s z)))"

definition query_bound :: "go_std \<Rightarrow> (string \<Rightarrow> string \<Rightarrow> int option option) \<Rightarrow> string \<Rightarrow> zone option \<Rightarrow> jval \<Rightarrow> int \<Rightarrow> int option option" where
  "query_bound std nl format zone v t = (if v = JNull then Some (Some t) else query_time std nl format zone v)"

definition query_then :: "error \<Rightarrow> int option option \<Rightarrow> (int \<Rightarrow> 'l parsed_query) \<Rightarrow> 'l parsed_query" where
  "query_then e x f = (case x of None \<Rightarrow> None | Some None \<Rightarrow> Some (Inl e) | Some (Some t) \<Rightarrow> f t)"

definition RangeQueryTime :: "'l query_env \<Rightarrow> string \<Rightarrow> members \<Rightarrow> 'l parsed_query" where
  "RangeQueryTime env field query =
     (let std = qe_std env; value = read_time std query no_range; prop = GetProperty (qe_mappings env) field;
          f1 = (if snd prop \<and> pb_Format (base (fst prop)) \<noteq> [] then pb_Format (base (fst prop)) else RFC3339);
          format = (if rg_Format value \<noteq> [] then rg_Format value else f1);
          z1 = (if snd prop \<and> pb_TimeZone (base (fst prop)) \<noteq> []
                then (case ParseTimeZone std (pb_TimeZone (base (fst prop))) of Inl _ \<Rightarrow> None | Inr z \<Rightarrow> Some z) else Some UTC)
      in case (if rg_TimeZone value \<noteq> [] then map_sum id Some (ParseTimeZone std (rg_TimeZone value)) else Inr z1) of
           Inl e \<Rightarrow> Some (Inl ''time_zone parse err'')
         | Inr zone \<Rightarrow>
             query_then ''range.gt format err'' (query_bound std (qe_nil env) format zone (rg_GT value) zero_time) (\<lambda>mn1.
             query_then ''range.gte format err'' (query_bound std (qe_nil env) format zone (rg_GTE value) mn1) (\<lambda>mn.
             query_then ''range.lt format err'' (query_bound std (qe_nil env) format zone (rg_LT value) zero_time) (\<lambda>mx1.
             query_then ''range.lte format err'' (query_bound std (qe_nil env) format zone (rg_LTE value) mx1) (\<lambda>mx.
               Some (Inr (Some (DateRange field mn (if mx = zero_time then qe_now env else mx) (rg_GTE value \<noteq> JNull) (rg_LTE value \<noteq> JNull)))))))))"

definition RangeQuery :: "'l query_env \<Rightarrow> members \<Rightarrow> 'l parsed_query" where
  "RangeQuery env query =
     (case query of
        [] \<Rightarrow> Some (Inr None)
      | [(field, JObj vv)] \<Rightarrow>
          (let t = ptype (fst (GetProperty (qe_mappings env) field)) in
           if t = ''numeric'' then Some (Inr (Some (RangeQueryNumeric (qe_std env) field vv)))
           else if t \<in> {''date'', ''time''} then RangeQueryTime env field vv
           else Some (Inl ''only support values of [numeric, time]''))
      | [_] \<Rightarrow> Some (Inl ''query doesn't support values of this type'')
      | _ \<Rightarrow> Some (Inl ''query doesn't support multiple fields''))"

text \<open>The clauses of a boolean query, collected in the order of its members.\<close>

type_synonym 'l clauses = "'l bquery option list \<times> 'l bquery option list \<times> 'l bquery option list \<times> jval"

definition add_clauses :: "string \<Rightarrow> 'l bquery option list \<Rightarrow> 'l clauses \<Rightarrow> 'l clauses" where
  "add_clauses key qs c =
     (case c of (must, should, mustNot, m) \<Rightarrow>
        if key = ''should'' then (must, should @ qs, mustNot, m)
        else if key = ''must'' then (must @ qs, should, mustNot, m)
        else if key = ''must_not'' then (must, should, mustNot @ qs, m)
        else (must @ [Some (Boolean qs [] [] None)], should, mustNot, m))"

definition end_bool :: "'l query_env \<Rightarrow> 'l clauses \<Rightarrow> error + 'l bquery" where
  "end_bool env c =
     (case c of (must, should, mustNot, m) \<Rightarrow>
        if m = JNull then Inr (Boolean must should mustNot None)
        else (case qe_min env (length should) m of
           Inl e \<Rightarrow> Inl ''unsupported MinimumShouldMatch value''
         | Inr n \<Rightarrow> Inr (Boolean must should mustNot (Some n))))"

fun parse_query :: "'l query_env \<Rightarrow> jval \<Rightarrow> 'l parsed_query"
  and parse_cmds :: "'l query_env \<Rightarrow> members \<Rightarrow> 'l bquery option \<Rightarrow> 'l parsed_query"
  and BoolQuery :: "'l query_env \<Rightarrow> members \<Rightarrow> 'l clauses \<Rightarrow> 'l parsed_query"
  and parse_each :: "'l query_env \<Rightarrow> jval list \<Rightarrow> (error + 'l bquery option list) option" where
  "parse_query env q =
     (case q of
        JNull \<Rightarrow> Some (Inr (Some MatchAll))
      | JObj ms \<Rightarrow> parse_cmds env ms None
      | _ \<Rightarrow> Some (Inl ''query must be a map''))"
| "parse_cmds env [] subq = Some (Inr subq)"
| "parse_cmds env ((k, t) # rest) subq =
     (if subq \<noteq> None then Some (Inl ''malformed query'')
      else case t of
          JObj v \<Rightarrow>
            (let key = ToLower k in
             case (if key = ''bool'' then BoolQuery env v ([], [], [], JNull)
                   else if key = ''range'' then RangeQuery env v
                   else Some (map_sum id (Some \<circ> Other) (qe_other env key v))) of
               None \<Rightarrow> None
             | Some (Inl e) \<Rightarrow> Some (Inl e)
             | Some (Inr q) \<Rightarrow> parse_cmds env rest q)
        | _ \<Rightarrow> Some (Inl ''query doesn't support value type''))"
| "BoolQuery env [] c = Some (map_sum id Some (end_bool env c))"
| "BoolQuery env ((k, v) # rest) c =
     (let key = ToLower k in
      if key \<in> {''should'', ''must'', ''must_not'', ''filter''} then
        (case v of
           JObj _ \<Rightarrow>
             (case parse_query env v of
                None \<Rightarrow> None
              | Some (Inl e) \<Rightarrow> Some (Inl e)
              | Some (Inr q) \<Rightarrow> BoolQuery env rest (add_clauses key [q] c))
         | JArr vs \<Rightarrow>
             (case parse_each env vs of
                None \<Rightarrow> None
              | Some (Inl e) \<Rightarrow> Some (Inl e)
              | Some (Inr qs) \<Rightarrow> BoolQuery env rest (add_clauses key qs c))
         | _ \<Rightarrow> Some (Inl ''doesn't support values of this type''))
      else if key = ''minimum_should_match'' then BoolQuery env rest (case c of (a, b, d, _) \<Rightarrow> (a, b, d, v))
      else Some (Inl ''unknown field''))"
| "parse_each env [] = Some (Inr [])"
| "parse_each env (v # vs) =
     (case v of
        JObj _ \<Rightarrow>
          (case parse_query env v of
             None \<Rightarrow> None
           | Some (Inl e) \<Rightarrow> Some (Inl e)
           | Some (Inr q) \<Rightarrow> map_option (map_sum id (Cons q)) (parse_each env vs))
      | _ \<Rightarrow> None)"

section \<open>The time range of a query\<close>

text \<open>The members of a range: \<open>None\<close> is a failed type assertion, \<open>Some None\<close> an unknown member, for which no range is
  returned.\<close>

definition tr_member :: "string \<Rightarrow> jval \<Rightarrow> range_value \<Rightarrow> range_value option option" where
  "tr_member key v r =
     (if key = ''gt'' then Some (Some (r\<lparr>rg_GT := v\<rparr>))
      else if key = ''gte'' then Some (Some (r\<lparr>rg_GTE := v\<rparr>))
      else if key = ''lt'' then Some (Some (r\<lparr>rg_LT := v\<rparr>))
      else if key = ''lte'' then Some (Some (r\<lparr>rg_LTE := v\<rparr>))
      else if key = ''format'' then (case v of JStr s \<Rightarrow> Some (Some (r\<lparr>rg_Format := s\<rparr>)) | _ \<Rightarrow> None)
      else if key = ''time_zone'' then (case v of JStr s \<Rightarrow> Some (Some (r\<lparr>rg_TimeZone := s\<rparr>)) | _ \<Rightarrow> None)
      else if key = ''boost'' then (case v of JNum _ \<Rightarrow> Some (Some r) | _ \<Rightarrow> None)
      else Some None)"

fun tr_read :: "members \<Rightarrow> range_value \<Rightarrow> range_value option option" where
  "tr_read [] r = Some (Some r)"
| "tr_read ((k, v) # ms) r =
     (case tr_member (ToLower k) v r of
        None \<Rightarrow> None
      | Some None \<Rightarrow> Some None
      | Some (Some r') \<Rightarrow> tr_read ms r')"

text \<open>A bound: a panic, an error, for which no range is returned, or a time.\<close>

definition tr_bound :: "go_std \<Rightarrow> string \<Rightarrow> zone \<Rightarrow> jval \<Rightarrow> int \<Rightarrow> int option option" where
  "tr_bound std format zone v t =
     (if v = JNull then Some (Some t)
      else if format = ''epoch_millis'' then Some (case ToInt v of Inl _ \<Rightarrow> None | Inr n \<Rightarrow> Some (n * 10 ^ 6))
      else (case v of JStr s \<Rightarrow> Some (gs_parse_time std format s zone) | _ \<Rightarrow> None))"

definition tr_then :: "int option option \<Rightarrow> (int \<Rightarrow> (int \<times> int) option) \<Rightarrow> (int \<times> int) option" where
  "tr_then x f = (case x of None \<Rightarrow> None | Some None \<Rightarrow> Some (0, 0) | Some (Some t) \<Rightarrow> f t)"

definition tr_RangeQueryTime :: "go_std \<Rightarrow> members \<Rightarrow> (int \<times> int) option" where
  "tr_RangeQueryTime std query =
     (case tr_read query no_range of
        None \<Rightarrow> None
      | Some None \<Rightarrow> Some (0, 0)
      | Some (Some value) \<Rightarrow>
          let format = (if rg_Format value \<noteq> [] then rg_Format value else RFC3339) in
          (case (if rg_TimeZone value \<noteq> [] then ParseTimeZone std (rg_TimeZone value) else Inr UTC) of
             Inl e \<Rightarrow> Some (0, 0)
           | Inr zone \<Rightarrow>
               tr_then (tr_bound std format zone (rg_GT value) zero_time) (\<lambda>mn1.
               tr_then (tr_bound std format zone (rg_GTE value) mn1) (\<lambda>mn.
               tr_then (tr_bound std format zone (rg_LT value) zero_time) (\<lambda>mx1.
               tr_then (tr_bound std format zone (rg_LTE value) mx1) (\<lambda>mx.
                 Some (UnixNano mn, UnixNano mx)))))))"

fun tr_RangeQuery :: "go_std \<Rightarrow> members \<Rightarrow> (int \<times> int) option" where
  "tr_RangeQuery std [] = Some (0, 0)"
| "tr_RangeQuery std ((field, v) # rest) =
     (if field = TimeFieldName then (case v of JObj vv \<Rightarrow> tr_RangeQueryTime std vv | _ \<Rightarrow> Some (0, 0))
      else tr_RangeQuery std rest)"

fun tr_query :: "go_std \<Rightarrow> jval \<Rightarrow> (int \<times> int) option"
  and tr_cmds :: "go_std \<Rightarrow> members \<Rightarrow> (int \<times> int) option"
  and tr_BoolQuery :: "go_std \<Rightarrow> members \<Rightarrow> (int \<times> int) option"
  and tr_each :: "go_std \<Rightarrow> jval list \<Rightarrow> (int \<times> int) option option" where
  "tr_query std q = (case q of JObj ms \<Rightarrow> tr_cmds std ms | _ \<Rightarrow> Some (0, 0))"
| "tr_cmds std [] = Some (0, 0)"
| "tr_cmds std ((k, t) # rest) =
     (case t of
        JObj v \<Rightarrow>
          (let key = ToLower k in
           if key = ''bool'' then tr_BoolQuery std v else if key = ''range'' then tr_RangeQuery std v else tr_cmds std rest)
      | _ \<Rightarrow> Some (0, 0))"
| "tr_BoolQuery std [] = Some (0, 0)"
| "tr_BoolQuery std ((k, v) # rest) =
     (if ToLower k \<in> {''should'', ''must'', ''filter''} then
        (case v of
           JObj _ \<Rightarrow> tr_query std v
         | JArr vs \<Rightarrow>
             (case tr_each std vs of
                None \<Rightarrow> None
              | Some None \<Rightarrow> tr_BoolQuery std rest
              | Some (Some r) \<Rightarrow> Some r)
         | _ \<Rightarrow> tr_BoolQuery std rest)
      else tr_BoolQuery std rest)"
| "tr_each std [] = Some None"
| "tr_each std (v # vs) =
     (case v of
        JObj _ \<Rightarrow>
          (case tr_query std v of
             None \<Rightarrow> None
           | Some (mn, mx) \<Rightarrow> if mn > 0 \<or> mx > 0 then Some (Some (mn, mx)) else tr_each std vs)
      | _ \<Rightarrow> None)"

section \<open>The range holds the timestamps of the hits\<close>

text \<open>
  What Bluge promises of boolean queries and ranges of times: every clause of must matches; without bounds
  a range is open, a bound in the range of 64-bit nanoseconds limits the time, and others are rejected.
\<close>

definition bluge_laws :: "('l bquery \<Rightarrow> 'd \<Rightarrow> bool) \<Rightarrow> ('d \<Rightarrow> int) \<Rightarrow> bool" where
  "bluge_laws sat ts \<longleftrightarrow>
     (\<forall>must should mustNot m d q. sat (Boolean must should mustNot m) d \<longrightarrow> Some q \<in> set must \<longrightarrow> sat q d)
     \<and> (\<forall>mn mx a b d. sat (DateRange TimeFieldName mn mx a b) d \<longrightarrow>
          (mn \<noteq> zero_time \<longrightarrow> - (2 ^ 63) \<le> mn \<and> mn < 2 ^ 63 \<and> mn \<le> ts d) \<and> (mx \<noteq> zero_time \<longrightarrow> - (2 ^ 63) \<le> mx \<and> mx < 2 ^ 63 \<and> ts d \<le> mx))"

text \<open>Integers in quotes are read alike as integers and as floating-point numbers, up to \<open>2 ^ 53\<close>.\<close>

definition parse_laws :: "go_std \<Rightarrow> bool" where
  "parse_laws std \<longleftrightarrow> (\<forall>s i. parse_int64 s = Some i \<longrightarrow> (\<exists>r. gs_parse_float std s = Some r
     \<and> (\<bar>i\<bar> \<le> 2 ^ 53 \<longrightarrow> r = of_int i) \<and> (2 ^ 53 \<le> \<bar>i\<bar> \<longrightarrow> 2 ^ 53 \<le> \<bar>int_of_float r\<bar>)))"

text \<open>The timestamp is mapped as by default: a date without a format or a time zone of its own.\<close>

definition plain_time :: "mappings \<Rightarrow> bool" where
  "plain_time m \<longleftrightarrow> (\<exists>p. map_of m TimeFieldName = Some p \<and> ptype p \<in> {''date'', ''time''} \<and> pb_Format (base p) = [] \<and> pb_TimeZone (base p) = [])"

text \<open>No alternatives: with \<^verbatim>\<open>should\<close> the range of one of them is returned for all. JSON numbers are floating-point
  numbers.\<close>

fun no_should :: "jval \<Rightarrow> bool" where
  "no_should (JObj ms) = (\<forall>e \<in> set ms. ToLower (fst e) \<noteq> ''should'' \<and> no_should (snd e))"
| "no_should (JArr vs) = (\<forall>v \<in> set vs. no_should v)"
| "no_should (JInt i) = False"
| "no_should v = True"

definition covers :: "int \<times> int \<Rightarrow> int \<Rightarrow> bool" where
  "covers r t \<longleftrightarrow> (fst r > 0 \<longrightarrow> fst r \<le> t) \<and> (snd r > 0 \<longrightarrow> t \<le> snd r)"

lemma covers_zero [simp]: "covers (0, 0) t"
  by (simp add: covers_def)

lemma bluge_lawsD:
  assumes "bluge_laws sat ts"
  shows "sat (Boolean must should mustNot m) d \<Longrightarrow> Some q \<in> set must \<Longrightarrow> sat q d"
    "sat (DateRange TimeFieldName mn mx a b) d \<Longrightarrow> mn \<noteq> zero_time \<Longrightarrow> - (2 ^ 63) \<le> mn \<and> mn < 2 ^ 63 \<and> mn \<le> ts d"
    "sat (DateRange TimeFieldName mn mx a b) d \<Longrightarrow> mx \<noteq> zero_time \<Longrightarrow> - (2 ^ 63) \<le> mx \<and> mx < 2 ^ 63 \<and> ts d \<le> mx"
  using assms unfolding bluge_laws_def by blast+

lemma tr_member_same: "tr_member key v r = Some (Some r') \<Longrightarrow> read_member std key v r = r'"
  unfolding tr_member_def read_member_def or_zero_def by (cases v) (simp_all split: if_splits)

lemma tr_read_same: "tr_read ms r = Some (Some value) \<Longrightarrow> read_time std ms r = value"
  by (induction ms r rule: tr_read.induct) (auto simp: tr_member_same split: option.splits)

text \<open>The two readings of a bound agree, but for quoted numbers of milliseconds beyond all dates.\<close>

definition agree :: "int \<Rightarrow> int \<Rightarrow> bool" where
  "agree x y \<longleftrightarrow> y = x \<or> y \<noteq> zero_time \<and> \<not> (- (2 ^ 63) \<le> y \<and> y < 2 ^ 63)"

lemma bound_agree:
  assumes "parse_laws std" and "\<forall>i. v \<noteq> JInt i" and "tr_bound std f z v x = Some (Some x')" and "query_bound std nl f (Some z) v y = Some (Some y')" and "agree x y"
  shows "agree x' y'"
proof (cases "v = JNull")
  case False
  show ?thesis
  proof (cases "f = ''epoch_millis''")
    case True
    with False assms(3) obtain n where n: "ToInt v = Inr n" "x' = n * 10 ^ 6" by (auto simp: tr_bound_def split: sum.splits)
    from True False assms(4) obtain r where r: "ToFloat64 std v = Inr r" "y' = int_of_float r * 10 ^ 6" by (auto simp: query_bound_def query_time_def split: sum.splits)
    show ?thesis
    proof (cases "\<exists>s. v = JStr s")
      case True
      then obtain s where s: "parse_int64 s = Some n" "gs_parse_float std s = Some r" using n(1) r(1) by (auto split: option.splits)
      from assms(1) s(1) obtain r' where "gs_parse_float std s = Some r'" "\<bar>n\<bar> \<le> 2 ^ 53 \<longrightarrow> r' = of_int n" "2 ^ 53 \<le> \<bar>n\<bar> \<longrightarrow> 2 ^ 53 \<le> \<bar>int_of_float r'\<bar>"
        unfolding parse_laws_def by blast
      with s(2) have "\<bar>n\<bar> \<le> 2 ^ 53 \<longrightarrow> r = of_int n" "2 ^ 53 \<le> \<bar>n\<bar> \<longrightarrow> 2 ^ 53 \<le> \<bar>int_of_float r\<bar>" by simp_all
      then consider "int_of_float r = n" | "2 ^ 53 \<le> \<bar>int_of_float r\<bar>" by (cases "\<bar>n\<bar> \<le> 2 ^ 53") auto
      then show ?thesis by cases (auto simp: agree_def n(2) r(2) zero_time_def)
    next
      case other: False
      have "int_of_float 0 = 0" "int_of_float 1 = 1" by (simp_all add: int_of_float_def)
      with other False assms(2) n r show ?thesis by (cases v) (auto simp: agree_def split: if_splits)
    qed
  next
    case f: False
    with False assms(3) obtain s where "v = JStr s" by (auto simp: tr_bound_def split: jval.splits)
    with f assms(3,4) show ?thesis by (auto simp: agree_def tr_bound_def query_bound_def query_time_def or_zero_def)
  qed
qed (use assms in \<open>simp_all add: tr_bound_def query_bound_def\<close>)

lemma UnixNano_id: "- (2 ^ 63) \<le> t \<Longrightarrow> t < 2 ^ 63 \<Longrightarrow> UnixNano t = t"
  by (simp add: UnixNano_def int_word_sint)

lemma UnixNano_zero: "UnixNano zero_time < 0"
  by (simp add: UnixNano_def zero_time_def int_word_sint)

lemma query_then_Inr: "query_then e x f = Some (Inr r) \<Longrightarrow> \<exists>t. x = Some (Some t) \<and> f t = Some (Inr r)"
  by (auto simp: query_then_def split: option.splits)

lemma tr_then_Some: "tr_then x f = Some r \<Longrightarrow> r = (0, 0) \<or> (\<exists>t. x = Some (Some t) \<and> f t = Some r)"
  by (auto simp: tr_then_def split: option.splits)

lemma no_should_value:
  "no_should (JObj ms) \<Longrightarrow> tr_read ms r = Some (Some value) \<Longrightarrow> \<forall>i. JInt i \<notin> {rg_GT r, rg_GTE r, rg_LT r, rg_LTE r} \<Longrightarrow>
   \<forall>i. JInt i \<notin> {rg_GT value, rg_GTE value, rg_LT value, rg_LTE value}"
proof (induction ms arbitrary: r)
  case (Cons e ms)
  obtain k v where e: "e = (k, v)" by fastforce
  obtain r' where r': "tr_member (ToLower k) v r = Some (Some r')" "tr_read ms r' = Some (Some value)"
    using Cons.prems(2) by (auto simp: e split: option.splits)
  have "\<forall>i. v \<noteq> JInt i" using Cons.prems(1) by (auto simp: e)
  with r'(1) Cons.prems(3) have "\<forall>i. JInt i \<notin> {rg_GT r', rg_GTE r', rg_LT r', rg_LTE r'}"
    unfolding tr_member_def by (auto split: if_splits jval.splits)
  with Cons.IH [OF _ r'(2)] Cons.prems(1) show ?case by simp
qed simp

text \<open>The range of a range query is the one the translated query asks for.\<close>

lemma RangeQueryTime_covers:
  assumes laws: "bluge_laws sat ts" "parse_laws (qe_std env)" and m: "plain_time (qe_mappings env)" and n: "no_should (JObj ms)"
    and q: "RangeQueryTime env TimeFieldName ms = Some (Inr (Some bq))" and tr: "tr_RangeQueryTime (qe_std env) ms = Some r" and s: "sat bq d"
  shows "covers r (ts d)"
proof (cases "r = (0, 0)")
  case False
  let ?std = "qe_std env"
  obtain p where p: "map_of (qe_mappings env) TimeFieldName = Some p" "pb_Format (base p) = []" "pb_TimeZone (base p) = []" using m by (auto simp: plain_time_def)
  have gp: "GetProperty (qe_mappings env) TimeFieldName = (p, True)" by (simp add: GetProperty_def p(1))
  obtain v where v: "tr_read ms no_range = Some (Some v)" using tr False by (auto simp: tr_RangeQueryTime_def split: option.splits)
  define f where "f = (if rg_Format v \<noteq> [] then rg_Format v else RFC3339)"
  obtain z where z: "(if rg_TimeZone v \<noteq> [] then ParseTimeZone ?std (rg_TimeZone v) else Inr UTC) = Inr z"
    using tr False v by (auto simp: tr_RangeQueryTime_def Let_def split: sum.splits if_splits)
  note rd = tr_read_same [OF v, of ?std]
  have "\<forall>i. JInt i \<notin> {rg_GT no_range, rg_GTE no_range, rg_LT no_range, rg_LTE no_range}" by (simp add: no_range_def)
  from no_should_value [OF n v this] have ni: "\<forall>i. rg_GT v \<noteq> JInt i" "\<forall>i. rg_GTE v \<noteq> JInt i" "\<forall>i. rg_LT v \<noteq> JInt i" "\<forall>i. rg_LTE v \<noteq> JInt i" by fastforce+
  from tr v z obtain a1 a2 b1 b2 where t: "tr_bound ?std f z (rg_GT v) zero_time = Some (Some a1)" "tr_bound ?std f z (rg_GTE v) a1 = Some (Some a2)"
      "tr_bound ?std f z (rg_LT v) zero_time = Some (Some b1)" "tr_bound ?std f z (rg_LTE v) b1 = Some (Some b2)" "r = (UnixNano a2, UnixNano b2)"
    using False by (auto simp: tr_RangeQueryTime_def Let_def f_def [symmetric] dest!: tr_then_Some)
  let ?b = "query_bound ?std (qe_nil env) f (Some z)"
  have "RangeQueryTime env TimeFieldName ms =
      query_then ''range.gt format err'' (?b (rg_GT v) zero_time) (\<lambda>mn1. query_then ''range.gte format err'' (?b (rg_GTE v) mn1) (\<lambda>mn.
      query_then ''range.lt format err'' (?b (rg_LT v) zero_time) (\<lambda>mx1. query_then ''range.lte format err'' (?b (rg_LTE v) mx1) (\<lambda>mx.
        Some (Inr (Some (DateRange TimeFieldName mn (if mx = zero_time then qe_now env else mx) (rg_GTE v \<noteq> JNull) (rg_LTE v \<noteq> JNull))))))))"
    using z unfolding RangeQueryTime_def Let_def rd gp fst_conv snd_conv p f_def by (cases "rg_TimeZone v = []") auto
  with q obtain mn1 mn mx1 mx where b: "?b (rg_GT v) zero_time = Some (Some mn1)" "?b (rg_GTE v) mn1 = Some (Some mn)"
      "?b (rg_LT v) zero_time = Some (Some mx1)" "?b (rg_LTE v) mx1 = Some (Some mx)"
      "bq = DateRange TimeFieldName mn (if mx = zero_time then qe_now env else mx) (rg_GTE v \<noteq> JNull) (rg_LTE v \<noteq> JNull)"
    by (auto dest!: query_then_Inr)
  note ba = bound_agree [OF laws(2)]
  have z0: "agree zero_time zero_time" by (simp add: agree_def)
  have ag: "agree a2 mn" "agree b2 mx"
    using ba [OF ni(2) t(2) b(2) ba [OF ni(1) t(1) b(1) z0]] ba [OF ni(4) t(4) b(4) ba [OF ni(3) t(3) b(3) z0]] by simp_all
  have "fst r > 0 \<longrightarrow> fst r \<le> ts d"
    using ag(1) bluge_lawsD(2) [OF laws(1), of mn] s UnixNano_zero UnixNano_id [of mn] by (cases "mn = zero_time") (auto simp: b(5) t(5) agree_def)
  moreover have "snd r > 0 \<longrightarrow> ts d \<le> snd r"
    using ag(2) bluge_lawsD(3) [OF laws(1), of _ mx] s UnixNano_zero UnixNano_id [of mx] by (cases "mx = zero_time") (auto simp: b(5) t(5) agree_def)
  ultimately show ?thesis by (simp add: covers_def)
qed simp

definition sound :: "('l bquery \<Rightarrow> 'd \<Rightarrow> bool) \<Rightarrow> ('d \<Rightarrow> int) \<Rightarrow> 'd \<Rightarrow> 'l bquery option \<Rightarrow> int \<times> int \<Rightarrow> bool" where
  "sound sat ts d oq r = (case oq of None \<Rightarrow> r = (0, 0) | Some q \<Rightarrow> sat q d \<longrightarrow> covers r (ts d))"

lemma sound_simps [simp]: "sound sat ts d None r \<longleftrightarrow> r = (0, 0)" "sound sat ts d (Some q) r \<longleftrightarrow> (sat q d \<longrightarrow> covers r (ts d))" "sound sat ts d oq (0, 0)"
  by (simp_all add: sound_def split: option.split)

lemma RangeQuery_sound:
  assumes "bluge_laws sat ts" "parse_laws (qe_std env)" "plain_time (qe_mappings env)" "no_should (JObj ms)"
    and q: "RangeQuery env ms = Some (Inr oq)" and tr: "tr_RangeQuery (qe_std env) ms = Some r"
  shows "sound sat ts d oq r"
proof (cases ms)
  case (Cons e rest)
  with q obtain field vv where e: "ms = [(field, JObj vv)]" by (auto simp: RangeQuery_def split: list.splits prod.splits jval.splits)
  show ?thesis
  proof (cases "field = TimeFieldName")
    case True
    have "ptype (fst (GetProperty (qe_mappings env) field)) \<in> {''date'', ''time''}" using assms(3) by (auto simp: True plain_time_def GetProperty_def)
    then have rq: "RangeQueryTime env TimeFieldName vv = Some (Inr oq)" using q unfolding e RangeQuery_def Let_def True by auto
    then obtain bq where bq: "oq = Some bq"
      by (auto simp: RangeQueryTime_def Let_def split: sum.splits dest!: query_then_Inr)
    have "tr_RangeQueryTime (qe_std env) vv = Some r" "no_should (JObj vv)" using tr assms(4) by (simp_all add: e True)
    from RangeQueryTime_covers [OF assms(1-3) this(2) rq [unfolded bq] this(1)] show ?thesis by (simp add: bq)
  qed (use tr e in auto)
qed (use q tr in \<open>auto simp: RangeQuery_def\<close>)

text \<open>The clauses of a boolean query end up in it.\<close>

lemma BoolQuery_clauses:
  assumes "BoolQuery env ((k, v) # ms) c = Some (Inr oq)" and "ToLower k \<in> {''should'', ''must'', ''must_not'', ''filter''}"
  shows "(\<exists>x q. v = JObj x \<and> parse_query env v = Some (Inr q) \<and> BoolQuery env ms (add_clauses (ToLower k) [q] c) = Some (Inr oq))
    \<or> (\<exists>vs qs. v = JArr vs \<and> parse_each env vs = Some (Inr qs) \<and> BoolQuery env ms (add_clauses (ToLower k) qs c) = Some (Inr oq))"
  using assms(1) unfolding BoolQuery.simps Let_def if_P [OF assms(2)] by (cases v) (auto split: option.splits sum.splits)

lemma BoolQuery_rest:
  assumes "BoolQuery env ((k, v) # ms) c = Some (Inr oq)"
  shows "\<exists>c'. BoolQuery env ms c' = Some (Inr oq) \<and> set (fst c) \<subseteq> set (fst c')"
proof (cases "ToLower k \<in> {''should'', ''must'', ''must_not'', ''filter''}")
  case True
  then obtain qs where "BoolQuery env ms (add_clauses (ToLower k) qs c) = Some (Inr oq)" using BoolQuery_clauses [OF assms True] by blast
  moreover have "set (fst c) \<subseteq> set (fst (add_clauses (ToLower k) qs c))" by (auto simp: add_clauses_def split: prod.splits)
  ultimately show ?thesis by blast
next
  case False
  then have "BoolQuery env ms (case c of (a, b, d, _) \<Rightarrow> (a, b, d, v)) = Some (Inr oq)"
    using assms unfolding BoolQuery.simps Let_def if_not_P [OF False] by (simp split: if_splits)
  moreover have "fst (case c of (a, b, d, _) \<Rightarrow> (a, b, d, v)) = fst c" by (simp split: prod.split)
  ultimately show ?thesis by (metis subset_refl)
qed

lemma BoolQuery_musts:
  "BoolQuery env ms c = Some (Inr oq) \<Longrightarrow> \<exists>must should mustNot m. oq = Some (Boolean must should mustNot m) \<and> set (fst c) \<subseteq> set must"
proof (induction ms arbitrary: c)
  case Nil
  then show ?case by (auto simp: end_bool_def split: prod.splits sum.splits if_splits)
next
  case (Cons e ms)
  obtain k v where "e = (k, v)" by fastforce
  with Cons.prems BoolQuery_rest obtain c' where "BoolQuery env ms c' = Some (Inr oq)" "set (fst c) \<subseteq> set (fst c')" by blast
  with Cons.IH [OF this(1)] show ?case by blast
qed

lemma clause_sat:
  assumes "bluge_laws sat ts" and "BoolQuery env ms (add_clauses key qs c) = Some (Inr (Some bq))" and "key \<in> {''must'', ''filter''}" and "sat bq d" and "Some q \<in> set qs"
  shows "sat q d"
proof -
  obtain must should mustNot m where b: "bq = Boolean must should mustNot m" "set (fst (add_clauses key qs c)) \<subseteq> set must"
    using BoolQuery_musts [OF assms(2)] by blast
  have "Some q \<in> set (fst (add_clauses key qs c)) \<or> Some (Boolean qs [] [] None) \<in> set (fst (add_clauses key qs c))"
    using assms(3,5) by (auto simp: add_clauses_def split: prod.splits)
  with b assms(4,5) bluge_lawsD(1) [OF assms(1)] show ?thesis by blast
qed

lemma parse_cmds_first:
  assumes "parse_cmds env ((k, t) # rest) None = Some (Inr oq)"
  obtains v q where "t = JObj v" and "(if ToLower k = ''bool'' then BoolQuery env v ([], [], [], JNull) else if ToLower k = ''range'' then RangeQuery env v
      else Some (map_sum id (Some \<circ> Other) (qe_other env (ToLower k) v))) = Some (Inr q)"
    and "q \<noteq> None \<Longrightarrow> oq = q \<and> rest = []" and "q = None \<Longrightarrow> parse_cmds env rest None = Some (Inr oq)"
proof -
  obtain v where t: "t = JObj v" using assms by (cases t) auto
  define x where "x = (if ToLower k = ''bool'' then BoolQuery env v ([], [], [], JNull) else if ToLower k = ''range'' then RangeQuery env v
      else Some (map_sum id (Some \<circ> Other) (qe_other env (ToLower k) v)))"
  have "(case x of None \<Rightarrow> None | Some (Inl e) \<Rightarrow> Some (Inl e) | Some (Inr q) \<Rightarrow> parse_cmds env rest q) = Some (Inr oq)"
    using assms unfolding parse_cmds.simps t x_def Let_def by simp
  then obtain q where q: "x = Some (Inr q)" "parse_cmds env rest q = Some (Inr oq)" by (auto split: option.splits sum.splits)
  show thesis by (rule that [OF t q(1) [unfolded x_def]]) (use q(2) in \<open>cases rest; auto\<close>)+
qed

lemma parse_each_Cons:
  assumes "parse_each env (v # vs) = Some (Inr qs)"
  shows "\<exists>q qs'. parse_query env v = Some (Inr q) \<and> parse_each env vs = Some (Inr qs') \<and> qs = q # qs'"
proof -
  from assms obtain q where q: "parse_query env v = Some (Inr q)" "map_option (map_sum id (Cons q)) (parse_each env vs) = Some (Inr qs)"
    unfolding parse_each.simps by (cases v) (auto split: option.splits sum.splits)
  then obtain z where "parse_each env vs = Some z" "map_sum id (Cons q) z = Inr qs" by auto
  with q(1) show ?thesis by (cases z) auto
qed

lemma cmds_sound:
  assumes laws: "bluge_laws sat ts" "parse_laws (qe_std env)" "plain_time (qe_mappings env)" and n: "no_should (JObj ((k, t) # rest))"
    and p: "parse_cmds env ((k, t) # rest) None = Some (Inr oq)" and tr: "tr_cmds (qe_std env) ((k, t) # rest) = Some r"
    and IH: "\<And>v c oq r. t = JObj v \<Longrightarrow> ToLower k = ''bool'' \<Longrightarrow> BoolQuery env v c = Some (Inr oq) \<Longrightarrow> tr_BoolQuery (qe_std env) v = Some r \<Longrightarrow> sound sat ts d oq r"
  shows "sound sat ts d oq r"
proof -
  from p obtain v q where q: "t = JObj v" "(if ToLower k = ''bool'' then BoolQuery env v ([], [], [], JNull) else if ToLower k = ''range'' then RangeQuery env v
      else Some (map_sum id (Some \<circ> Other) (qe_other env (ToLower k) v))) = Some (Inr q)"
    "q \<noteq> None \<Longrightarrow> oq = q \<and> rest = []" "q = None \<Longrightarrow> parse_cmds env rest None = Some (Inr oq)" by (rule parse_cmds_first) blast
  have ns: "no_should (JObj v)" using n q(1) by simp
  consider (b) "ToLower k = ''bool''" | (r) "ToLower k = ''range''" | (o) "ToLower k \<notin> {''bool'', ''range''}" by blast
  then show ?thesis
  proof cases
    case b
    with q(2) have bq: "BoolQuery env v ([], [], [], JNull) = Some (Inr q)" by simp
    then have "q \<noteq> None" using BoolQuery_musts by blast
    moreover have "sound sat ts d q r" using IH [OF q(1) b bq] tr b q(1) by simp
    ultimately show ?thesis using q(3) by simp
  next
    case r
    with q(2) have rq: "RangeQuery env v = Some (Inr q)" by simp
    have "tr_RangeQuery (qe_std env) v = Some r" using tr r q(1) by simp
    from RangeQuery_sound [OF laws ns rq this] show ?thesis using q(3) by (cases q) auto
  next
    case o
    with q(2) have "q \<noteq> None" by (cases "qe_other env (ToLower k) v") auto
    with q(3) tr o q(1) show ?thesis by auto
  qed
qed

text \<open>One member of a boolean query: its own range is returned, or that of the members after it.\<close>

lemma clauses_sound:
  assumes laws: "bluge_laws sat ts" and n: "ToLower k \<noteq> ''should''"
    and p: "BoolQuery env ((k, v) # rest) c = Some (Inr oq)" and tr: "tr_BoolQuery (qe_std env) ((k, v) # rest) = Some r"
    and one: "\<And>x q. ToLower k \<in> {''must'', ''filter''} \<Longrightarrow> v = JObj x \<Longrightarrow> parse_query env v = Some (Inr q) \<Longrightarrow> tr_query (qe_std env) v = Some r \<Longrightarrow> sound sat ts d q r"
    and each: "\<And>vs qs. ToLower k \<in> {''must'', ''filter''} \<Longrightarrow> v = JArr vs \<Longrightarrow> parse_each env vs = Some (Inr qs) \<Longrightarrow> tr_each (qe_std env) vs = Some (Some r) \<Longrightarrow>
      \<forall>q. Some q \<in> set qs \<longrightarrow> sat q d \<Longrightarrow> covers r (ts d)"
    and later: "\<And>c'. ToLower k \<in> {''must'', ''filter''} \<longrightarrow> (\<exists>vs. v = JArr vs \<and> tr_each (qe_std env) vs = Some None) \<Longrightarrow>
      BoolQuery env rest c' = Some (Inr oq) \<Longrightarrow> tr_BoolQuery (qe_std env) rest = Some r \<Longrightarrow> sound sat ts d oq r"
  shows "sound sat ts d oq r"
proof -
  obtain c' where c': "BoolQuery env rest c' = Some (Inr oq)" using BoolQuery_rest [OF p] by blast
  obtain bq where bq: "oq = Some bq" using BoolQuery_musts [OF c'] by blast
  show ?thesis
  proof (cases "ToLower k \<in> {''must'', ''filter''}")
    case True
    then have k: "ToLower k \<in> {''should'', ''must'', ''must_not'', ''filter''}" "ToLower k \<in> {''should'', ''must'', ''filter''}" by auto
    from BoolQuery_clauses [OF p k(1)] show ?thesis
    proof (elim disjE exE conjE)
      fix x q assume v: "v = JObj x" and q: "parse_query env v = Some (Inr q)" "BoolQuery env rest (add_clauses (ToLower k) [q] c) = Some (Inr oq)"
      have "sound sat ts d q r" by (rule one [OF True v q(1)]) (use tr k(2) v in simp)
      with clause_sat [OF laws q(2) [unfolded bq] True] show ?thesis by (cases q) (auto simp: bq)
    next
      fix vs qs assume v: "v = JArr vs" and q: "parse_each env vs = Some (Inr qs)" "BoolQuery env rest (add_clauses (ToLower k) qs c) = Some (Inr oq)"
      from tr k(2) v consider "tr_each (qe_std env) vs = Some None" "tr_BoolQuery (qe_std env) rest = Some r" | "tr_each (qe_std env) vs = Some (Some r)"
        by (auto split: option.splits)
      then show ?thesis
      proof cases
        case 1
        with later [OF _ c'] v show ?thesis by blast
      next
        case 2
        from each [OF True v q(1) this] clause_sat [OF laws q(2) [unfolded bq] True] show ?thesis by (auto simp: bq)
      qed
    qed
  next
    case False
    with n tr have "tr_BoolQuery (qe_std env) rest = Some r" by simp
    with later [OF _ c'] False show ?thesis by blast
  qed
qed

lemma time_range_covers:
  assumes laws: "bluge_laws sat ts" "parse_laws (qe_std env)" "plain_time (qe_mappings env)"
  shows "no_should q \<Longrightarrow> parse_query env q = Some (Inr oq) \<Longrightarrow> tr_query (qe_std env) q = Some r \<Longrightarrow> sound sat ts d oq r"
    and "no_should (JObj ms) \<Longrightarrow> parse_cmds env ms None = Some (Inr oq) \<Longrightarrow> tr_cmds (qe_std env) ms = Some r \<Longrightarrow> sound sat ts d oq r"
    and "no_should (JObj bs) \<Longrightarrow> BoolQuery env bs c = Some (Inr oq) \<Longrightarrow> tr_BoolQuery (qe_std env) bs = Some r \<Longrightarrow> sound sat ts d oq r"
    and "no_should (JArr vs) \<Longrightarrow> parse_each env vs = Some (Inr qs) \<Longrightarrow> tr_each (qe_std env) vs = Some (Some r) \<Longrightarrow> \<forall>q. Some q \<in> set qs \<longrightarrow> sat q d \<Longrightarrow> covers r (ts d)"
proof (induction "qe_std env" q and "qe_std env" ms and "qe_std env" bs and "qe_std env" vs arbitrary: oq r and oq r and c oq r and qs r
    rule: tr_query_tr_cmds_tr_BoolQuery_tr_each.induct)
  case (1 q)
  then show ?case by (cases q) auto
next
  case (3 k t rest)
  show ?case by (rule cmds_sound [OF laws "3.prems"]) (use "3.hyps"(1) "3.prems"(1) in auto)
next
  case (5 k v rest)
  have ns: "no_should v" "no_should (JObj rest)" "ToLower k \<noteq> ''should''" using "5.prems"(1) by simp_all
  show ?case
  proof (rule clauses_sound [OF laws(1) ns(3) "5.prems"(2,3)])
    show "sound sat ts d q r" if "ToLower k \<in> {''must'', ''filter''}" "v = JObj x" "parse_query env v = Some (Inr q)" "tr_query (qe_std env) v = Some r" for x q
      using "5.hyps"(8) [OF _ that(2) ns(1) that(3,4)] that(1) by blast
    show "covers r (ts d)" if "ToLower k \<in> {''must'', ''filter''}" "v = JArr vs" "parse_each env vs = Some (Inr qs)" "tr_each (qe_std env) vs = Some (Some r)"
      "\<forall>q. Some q \<in> set qs \<longrightarrow> sat q d" for vs qs
      using "5.hyps"(6) [OF _ that(2) _ that(3-5)] that(1,2) ns(1) by blast
    show "sound sat ts d oq r" if "ToLower k \<in> {''must'', ''filter''} \<longrightarrow> (\<exists>vs. v = JArr vs \<and> tr_each (qe_std env) vs = Some None)"
      "BoolQuery env rest c' = Some (Inr oq)" "tr_BoolQuery (qe_std env) rest = Some r" for c'
    proof (cases "ToLower k \<in> {''must'', ''filter''}")
      case True
      with that(1) obtain vs where "v = JArr vs" "tr_each (qe_std env) vs = Some None" by blast
      with "5.hyps"(7) [OF _ this(1) _ _ ns(2) that(2,3)] True show ?thesis by blast
    next
      case False
      with "5.hyps"(9) [OF _ ns(2) that(2,3)] ns(3) show ?thesis by blast
    qed
  qed
next
  case (7 v vs)
  obtain q qs' where q: "parse_query env v = Some (Inr q)" "parse_each env vs = Some (Inr qs')" "qs = q # qs'"
    using "7.prems"(2) parse_each_Cons [of env v vs qs] by blast
  obtain x where v: "v = JObj x" using "7.prems"(2) by (cases v) auto
  obtain mn mx where m: "tr_query (qe_std env) v = Some (mn, mx)" using "7.prems"(3) by (auto simp: v split: option.splits)
  have ns: "no_should v" "no_should (JArr vs)" using "7.prems"(1) by simp_all
  show ?case
  proof (cases "mn > 0 \<or> mx > 0")
    case True
    then have "r = (mn, mx)" using "7.prems"(3) m by (simp add: v)
    moreover have "sound sat ts d q (mn, mx)" by (rule "7.hyps"(1) [OF v ns(1) q(1) m])
    ultimately show ?thesis using True "7.prems"(4) q(3) by (cases q) auto
  next
    case False
    then have "tr_each (qe_std env) vs = Some (Some r)" using "7.prems"(3) m by (simp add: v)
    from "7.hyps"(2) [OF v m refl False ns(2) q(2) this] "7.prems"(4) q(3) show ?thesis by simp
  qed
qed auto

section \<open>Properties\<close>


text \<open>Documents are timestamps here; other queries match all.\<close>

fun ts_sat :: "'l bquery \<Rightarrow> int \<Rightarrow> bool" where
  "ts_sat (Boolean must should mustNot m) t \<longleftrightarrow> (\<forall>q \<in> set must. \<forall>q' \<in> set_option q. ts_sat q' t)
     \<and> (should = [] \<or> (\<exists>q \<in> set should. \<exists>q' \<in> set_option q. ts_sat q' t)) \<and> (\<forall>q \<in> set mustNot. \<forall>q' \<in> set_option q. \<not> ts_sat q' t)"
| "ts_sat (DateRange f mn mx a b) t \<longleftrightarrow> (mn \<noteq> zero_time \<longrightarrow> - (2 ^ 63) \<le> mn \<and> mn < 2 ^ 63 \<and> mn \<le> t) \<and> (mx \<noteq> zero_time \<longrightarrow> - (2 ^ 63) \<le> mx \<and> mx < 2 ^ 63 \<and> t \<le> mx)"
| "ts_sat _ t \<longleftrightarrow> True"

definition int_std :: go_std where
  "int_std = \<lparr>gs_format_float = (\<lambda>_. []), gs_parse_float = (\<lambda>s. map_option of_int (parse_int64 s)), gs_float64 = of_int, gs_float32 = id, gs_sprint = (\<lambda>_. []),
     gs_parse_time = (\<lambda>_ s _. map_option (\<lambda>i. i) (parse_int64 s)), gs_location = (\<lambda>_. False)\<rparr>"

definition int_query_env :: "string query_env" where
  "int_query_env = \<lparr>qe_std = int_std, qe_now = 1000, qe_mappings = [(TimeFieldName, NewProperty ''date'')], qe_nil = (\<lambda>_ _. None), qe_other = (\<lambda>k _. Inr k), qe_min = (\<lambda>_ _. Inr 1)\<rparr>"

definition range_json :: "string \<Rightarrow> string \<Rightarrow> jval" where
  "range_json a b = JObj [(''range'', JObj [(TimeFieldName, JObj [(''gte'', JStr a), (''lt'', JStr b)])])]"

lemma int_laws: "bluge_laws (ts_sat :: string bquery \<Rightarrow> int \<Rightarrow> bool) (\<lambda>t. t)" "parse_laws (qe_std int_query_env)" "plain_time (qe_mappings int_query_env)"
proof -
  show "bluge_laws (ts_sat :: string bquery \<Rightarrow> int \<Rightarrow> bool) (\<lambda>t. t)" unfolding bluge_laws_def by fastforce
  show "parse_laws (qe_std int_query_env)" by (auto simp: parse_laws_def int_query_env_def int_std_def)
  show "plain_time (qe_mappings int_query_env)" by (simp add: plain_time_def int_query_env_def NewProperty_def ptype_def zero_base_def)
qed

lemma int_prop: "GetProperty (qe_mappings int_query_env) TimeFieldName = (NewProperty ''date'', True)" "qe_std int_query_env = int_std"
    "ptype (NewProperty ''date'') = ''date''" "pb_Format (base (NewProperty ''date'')) = []" "pb_TimeZone (base (NewProperty ''date'')) = []"
  by (simp_all add: int_query_env_def GetProperty_def NewProperty_def ptype_def zero_base_def)

lemma int_bound: "query_bound int_std nl RFC3339 (Some z) (JStr s) t = Some (parse_int64 s)" "query_bound int_std nl RFC3339 y JNull t = Some (Some t)"
    "tr_bound int_std RFC3339 z (JStr s) t = Some (parse_int64 s)" "tr_bound int_std RFC3339 z JNull t = Some (Some t)"
  by (simp_all add: query_bound_def query_time_def tr_bound_def int_std_def or_zero_def RFC3339_def option.map_ident)

lemma range_members:
  "read_time std [(''gte'', JStr a), (''lt'', JStr b)] no_range = no_range\<lparr>rg_GTE := JStr a, rg_LT := JStr b\<rparr>"
  "tr_read [(''gte'', JStr a), (''lt'', JStr b)] no_range = Some (Some (no_range\<lparr>rg_GTE := JStr a, rg_LT := JStr b\<rparr>))"
  by (simp_all add: ToLower_def read_member_def tr_member_def)

lemma range_json_parse:
  assumes "parse_int64 a = Some m" "parse_int64 b = Some n"
  shows "n \<noteq> zero_time \<Longrightarrow> parse_query int_query_env (range_json a b) = Some (Inr (Some (DateRange TimeFieldName m n True False)))"
    and "tr_query (qe_std int_query_env) (range_json a b) = Some (UnixNano m, UnixNano n)"
proof -
  have "RangeQueryTime int_query_env TimeFieldName [(''gte'', JStr a), (''lt'', JStr b)] = Some (Inr (Some (DateRange TimeFieldName m n True False)))" if "n \<noteq> zero_time"
    using assms that unfolding RangeQueryTime_def Let_def int_prop range_members by (simp add: no_range_def int_bound int_prop query_then_def)
  then show "n \<noteq> zero_time \<Longrightarrow> parse_query int_query_env (range_json a b) = Some (Inr (Some (DateRange TimeFieldName m n True False)))"
    by (simp add: range_json_def RangeQuery_def int_prop ToLower_def)
  have "tr_RangeQueryTime int_std [(''gte'', JStr a), (''lt'', JStr b)] = Some (UnixNano m, UnixNano n)"
    using assms unfolding tr_RangeQueryTime_def range_members by (simp add: no_range_def int_bound tr_then_def)
  then show "tr_query (qe_std int_query_env) (range_json a b) = Some (UnixNano m, UnixNano n)"
    by (simp add: range_json_def int_prop ToLower_def)
qed

lemma decimal_25: "parse_int64 ''20'' = Some 20" "parse_int64 ''50'' = Some 50" "parse_int64 ''70'' = Some 70" "parse_int64 ''90'' = Some 90"
  by (simp_all add: parse_int64_def parse_nat_def is_dec_def dec_val_def)

definition three_shards :: "unit shard" where
  "three_shards = the (UpdateMetadataByShard (\<lambda>_. (0, 0)) (shard_run (\<lambda>_. (0, 0)) () (new_shard ''s'' ()) [Stamp 10, Stamp 30, Grow, Stamp 40, Grow, Stamp 80]))"

lemma three_shards_timed: "timed three_shards [[10, 30], [40], [80]] (bounds [80])"
proof -
  let ?es = "[Stamp 10, Stamp 30, Grow, Stamp 40, Grow, Stamp 80]"
  let ?run = "shard_run (\<lambda>_. (0, 0)) () (new_shard ''s'' ()) ?es"
  have "\<exists>r. timed ?run (epochs [[]] ?es) r" by (rule timed_run [OF timed_new]) auto
  then obtain r where "timed ?run (epochs [[]] ?es) r" ..
  from timed_sync [OF this, of "\<lambda>_. (0, 0)"] show ?thesis by (simp add: three_shards_def)
qed



text \<open>A numeric range with a bound that is not positive: the bound is dropped, and the range starts at 0.\<close>

lemma RangeQueryNumeric_negative:
  "RangeQueryNumeric std field [(''gte'', JNum (- 10)), (''lt'', JNum 0)] = NumericRange field 0 (2 ^ 63) False False"
  by (simp add: RangeQueryNumeric_def ToLower_def or_zero_def positive_def)

end
