(* ===== verification/Spec2Isabelle.thy ===== *)
theory Spec2Isabelle
  imports Base62 Rendezvous Cluster Alias_List Redo_Log Hnsw_Machine Shards Json Wal_Merge Wal_Store Wal_Shard Key_Cache Lru_Cache Flatten Index_Documents Index_Manager Query_Range
begin

text \<open>
  Verification development for SeaSearch, a search server in Go on top of the Bluge index library, with
  vector search and an optional cluster of nodes.

  \<^bold>\<open>The program.\<close> A cluster manager (\<^verbatim>\<open>cmd/cluster-manager\<close>) spreads 256 prefixes of hashed index names over the
  nodes. A node serves the indexes whose prefix it has (\<^verbatim>\<open>pkg/cluster\<close>). It loads them through the index
  manager (\<^verbatim>\<open>pkg/core/indexmgr.go\<close>). An index sends every document, by rendezvous hashing of its id, to a
  first-layer shard, which is a growing list of second-layer shards, each a Bluge index
  (\<^verbatim>\<open>pkg/core/index_shards.go\<close>). A document is checked against the mappings, which the check may extend, and
  becomes an operation (\<^verbatim>\<open>pkg/core/index_shards_document.go\<close>). The operation is appended to the write-ahead log of
  its shard or written at once (\<^verbatim>\<open>pkg/core/index_document.go\<close>); the consumer of the log merges the operations of
  a batch and writes them between two redo records (\<^verbatim>\<open>pkg/core/index_shards_wal.go\<close>, \<^verbatim>\<open>pkg/wal\<close>). Vectors go to
  segments with an HNSW graph of their own (\<^verbatim>\<open>pkg/core/hnsw_segment.go\<close>). Files of an object store are cached on the
  local disk (\<^verbatim>\<open>pkg/lru_cache\<close>), listings in memory (\<^verbatim>\<open>pkg/bluge/directory/keycache.go\<close>). A search reads a time
  range from its query to choose the shards it visits (\<^verbatim>\<open>pkg/uquery\<close>).

  \<^bold>\<open>How code is modelled.\<close> A struct is a record, a method a function that returns the changed state. An error is
  \<open>Inl\<close> of a sum or \<open>Some\<close> of an option, by its message without the values printed in it; a panic, or a
  call that never returns, is \<open>None\<close> (\<open>Panic\<close> and \<open>Exit\<close> of \<open>outcome\<close> where both occur). 64-bit integers are words
  where they wrap, and integers within stated bounds elsewhere. A Go map is a partial function or, where it is
  ranged over, an association list; the order of the range is an argument, and theorems hold for every order.
  Objects shared by reference live in a heap. Code that runs under a lock is one step; concurrency is an
  \<open>inductive\<close> relation over such steps, in any order. Third-party code (Bluge, usearch, etcd, SQL
  databases, the file system) and Go's formatting of floats and dates are arguments, with what is relied on
  as named predicates: \<open>batch_ok\<close> (a batch replaces and adds documents by id), \<open>bluge_laws\<close> (boolean and date
  queries), \<open>parse_laws\<close>, \<open>no_faults\<close> and \<open>quiet\<close> (nothing fails). Every property with hypotheses has a closed
  witness, in which these arguments are concrete functions.

  \<^bold>\<open>Theories\<close>, in the order of their dependencies:

  \<^item> \<^verbatim>\<open>Prelude\<close>, \<^verbatim>\<open>Go_Runtime\<close>: map ranges, digits, slices with bounds checks, numbers as text, md5.
  \<^item> \<^verbatim>\<open>Base62\<close> (\<^verbatim>\<open>pkg/zutils/base62\<close>, \<^verbatim>\<open>GetHashEncode\<close>): the codec round trip, which ids pass the check of
    \<^verbatim>\<open>CreateDocument\<close>, and the names of stored indexes.
  \<^item> \<^verbatim>\<open>Rendezvous\<close> (\<^verbatim>\<open>pkg/zutils/hash\<close>): the locale \<open>node_picker\<close>; the choice of a node does not depend on the order
    of additions and moves keys to added nodes only; \<^verbatim>\<open>Remove\<close> always panics.
  \<^item> \<^verbatim>\<open>Cluster\<close> (\<^verbatim>\<open>cmd/cluster-manager/manager.go\<close>, \<^verbatim>\<open>pkg/cluster\<close>): rounds of the manager are balanced, minimal and
    settle; every index has one owner.
  \<^item> \<^verbatim>\<open>Alias_List\<close> (\<^verbatim>\<open>pkg/core/aliaslist.go\<close>): the locale \<open>alias_store\<close>; a relation between aliases and indexes.
  \<^item> \<^verbatim>\<open>Redo_Log\<close> (\<^verbatim>\<open>pkg/wal/redo\<close>): the locale \<open>durable_map\<close>; the file is a durable map.
  \<^item> \<^verbatim>\<open>Hnsw_Cache\<close>, \<^verbatim>\<open>Hnsw_Segment\<close>, \<^verbatim>\<open>Hnsw_View\<close>, \<^verbatim>\<open>Hnsw_Steps\<close>, \<^verbatim>\<open>Hnsw_Search\<close>, \<^verbatim>\<open>Hnsw_Machine\<close>
    (\<^verbatim>\<open>pkg/core/hnsw_segment.go\<close>): the cache arrays (locale \<open>id_map\<close>), the stored log and documents, the four parts of the
    index worker, the searches; under every interleaving of batches, worker parts, failures and restarts the
    searches see the map that the batches have built.
  \<^item> \<^verbatim>\<open>Shards\<close> (\<^verbatim>\<open>pkg/core/index_shards.go\<close>): writers and their reference counts, growth, time ranges, and the shards that a
    search with a range visits.
  \<^item> \<^verbatim>\<open>Json\<close>, \<^verbatim>\<open>Wal_Merge\<close>, \<^verbatim>\<open>Wal_Store\<close>, \<^verbatim>\<open>Wal_Shard\<close> (\<^verbatim>\<open>pkg/core/index_shards_wal.go\<close>, \<^verbatim>\<open>pkg/wal\<close>): merged operations act
    as the logged ones; the log on an SQL table and its concurrent opening (locales \<open>wal_log\<close>, \<open>redo_store\<close>); a run
    of the consumer (locale \<open>wal_client\<close>) writes and commits exactly the pending operations.
  \<^item> \<^verbatim>\<open>Key_Cache\<close>, \<^verbatim>\<open>Lru_Cache\<close> (\<^verbatim>\<open>pkg/bluge/directory/keycache.go\<close>, \<^verbatim>\<open>pkg/lru_cache\<close>): cached listings are current; files
    in use are kept, eviction follows the access times.
  \<^item> \<^verbatim>\<open>Flatten\<close>, \<^verbatim>\<open>Mappings\<close>, \<^verbatim>\<open>Documents\<close> (\<^verbatim>\<open>pkg/zutils\<close>, \<^verbatim>\<open>pkg/meta\<close>, \<^verbatim>\<open>pkg/core/index_shards_document.go\<close>): what the check
    accepts can be built into an index document, with the exceptions shown.
  \<^item> \<^verbatim>\<open>Index_Documents\<close> (\<^verbatim>\<open>pkg/core/index_document.go\<close>): composes hashing, shards, the check and merging; the documents
    of an index are a map from ids to documents.
  \<^item> \<^verbatim>\<open>Index_Manager\<close> (\<^verbatim>\<open>pkg/core/indexmgr.go\<close>): the locale \<open>single_flight\<close>; one operation per index name at a time, and
    cached indexes are stored.
  \<^item> \<^verbatim>\<open>Query_Range\<close> (\<^verbatim>\<open>pkg/uquery/query\<close>, \<^verbatim>\<open>pkg/uquery/timerange\<close>): the range read from a query holds the timestamps of
    its hits, so their shards are visited; with alternatives it does not.

  \<^bold>\<open>Loops and bounds.\<close> Recursion is structural or has a termination proof, but for three loops that are
  \<open>partial_function\<close>s, where not returning is \<open>None\<close>. \<open>commit_batches\<close> does not end for a batch size of zero
  (\<open>CommitOperations_ends\<close> says exactly when it returns). \<open>consume_loop\<close> and \<open>rollback_docs\<close> count in wrapping 64-bit
  indexes up to a bound from the log; \<open>ConsumeWAL_once\<close> proves that a run of the consumer returns. A caller that
  waits for a channel is not a loop but a state of the concurrent models. No model uses fuel. The log ids of a
  vector segment stay below \<open>2 ^ 63\<close>.

  \<^bold>\<open>Not modelled\<close>, and why. IVF-PQ segments and the manager of vector indexes: their work is done by faiss
  through cgo, between file and bucket I/O. Kinds of queries other than boolean and range ones, aggregations,
  highlighting and sorting: they build objects of Bluge, whose meaning is third-party code. Analyzers, tokenizers
  and dictionaries: word lists and wrappers of third-party tokenizers, which make up most of the lines of the
  repository. Bluge directories, metadata backends, the proxy, HTTP handlers, authentication, configuration,
  logging and start-up: I/O and encoding around the modelled operations. The upgrade of old metadata: a one-time
  conversion. The PostgreSQL statements of the log are those of MySQL up to the dialect. Of modelled files,
  background tickers, heartbeats and watches of etcd, the closing of idle writers, the float16 form of vectors,
  boosts of queries and the terms of unified search are left out. Locks are not modelled beyond the steps they
  protect.
\<close>

end
